(* ===== verification/Kernel_Prelude.thy ===== *)
theory Kernel_Prelude
  imports Main "HOL-Library.Word"
begin

text \<open>
  Shared vocabulary of the development: the C integer types at their widths, little-endian
  byte sequences, a byte-addressed memory, and the state monad in which every kernel operation
  is written.

  A kernel operation is a function from the kernel state to an \<open>outcome\<close>: it returns
  (\<open>Done\<close>), it calls \<open>panic\<close> (\<open>Panic\<close> with the message), it spins on a lock held by another
  hart (\<open>Spin\<close>), it has given up the CPU by switching to the scheduler (\<open>Sched\<close>, with the
  state at the switch and the rest of the operation, to be run on the state the scheduler
  comes back with), or it performs an access that C leaves undefined (\<open>Fault\<close>).
\<close>

unbundle bit_operations_syntax

subsection \<open>Integer types\<close>

type_synonym u8 = "8 word"
type_synonym u16 = "16 word"
type_synonym u32 = "32 word"
type_synonym u64 = "64 word"

subsection \<open>Outcomes and the kernel monad\<close>

datatype ('s, 'a) outcome =
    Done 'a 's | Panic string | Spin | Sched 's "'s \<Rightarrow> ('s, 'a) outcome" | Fault

type_synonym ('s, 'a) kmon = "'s \<Rightarrow> ('s, 'a) outcome"

definition ret :: "'a \<Rightarrow> ('s, 'a) kmon" where
  "ret a s = Done a s"

primrec obind :: "('s, 'a) outcome \<Rightarrow> ('a \<Rightarrow> ('s, 'b) kmon) \<Rightarrow> ('s, 'b) outcome" where
  "obind (Done a t) f = f a t"
| "obind (Panic e) f = Panic e"
| "obind Spin f = Spin"
| "obind (Sched t k) f = Sched t (\<lambda>u. obind (k u) f)"
| "obind Fault f = Fault"

definition bnd :: "('s, 'a) kmon \<Rightarrow> ('a \<Rightarrow> ('s, 'b) kmon) \<Rightarrow> ('s, 'b) kmon" where
  "bnd m f s = obind (m s) f"

definition thn :: "('s, unit) kmon \<Rightarrow> ('s, 'b) kmon \<Rightarrow> ('s, 'b) kmon" where
  "thn m n = bnd m (\<lambda>_. n)"

definition gets :: "('s \<Rightarrow> 'a) \<Rightarrow> ('s, 'a) kmon" where
  "gets f s = Done (f s) s"

definition modify :: "('s \<Rightarrow> 's) \<Rightarrow> ('s, unit) kmon" where
  "modify f s = Done () (f s)"

definition panic :: "string \<Rightarrow> ('s, 'a) kmon" where
  "panic msg s = Panic msg"

definition fault :: "('s, 'a) kmon" where
  "fault s = Fault"

definition spin :: "('s, 'a) kmon" where
  "spin s = Spin"

text \<open>\<open>swtch\<close> to the scheduler: the rest of the operation runs when the process is resumed.\<close>

definition swtch :: "('s, unit) kmon" where
  "swtch s = Sched s (Done ())"

definition whenM :: "bool \<Rightarrow> ('s, unit) kmon \<Rightarrow> ('s, unit) kmon" where
  "whenM b m = (if b then m else ret ())"

text \<open>A counted \<open>for\<close> loop: the body runs for each index of the list, in order.\<close>

fun for_each :: "'i list \<Rightarrow> ('i \<Rightarrow> ('s, unit) kmon) \<Rightarrow> ('s, unit) kmon" where
  "for_each [] body = ret ()"
| "for_each (i # is) body = thn (body i) (for_each is body)"

named_theorems kmon_simps \<open>equations that run a monadic operation on a state\<close>

lemma bnd_ret [kmon_simps]: "bnd (ret a) f s = f a s"
  by (simp add: bnd_def ret_def)

lemma bnd_Done [kmon_simps]: "bnd (Done a) f s = f a s"
  by (simp add: bnd_def)

lemma bnd_gets [kmon_simps]: "bnd (gets g) f s = f (g s) s"
  by (simp add: bnd_def gets_def)

lemma bnd_modify [kmon_simps]: "bnd (modify g) f s = f () (g s)"
  by (simp add: bnd_def modify_def)

lemma bnd_panic [kmon_simps]: "bnd (panic e) f s = Panic e"
  by (simp add: bnd_def panic_def)

lemma bnd_fault [kmon_simps]: "bnd fault f s = Fault"
  by (simp add: bnd_def fault_def)

lemma bnd_spin [kmon_simps]: "bnd spin f s = Spin"
  by (simp add: bnd_def spin_def)

lemma bnd_swtch [kmon_simps]: "bnd swtch f s = Sched s (f ())"
  by (simp add: bnd_def swtch_def)

lemma obind_assoc: "obind (obind r f) g = obind r (\<lambda>a s. obind (f a s) g)"
  by (induction r) simp_all

lemma bnd_assoc [kmon_simps]: "bnd (bnd m f) g s = bnd m (\<lambda>a. bnd (f a) g) s"
  by (simp add: bnd_def [abs_def] obind_assoc)

lemma thn_eq [kmon_simps]: "thn m n s = bnd m (\<lambda>_. n) s"
  by (simp add: thn_def)

lemma bnd_thn [kmon_simps]: "bnd (thn m n) f s = bnd m (\<lambda>_. bnd n f) s"
  by (simp add: thn_def bnd_assoc)

lemma bnd_if [kmon_simps]: "bnd (if c then m else n) f s = (if c then bnd m f s else bnd n f s)"
  by simp

lemma bnd_option_case [kmon_simps]:
  "bnd (case x of None \<Rightarrow> m | Some a \<Rightarrow> n a) f s =
     (case x of None \<Rightarrow> bnd m f s | Some a \<Rightarrow> bnd (n a) f s)"
  by (cases x) simp_all

lemma if_apply [kmon_simps]: "(if c then m else n) s = (if c then m s else n s)"
  by simp

lemma option_case_apply [kmon_simps]:
  "(case x of None \<Rightarrow> m | Some a \<Rightarrow> n a) s = (case x of None \<Rightarrow> m s | Some a \<Rightarrow> n a s)"
  by (cases x) simp_all

lemma whenM_apply [kmon_simps]: "whenM b m s = (if b then m s else Done () s)"
  by (simp add: whenM_def ret_def)

lemma bnd_whenM [kmon_simps]: "bnd (whenM b m) f s = (if b then bnd m f s else f () s)"
  by (simp add: whenM_def bnd_ret)

lemmas kmon_leaf [kmon_simps] =
  ret_def gets_def modify_def panic_def fault_def spin_def swtch_def

text \<open>Forward elimination: a returning composition is two returning steps.\<close>

lemma bnd_Done_iff:
  "bnd m f s = Done b t \<longleftrightarrow> (\<exists>a u. m s = Done a u \<and> f a u = Done b t)"
  by (cases "m s") (simp_all add: bnd_def)

lemma thn_Done_iff:
  "thn m n s = Done b t \<longleftrightarrow> (\<exists>u. m s = Done () u \<and> n u = Done b t)"
  by (simp add: thn_def bnd_Done_iff)

lemma bnd_DoneI: "m s = Done a u \<Longrightarrow> bnd m f s = f a u"
  by (simp add: bnd_def)

lemma bnd_Panic: "m s = Panic e \<Longrightarrow> bnd m f s = Panic e"
  by (simp add: bnd_def)

lemma bnd_Sched: "m s = Sched u k \<Longrightarrow> bnd m f s = Sched u (bnd k f)"
  by (simp add: bnd_def [abs_def])

lemma bnd_Spin: "m s = Spin \<Longrightarrow> bnd m f s = Spin"
  by (simp add: bnd_def)

lemmas bnd_run = bnd_DoneI bnd_Panic bnd_Sched bnd_Spin

text \<open>An invariant kept by the body is kept by the loop.\<close>

lemma for_each_inv:
  assumes "\<And>i u v. i \<in> set is \<Longrightarrow> P u \<Longrightarrow> body i u = Done () v \<Longrightarrow> P v"
    and "P s" and "for_each is body s = Done () t"
  shows "P t"
  using assms
proof (induction "is" arbitrary: s)
  case Nil
  then show ?case by (simp add: ret_def)
next
  case (Cons i "is")
  then obtain u where "body i s = Done () u" and "for_each is body u = Done () t"
    by (auto simp: thn_Done_iff)
  with Cons show ?case by (metis list.set_intros(1,2))
qed

subsection \<open>Weakest preconditions\<close>

text \<open>
  \<open>wp m Q s\<close>: started in \<open>s\<close>, \<open>m\<close> returns (no panic, no fault, no wait) and its result and
  final state satisfy \<open>Q\<close>.
\<close>

definition wp :: "('s, 'a) kmon \<Rightarrow> ('a \<Rightarrow> 's \<Rightarrow> bool) \<Rightarrow> 's \<Rightarrow> bool" where
  "wp m Q s \<longleftrightarrow> (case m s of Done a t \<Rightarrow> Q a t | _ \<Rightarrow> False)"

lemma wp_bnd: "wp (bnd m f) Q s = wp m (\<lambda>a. wp (f a) Q) s"
  by (cases "m s") (simp_all add: wp_def bnd_def)

lemma wp_Done: "wp m Q s \<longleftrightarrow> (\<exists>a t. m s = Done a t \<and> Q a t)"
  by (simp add: wp_def split: outcome.split)

lemma wp_mono: "wp m Q s \<Longrightarrow> (\<And>a t. Q a t \<Longrightarrow> R a t) \<Longrightarrow> wp m R s"
  by (auto simp: wp_Done)

lemma wp_for_each:
  assumes "\<And>k u. k < length is \<Longrightarrow> I k u \<Longrightarrow> wp (body (is ! k)) (\<lambda>_. I (Suc k)) u"
    and "I 0 s"
  shows "wp (for_each is body) (\<lambda>_. I (length is)) s"
  using assms
proof (induction "is" arbitrary: s I)
  case Nil
  then show ?case by (simp add: wp_def ret_def)
next
  case (Cons i "is")
  have step: "wp (body i) (\<lambda>_. I (Suc 0)) s"
    using Cons.prems(1) [of 0 s] Cons.prems(2) by simp
  have rest: "wp (for_each is body) (\<lambda>_. I (Suc (length is))) u" if "I (Suc 0) u" for u
  proof (rule Cons.IH [where I = "\<lambda>k. I (Suc k)"])
    show "wp (body (is ! k)) (\<lambda>_. I (Suc (Suc k))) v" if "k < length is" "I (Suc k) v" for k v
      using Cons.prems(1) [of "Suc k" v] that by simp
    show "I (Suc 0) u" by (rule that)
  qed
  show ?case
    using step rest by (simp add: thn_def wp_bnd) (blast intro: wp_mono)
qed

subsection \<open>Arithmetic\<close>

lemma div_block:
  fixes n d :: nat
  assumes "0 < d"
  shows "n div d * d \<le> n \<and> n < n div d * d + d"
  using assms div_times_less_eq_dividend [of n d] dividend_less_div_times [of d n] by simp

lemma nth_upd: "xs[i := v] ! j = (if i = j \<and> i < length xs then v else xs ! j)"
  by (cases "i < length xs"; cases "i = j") (simp_all add: list_update_beyond)

subsection \<open>Little-endian byte sequences\<close>

fun to_le :: "nat \<Rightarrow> 'a::len word \<Rightarrow> u8 list" where
  "to_le 0 x = []"
| "to_le (Suc n) x = ucast x # to_le n (drop_bit 8 x)"

fun from_le :: "u8 list \<Rightarrow> 'a::len word" where
  "from_le [] = 0"
| "from_le (b # bs) = ucast b OR push_bit 8 (from_le bs)"

lemma length_to_le [simp]: "length (to_le n x) = n"
  by (induction n arbitrary: x) auto

lemma from_le_to_le: "from_le (to_le n x) = take_bit (8 * n) x"
proof (induction n arbitrary: x)
  case 0
  then show ?case by simp
next
  case (Suc n)
  show ?case
    unfolding to_le.simps from_le.simps Suc
    by (rule bit_word_eqI) (auto simp: bit_simps)
qed

lemma from_le_to_le_full [simp]:
  "LENGTH('a::len) = 8 * n \<Longrightarrow> from_le (to_le n (x :: 'a word)) = x"
  by (simp add: from_le_to_le take_bit_word_eq_self)

lemma bit_from_le_less: "bit (from_le cs :: 'a::len word) n \<Longrightarrow> n < 8 * length cs"
proof (induction cs arbitrary: n)
  case Nil
  then show ?case by simp
next
  case (Cons c cs)
  then show ?case
    using bit_imp_le_length [of c n] by (fastforce simp: bit_simps)
qed

lemma to_le_from_le:
  "length bs = n \<Longrightarrow> 8 * n \<le> LENGTH('a) \<Longrightarrow> to_le n (from_le bs :: 'a::len word) = bs"
proof (induction bs arbitrary: n)
  case Nil
  then show ?case by simp
next
  case (Cons b bs)
  then obtain m where n: "n = Suc m" and m: "length bs = m" by (cases n) auto
  have low: "ucast (ucast b OR push_bit 8 (from_le bs) :: 'a word) = b"
    using Cons.prems n by (intro bit_word_eqI) (auto simp: bit_simps)
  have high: "drop_bit 8 (ucast b OR push_bit 8 (from_le bs) :: 'a word) = from_le bs"
    using Cons.prems n m
    by (intro bit_word_eqI) (auto simp: bit_simps dest: bit_imp_le_length bit_from_le_less)
  have "to_le m (from_le bs :: 'a word) = bs"
    using Cons.IH [OF m] Cons.prems n by simp
  then show ?case
    by (simp only: n to_le.simps from_le.simps low high)
qed

end
