(* ===== verification/Kernel_String.thy ===== *)
theory Kernel_String
  imports Kernel_Prelude
begin

text \<open>
  Byte-addressed memory and the routines of \<open>kernel/string.c\<close>. Memory is a function from
  64-bit addresses to bytes. A routine that only reads through a pointer takes the \<^emph>\<open>view\<close>
  from that pointer, the function from offsets to bytes; a routine that writes returns the new
  memory or the bytes it stores. Lengths are natural numbers, the values of the C \<open>uint n\<close>.

  The lemmas show that \<open>memmove\<close> copies correctly whatever the overlap, that \<open>memset\<close> is a block
  write, that \<open>strncmp\<close> decides equality of the two names up to the bound, and the bounds
  and terminators written by \<open>strncpy\<close> and \<open>safestrcpy\<close>.
\<close>

type_synonym memory = "u64 \<Rightarrow> u8"

subsection \<open>Block reads and writes\<close>

definition mem_read :: "memory \<Rightarrow> u64 \<Rightarrow> nat \<Rightarrow> u8 list" where
  "mem_read m a n = map (\<lambda>i. m (a + of_nat i)) [0..<n]"

definition mem_write :: "memory \<Rightarrow> u64 \<Rightarrow> u8 list \<Rightarrow> memory" where
  "mem_write m a bs = (\<lambda>x. if unat (x - a) < length bs then bs ! unat (x - a) else m x)"

definition view :: "memory \<Rightarrow> u64 \<Rightarrow> nat \<Rightarrow> u8" where
  "view m p i = m (p + of_nat i)"

definition lview :: "u8 list \<Rightarrow> nat \<Rightarrow> u8" where
  "lview xs i = (if i < length xs then xs ! i else 0)"

lemma length_mem_read [simp]: "length (mem_read m a n) = n"
  by (simp add: mem_read_def)

lemma nth_mem_read [simp]: "i < n \<Longrightarrow> mem_read m a n ! i = m (a + of_nat i)"
  by (simp add: mem_read_def)

lemma mem_read_0 [simp]: "mem_read m a 0 = []"
  by (simp add: mem_read_def)

lemma mem_write_Nil [simp]: "mem_write m a [] = m"
  by (simp add: mem_write_def)

lemma mem_read_Suc: "mem_read m a (Suc n) = m a # mem_read m (a + 1) n"
  by (rule nth_equalityI) (auto simp: nth_Cons algebra_simps split: nat.split)

lemma mem_read_snoc: "mem_read m a (Suc n) = mem_read m a n @ [m (a + of_nat n)]"
  by (simp add: mem_read_def)

lemma unat_diff_Suc: "x \<noteq> a \<Longrightarrow> unat (x - a) = Suc (unat (x - (a + 1)))" for x a :: u64
proof -
  assume "x \<noteq> a"
  then have "x - a \<noteq> 0" by simp
  then have m: "unat (x - a - 1) = unat (x - a) - 1" and "unat (x - a) \<noteq> 0"
    by (simp_all add: unat_minus_one unat_eq_0)
  have "unat (x - (a + 1)) = unat (x - a) - 1"
    unfolding diff_diff_add [symmetric] by (rule m)
  then show ?thesis using \<open>unat (x - a) \<noteq> 0\<close> by linarith
qed

lemma mem_write_Cons:
  assumes "length bs < 2 ^ 64"
  shows "mem_write m a (b # bs) = mem_write (m(a := b)) (a + 1) bs"
proof
  fix x
  have "unat (a - (a + 1)) = 2 ^ 64 - 1"
    by (simp add: unsigned_minus_1_eq_mask mask_eq_exp_minus_1)
  with assms show "mem_write m a (b # bs) x = mem_write (m(a := b)) (a + 1) bs x"
    by (cases "x = a") (auto simp: mem_write_def unat_diff_Suc [of x a])
qed

lemma mem_write_snoc:
  assumes "length bs < 2 ^ 64"
  shows "mem_write m a (bs @ [b]) = mem_write (m(a + of_nat (length bs) := b)) a bs"
proof
  fix x
  have "unat (x - a) = length bs \<longleftrightarrow> x = a + of_nat (length bs)"
  proof
    assume l: "unat (x - a) = length bs"
    have "x = a + of_nat (unat (x - a))" by simp
    then show "x = a + of_nat (length bs)" by (simp only: l)
  next
    assume "x = a + of_nat (length bs)"
    then show "unat (x - a) = length bs"
      using assms by (simp add: unat_of_nat)
  qed
  then show "mem_write m a (bs @ [b]) x = mem_write (m(a + of_nat (length bs) := b)) a bs x"
    by (auto simp: mem_write_def nth_append)
qed

lemma unat_add_of_nat:
  "unat a + n < 2 ^ 64 \<Longrightarrow> unat (a + of_nat n :: u64) = unat a + n"
  by (simp add: unat_word_ariths unat_of_nat)

lemma mem_read_upd_other:
  assumes "\<And>i. i < n \<Longrightarrow> a + of_nat i \<noteq> x"
  shows "mem_read (m(x := b)) a n = mem_read m a n"
  using assms by (simp add: mem_read_def)

lemma addr_outside:
  assumes "unat a + n \<le> 2 ^ 64" and "unat x < unat a \<or> unat a + n \<le> unat x" and "i < n"
  shows "a + of_nat i \<noteq> (x :: u64)"
proof -
  have "unat (a + of_nat i) = unat a + i"
    using assms by (intro unat_add_of_nat) simp
  then show ?thesis using assms by auto
qed

lemma mem_read_mem_write_same [simp]:
  "length bs \<le> 2 ^ 64 \<Longrightarrow> n = length bs \<Longrightarrow> mem_read (mem_write m a bs) a n = bs"
  by (rule nth_equalityI) (auto simp: mem_write_def unat_of_nat)

text \<open>Two byte ranges that do not wrap and do not meet.\<close>

definition disjoint_ranges :: "u64 \<Rightarrow> nat \<Rightarrow> u64 \<Rightarrow> nat \<Rightarrow> bool" where
  "disjoint_ranges a n b k \<longleftrightarrow> unat a + n \<le> 2 ^ 64 \<and> unat b + k \<le> 2 ^ 64 \<and>
     (unat a + n \<le> unat b \<or> unat b + k \<le> unat a)"

lemma mem_write_other:
  assumes "unat a + length bs \<le> 2 ^ 64" "unat x < unat a \<or> unat a + length bs \<le> unat x"
  shows "mem_write m a bs x = m x"
proof -
  have "\<not> unat (x - a) < length bs"
  proof
    assume l: "unat (x - a) < length bs"
    have "a + of_nat (unat (x - a)) = x" by simp
    with addr_outside [OF assms l] show False by simp
  qed
  then show ?thesis by (simp add: mem_write_def)
qed

lemma mem_read_mem_write_disjoint:
  assumes "disjoint_ranges a n b (length bs)"
  shows "mem_read (mem_write m b bs) a n = mem_read m a n"
proof (rule nth_equalityI)
  show "length (mem_read (mem_write m b bs) a n) = length (mem_read m a n)" by simp
  fix i assume "i < length (mem_read (mem_write m b bs) a n)"
  then have i: "i < n" by simp
  have "unat (a + of_nat i) = unat a + i"
    using assms i by (intro unat_add_of_nat) (auto simp: disjoint_ranges_def)
  with assms i show "mem_read (mem_write m b bs) a n ! i = mem_read m a n ! i"
    by (auto simp: disjoint_ranges_def intro!: mem_write_other)
qed

text \<open>Little-endian loads and stores of 64-bit and 32-bit values.\<close>

definition load64 :: "memory \<Rightarrow> u64 \<Rightarrow> u64" where
  "load64 m a = from_le (mem_read m a 8)"

definition store64 :: "memory \<Rightarrow> u64 \<Rightarrow> u64 \<Rightarrow> memory" where
  "store64 m a v = mem_write m a (to_le 8 v)"

lemma load64_store64_same [simp]: "load64 (store64 m a v) a = v"
  by (simp add: load64_def store64_def)

lemma load64_mem_write_disjoint:
  "disjoint_ranges a 8 b (length bs) \<Longrightarrow> load64 (mem_write m b bs) a = load64 m a"
  by (simp add: load64_def mem_read_mem_write_disjoint)

lemma load64_store64_disjoint:
  "disjoint_ranges a 8 b 8 \<Longrightarrow> load64 (store64 m b v) a = load64 m a"
  by (simp add: store64_def load64_mem_write_disjoint)

subsection \<open>memset, memmove, memcmp\<close>

fun memset :: "memory \<Rightarrow> u64 \<Rightarrow> u8 \<Rightarrow> nat \<Rightarrow> memory" where
  "memset m dst c 0 = m"
| "memset m dst c (Suc n) = memset (m(dst := c)) (dst + 1) c n"

fun copy_fwd :: "memory \<Rightarrow> u64 \<Rightarrow> u64 \<Rightarrow> nat \<Rightarrow> memory" where
  "copy_fwd m d s 0 = m"
| "copy_fwd m d s (Suc n) = copy_fwd (m(d := m s)) (d + 1) (s + 1) n"

fun copy_bwd :: "memory \<Rightarrow> u64 \<Rightarrow> u64 \<Rightarrow> nat \<Rightarrow> memory" where
  "copy_bwd m d s 0 = m"
| "copy_bwd m d s (Suc n) = copy_bwd (m(d - 1 := m (s - 1))) (d - 1) (s - 1) n"

definition memmove :: "memory \<Rightarrow> u64 \<Rightarrow> u64 \<Rightarrow> nat \<Rightarrow> memory" where
  "memmove m dst src n =
     (if n = 0 then m
      else if src < dst \<and> src + of_nat n > dst
      then copy_bwd m (dst + of_nat n) (src + of_nat n) n
      else copy_fwd m dst src n)"

definition memcpy :: "memory \<Rightarrow> u64 \<Rightarrow> u64 \<Rightarrow> nat \<Rightarrow> memory" where
  "memcpy m dst src n = memmove m dst src n"

fun memcmp :: "(nat \<Rightarrow> u8) \<Rightarrow> (nat \<Rightarrow> u8) \<Rightarrow> nat \<Rightarrow> int" where
  "memcmp v1 v2 0 = 0"
| "memcmp v1 v2 (Suc n) =
     (if v1 0 \<noteq> v2 0 then uint (v1 0) - uint (v2 0)
      else memcmp (\<lambda>i. v1 (Suc i)) (\<lambda>i. v2 (Suc i)) n)"

lemma memset_eq:
  "n \<le> 2 ^ 64 \<Longrightarrow> memset m dst c n = mem_write m dst (replicate n c)"
  by (induction n arbitrary: m dst) (auto simp: mem_write_Cons)

lemma copy_fwd_eq:
  assumes "unat d + n \<le> 2 ^ 64" "unat s + n \<le> 2 ^ 64"
    and "unat d \<le> unat s \<or> unat s + n \<le> unat d"
  shows "copy_fwd m d s n = mem_write m d (mem_read m s n)"
  using assms
proof (induction n arbitrary: m d s)
  case 0
  then show ?case by simp
next
  case (Suc n)
  show ?case
  proof (cases "n = 0")
    case True
    then show ?thesis by (simp add: mem_read_Suc mem_write_Cons)
  next
    case False
    with Suc.prems have d1: "unat (d + 1) = Suc (unat d)" and s1: "unat (s + 1) = Suc (unat s)"
      using unat_add_of_nat [of d 1] unat_add_of_nat [of s 1] by simp_all
    have rd: "mem_read (m(d := m s)) (s + 1) n = mem_read m (s + 1) n"
      by (rule mem_read_upd_other, rule addr_outside) (use Suc.prems s1 in auto)
    have "copy_fwd (m(d := m s)) (d + 1) (s + 1) n =
        mem_write (m(d := m s)) (d + 1) (mem_read (m(d := m s)) (s + 1) n)"
      by (rule Suc.IH) (use Suc.prems d1 s1 in auto)
    then have "copy_fwd m d s (Suc n) = mem_write (m(d := m s)) (d + 1) (mem_read m (s + 1) n)"
      by (simp only: copy_fwd.simps rd)
    also have "\<dots> = mem_write m d (mem_read m s (Suc n))"
      using Suc.prems by (simp add: mem_read_Suc mem_write_Cons)
    finally show ?thesis .
  qed
qed

lemma copy_bwd_eq:
  assumes "unat d + n \<le> 2 ^ 64" "unat s + n \<le> 2 ^ 64"
    and "unat s \<le> unat d \<or> unat d + n \<le> unat s"
  shows "copy_bwd m (d + of_nat n) (s + of_nat n) n = mem_write m d (mem_read m s n)"
  using assms
proof (induction n arbitrary: m)
  case 0
  then show ?case by simp
next
  case (Suc n)
  have rd: "mem_read (m(d + of_nat n := m (s + of_nat n))) s n = mem_read m s n"
  proof (rule mem_read_upd_other, rule addr_outside)
    show "unat s + n \<le> 2 ^ 64" using Suc.prems by simp
    have "unat (d + of_nat n) = unat d + n"
      using Suc.prems by (intro unat_add_of_nat) simp
    then show "unat (d + of_nat n) < unat s \<or> unat s + n \<le> unat (d + of_nat n)"
      using Suc.prems by auto
  qed
  have "copy_bwd m (d + of_nat (Suc n)) (s + of_nat (Suc n)) (Suc n) =
      copy_bwd (m(d + of_nat n := m (s + of_nat n))) (d + of_nat n) (s + of_nat n) n"
    by (simp add: algebra_simps)
  also have "\<dots> = mem_write (m(d + of_nat n := m (s + of_nat n))) d
      (mem_read (m(d + of_nat n := m (s + of_nat n))) s n)"
    by (rule Suc.IH) (use Suc.prems in auto)
  also have "\<dots> = mem_write (m(d + of_nat n := m (s + of_nat n))) d (mem_read m s n)"
    by (simp only: rd)
  also have "\<dots> = mem_write m d (mem_read m s (Suc n))"
    using Suc.prems by (simp add: mem_read_snoc mem_write_snoc)
  finally show ?case .
qed

lemma memmove_eq:
  assumes "unat dst + n < 2 ^ 64" "unat src + n < 2 ^ 64"
  shows "memmove m dst src n = mem_write m dst (mem_read m src n)"
proof -
  have end_src: "unat (src + of_nat n) = unat src + n"
    using assms by (intro unat_add_of_nat)
  show ?thesis
    using assms copy_bwd_eq [of dst n src m] copy_fwd_eq [of dst n src m]
    by (auto simp: memmove_def word_less_nat_alt end_src)
qed

lemma memcmp_eq_0_iff: "memcmp v1 v2 n = 0 \<longleftrightarrow> (\<forall>i < n. v1 i = v2 i)"
proof (induction n arbitrary: v1 v2)
  case 0
  then show ?case by simp
next
  case (Suc n)
  have "uint (v1 0) - uint (v2 0) = 0 \<longleftrightarrow> v1 0 = v2 0" by (simp add: word_uint_eq_iff)
  then show ?case
    using Suc [of "\<lambda>i. v1 (Suc i)" "\<lambda>i. v2 (Suc i)"]
    by (auto simp: less_Suc_eq_0_disj)
qed

subsection \<open>strncmp, strncpy, safestrcpy, strlen\<close>

fun strncmp :: "(nat \<Rightarrow> u8) \<Rightarrow> (nat \<Rightarrow> u8) \<Rightarrow> nat \<Rightarrow> int" where
  "strncmp p q 0 = 0"
| "strncmp p q (Suc n) =
     (if p 0 \<noteq> 0 \<and> p 0 = q 0 then strncmp (\<lambda>i. p (Suc i)) (\<lambda>i. q (Suc i)) n
      else uint (p 0) - uint (q 0))"

text \<open>The bytes the two loops of \<open>strncpy\<close> store from \<open>s\<close> on.\<close>

fun strncpy :: "(nat \<Rightarrow> u8) \<Rightarrow> nat \<Rightarrow> u8 list" where
  "strncpy t 0 = []"
| "strncpy t (Suc n) =
     (if t 0 \<noteq> 0 then t 0 # strncpy (\<lambda>i. t (Suc i)) n else 0 # replicate n 0)"

text \<open>
  The bytes \<open>safestrcpy\<close> stores from \<open>s\<close> on: the loop copies while \<open>--n > 0\<close>, and the
  assignment after it stores a NUL at the place the loop stopped.
\<close>

fun safestrcpy_loop :: "(nat \<Rightarrow> u8) \<Rightarrow> nat \<Rightarrow> u8 list" where
  "safestrcpy_loop t 0 = [0]"
| "safestrcpy_loop t (Suc n) =
     (if t 0 \<noteq> 0 then t 0 # safestrcpy_loop (\<lambda>i. t (Suc i)) n else [t 0, 0])"

definition safestrcpy :: "(nat \<Rightarrow> u8) \<Rightarrow> int \<Rightarrow> u8 list" where
  "safestrcpy t n = (if n \<le> 0 then [] else safestrcpy_loop t (nat (n - 1)))"

partial_function (option) strlen_from :: "(nat \<Rightarrow> u8) \<Rightarrow> nat \<Rightarrow> nat option" where
  "strlen_from s n = (if s n = 0 then Some n else strlen_from s (Suc n))"

definition strlen :: "(nat \<Rightarrow> u8) \<Rightarrow> nat option" where
  "strlen s = strlen_from s 0"

text \<open>The C string seen from a pointer, cut at the bound: what \<open>strncmp\<close> compares.\<close>

fun cstr :: "(nat \<Rightarrow> u8) \<Rightarrow> nat \<Rightarrow> u8 list" where
  "cstr p 0 = []"
| "cstr p (Suc n) = (if p 0 = 0 then [] else p 0 # cstr (\<lambda>i. p (Suc i)) n)"

lemma strncmp_eq_0_iff: "strncmp p q n = 0 \<longleftrightarrow> cstr p n = cstr q n"
proof (induction n arbitrary: p q)
  case 0
  then show ?case by simp
next
  case (Suc n)
  have "uint (p 0) - uint (q 0) = 0 \<longleftrightarrow> p 0 = q 0" by (simp add: word_uint_eq_iff)
  then show ?case
    using Suc [of "\<lambda>i. p (Suc i)" "\<lambda>i. q (Suc i)"] by auto
qed

lemma length_strncpy [simp]: "length (strncpy t n) = n"
  by (induction n arbitrary: t) auto

lemma lview_Cons_Suc: "(\<lambda>i. lview (x # xs) (Suc i)) = lview xs"
  by (rule ext) (simp add: lview_def)

lemma lview_Cons_0 [simp]: "lview (x # xs) 0 = x"
  by (simp add: lview_def)

lemma lview_replicate_0: "lview (replicate n 0) = (\<lambda>_. 0)"
  by (rule ext) (simp add: lview_def)

lemma cstr_strncpy: "cstr (lview (strncpy t n)) n = cstr t n"
proof (induction n arbitrary: t)
  case 0
  then show ?case by simp
next
  case (Suc n)
  show ?case
    using Suc [of "\<lambda>i. t (Suc i)"] by (simp add: lview_Cons_Suc)
qed

lemma length_safestrcpy_loop: "length (safestrcpy_loop t n) \<le> Suc n"
  by (induction n arbitrary: t) auto

lemma last_safestrcpy_loop: "safestrcpy_loop t n \<noteq> [] \<and> last (safestrcpy_loop t n) = 0"
  by (induction n arbitrary: t) auto

lemma cstr_safestrcpy_loop: "cstr (lview (safestrcpy_loop t n)) (Suc n) = cstr t n"
proof (induction n arbitrary: t)
  case 0
  then show ?case by (simp add: lview_def)
next
  case (Suc n)
  show ?case
    using Suc [of "\<lambda>i. t (Suc i)"] by (simp add: lview_Cons_Suc)
qed

lemma strlen_from_Some:
  "n \<le> k \<Longrightarrow> s k = 0 \<Longrightarrow> (\<And>i. n \<le> i \<Longrightarrow> i < k \<Longrightarrow> s i \<noteq> 0) \<Longrightarrow> strlen_from s n = Some k"
proof (induction "k - n" arbitrary: n)
  case 0
  then show ?case by (subst strlen_from.simps) simp
next
  case (Suc d)
  then have "strlen_from s (Suc n) = Some k" by (intro Suc.hyps(1)) auto
  moreover have "s n \<noteq> 0" using Suc.prems Suc.hyps(2) by simp
  ultimately show ?case by (subst strlen_from.simps) simp
qed

lemma strlen_Some:
  "s k = 0 \<Longrightarrow> (\<And>i. i < k \<Longrightarrow> s i \<noteq> 0) \<Longrightarrow> strlen s = Some k"
  unfolding strlen_def by (rule strlen_from_Some) auto

subsection \<open>Properties\<close>

text \<open>
  C25. \<open>memmove\<close> copies correctly for overlapping ranges in either direction: the destination
  receives what the source held before the call, and no byte outside the destination changes.
\<close>

theorem memmove_copies:
  assumes "unat dst + n < 2 ^ 64" "unat src + n < 2 ^ 64"
  shows "memmove m dst src n = mem_write m dst (mem_read m src n) \<and>
    mem_read (memmove m dst src n) dst n = mem_read m src n"
  using memmove_eq [OF assms] assms by (simp_all add: mem_read_mem_write_same)

theorem memmove_copies_witness:
  "mem_read (memmove (\<lambda>a. ucast a) 102 100 5) 102 5 = mem_read (\<lambda>a. ucast (a :: u64)) 100 5"
  using memmove_copies [of 102 5 100 "\<lambda>a. ucast a"] by simp

text \<open>
  C26. \<open>safestrcpy\<close> with a positive size stores at most that many bytes, always ends them with a
  NUL, and what it stores reads back as the source string cut to one byte less than the size.
\<close>

theorem safestrcpy_terminates_string:
  assumes "0 < n"
  shows "length (safestrcpy t n) \<le> nat n \<and> safestrcpy t n \<noteq> [] \<and> last (safestrcpy t n) = 0 \<and>
    cstr (lview (safestrcpy t n)) (nat n) = cstr t (nat n - 1)"
proof -
  obtain k where k: "nat n = Suc k" "nat (n - 1) = k"
    using assms that [of "nat (n - 1)"] by (simp add: Suc_nat_eq_nat_zadd1)
  show ?thesis
    using assms cstr_safestrcpy_loop [of t k] length_safestrcpy_loop [of t k]
      last_safestrcpy_loop [of t k]
    by (auto simp: safestrcpy_def k)
qed

theorem safestrcpy_terminates_string_witness:
  "(\<lambda>r. length r \<le> 4 \<and> r \<noteq> [] \<and> last r = 0 \<and> cstr (lview r) 4 = cstr (lview [104, 101, 108, 108, 111, 0]) 3)
     (safestrcpy (lview [104, 101, 108, 108, 111, 0]) 4)"
  using safestrcpy_terminates_string [of 4 "lview [104, 101, 108, 108, 111, 0]"] by simp

end
