(* ===== verification/Spinlock.thy ===== *)
theory Spinlock
  imports Kernel_Prelude
begin

text \<open>
  \<open>kernel/spinlock.c\<close>: spin locks and the matched disabling of interrupts, over the part of the
  machine state they use: the running hart (the \<open>tp\<close> register), the interrupt-enable bit
  \<open>SSTATUS_SIE\<close> of each hart, the per-CPU records of \<open>proc.h\<close> and all spin locks of the kernel.
  \<open>acquire\<close> on a lock that another hart holds never returns by itself: its outcome is \<open>Spin\<close>.

  The second half is the machine of several harts: the atomic steps of \<open>acquire\<close> and \<open>release\<close>
  on one lock, interleaved in any order, with mutual exclusion as an invariant of every
  reachable state.
\<close>

subsection \<open>State\<close>

text \<open>
  The spin locks of the kernel; \<open>LkBuf\<close> and \<open>LkInode\<close> are the ones inside sleep locks. The field
  \<open>patience\<close> of the machine is no variable of the kernel: it bounds how often a loop that waits
  for a condition may be resumed and find it false again. It is arbitrary and never changes.
\<close>

datatype lockid =
    LkKmem | LkPid | LkWait | LkProc nat | LkTicks | LkCons | LkUartTx | LkPr
  | LkBcache | LkLog | LkItable | LkFtable | LkVdisk | LkBuf nat | LkInode nat | LkPipe u64

record spinlock =
  sl_locked :: bool
  sl_name :: string
  sl_cpu :: "nat option"

record cpu =
  c_proc :: "nat option"
  c_noff :: int
  c_intena :: bool

record mach =
  patience :: nat
  hart :: nat
  sie :: "nat \<Rightarrow> bool"
  cpus :: "nat \<Rightarrow> cpu"
  splk :: "lockid \<Rightarrow> spinlock"

subsection \<open>Interrupt state and the running CPU\<close>

definition intr_on :: "('z mach_scheme, unit) kmon" where
  "intr_on = modify (\<lambda>s. s\<lparr>sie := (sie s)(hart s := True)\<rparr>)"

definition intr_off :: "('z mach_scheme, unit) kmon" where
  "intr_off = modify (\<lambda>s. s\<lparr>sie := (sie s)(hart s := False)\<rparr>)"

definition intr_get :: "('z mach_scheme, bool) kmon" where
  "intr_get = gets (\<lambda>s. sie s (hart s))"

definition cpuid :: "'z mach_scheme \<Rightarrow> nat" where
  "cpuid s = hart s"

definition mycpu :: "'z mach_scheme \<Rightarrow> cpu" where
  "mycpu s = cpus s (cpuid s)"

definition mycpu_upd :: "(cpu \<Rightarrow> cpu) \<Rightarrow> 'z mach_scheme \<Rightarrow> 'z mach_scheme" where
  "mycpu_upd f s = s\<lparr>cpus := (cpus s)(cpuid s := f (mycpu s))\<rparr>"

definition push_off :: "('z mach_scheme, unit) kmon" where
  "push_off =
     bnd intr_get (\<lambda>old.
     thn intr_off (
     thn (modify (\<lambda>s. if c_noff (mycpu s) = 0
                      then mycpu_upd (\<lambda>c. c\<lparr>c_intena := old\<rparr>) s else s))
         (modify (mycpu_upd (\<lambda>c. c\<lparr>c_noff := c_noff c + 1\<rparr>)))))"

definition pop_off :: "('z mach_scheme, unit) kmon" where
  "pop_off =
     bnd intr_get (\<lambda>on.
     if on then panic ''pop_off - interruptible'' else
     bnd (gets (\<lambda>s. c_noff (mycpu s))) (\<lambda>n.
     if n < 1 then panic ''pop_off'' else
     thn (modify (mycpu_upd (\<lambda>c. c\<lparr>c_noff := c_noff c - 1\<rparr>)))
         (bnd (gets mycpu) (\<lambda>c. whenM (c_noff c = 0 \<and> c_intena c) intr_on))))"

subsection \<open>Spin locks\<close>

definition initlock :: "lockid \<Rightarrow> string \<Rightarrow> ('z mach_scheme, unit) kmon" where
  "initlock lk nm = modify (\<lambda>s. s\<lparr>splk := (splk s)(lk :=
     \<lparr>sl_locked = False, sl_name = nm, sl_cpu = None\<rparr>)\<rparr>)"

definition holding :: "lockid \<Rightarrow> 'z mach_scheme \<Rightarrow> bool" where
  "holding lk s = (sl_locked (splk s lk) \<and> sl_cpu (splk s lk) = Some (cpuid s))"

definition acquire :: "lockid \<Rightarrow> ('z mach_scheme, unit) kmon" where
  "acquire lk =
     thn push_off (
     bnd (gets (holding lk)) (\<lambda>h.
     if h then panic ''acquire'' else
     bnd (gets (\<lambda>s. sl_locked (splk s lk))) (\<lambda>old.
     if old then spin else
     modify (\<lambda>s. s\<lparr>splk := (splk s)(lk :=
       (splk s lk)\<lparr>sl_locked := True, sl_cpu := Some (cpuid s)\<rparr>)\<rparr>))))"

definition release :: "lockid \<Rightarrow> ('z mach_scheme, unit) kmon" where
  "release lk =
     bnd (gets (holding lk)) (\<lambda>h.
     if \<not> h then panic ''release'' else
     thn (modify (\<lambda>s. s\<lparr>splk := (splk s)(lk :=
            (splk s lk)\<lparr>sl_cpu := None, sl_locked := False\<rparr>)\<rparr>))
         pop_off)"

subsection \<open>Matched use\<close>

lemmas mach_defs = intr_on_def intr_off_def intr_get_def cpuid_def mycpu_def mycpu_upd_def

definition cpu_ok :: "'z mach_scheme \<Rightarrow> bool" where
  "cpu_ok s \<longleftrightarrow> 0 \<le> c_noff (mycpu s) \<and> (0 < c_noff (mycpu s) \<longrightarrow> \<not> sie s (hart s))"

definition cpu_quiet :: "'z mach_scheme \<Rightarrow> bool" where
  "cpu_quiet s \<longleftrightarrow> 0 \<le> c_noff (mycpu s) \<and>
     (if c_noff (mycpu s) = 0 then c_intena (mycpu s) = sie s (hart s) else \<not> sie s (hart s))"

definition lk_free :: "lockid \<Rightarrow> 'z mach_scheme \<Rightarrow> bool" where
  "lk_free lk s \<longleftrightarrow> \<not> sl_locked (splk s lk) \<and> sl_cpu (splk s lk) = None"

definition acquired :: "lockid \<Rightarrow> 'z mach_scheme \<Rightarrow> 'z mach_scheme" where
  "acquired lk s = s\<lparr>
     sie := (sie s)(hart s := False),
     cpus := (cpus s)(hart s := (cpus s (hart s))\<lparr>c_noff := c_noff (cpus s (hart s)) + 1\<rparr>),
     splk := (splk s)(lk := (splk s lk)\<lparr>sl_locked := True, sl_cpu := Some (hart s)\<rparr>)\<rparr>"

lemma cpu_noff_upd_idem:
  "c_intena c = b \<Longrightarrow> c\<lparr>c_intena := b, c_noff := n\<rparr> = c\<lparr>c_noff := n\<rparr>"
  by (cases c) simp

lemma push_off_quiet:
  assumes "cpu_quiet s"
  shows "push_off s = Done () (s\<lparr>sie := (sie s)(hart s := False),
     cpus := (cpus s)(hart s := (cpus s (hart s))\<lparr>c_noff := c_noff (cpus s (hart s)) + 1\<rparr>)\<rparr>)"
  using assms
  by (auto simp: push_off_def mach_defs kmon_simps cpu_quiet_def cpu_noff_upd_idem split: if_splits)

lemma acquire_quiet:
  assumes "cpu_quiet s" "lk_free lk s"
  shows "acquire lk s = Done () (acquired lk s)"
  using assms
  by (simp add: acquire_def kmon_simps push_off_quiet bnd_run holding_def lk_free_def acquired_def
      mach_defs)

named_theorems lock_simps \<open>running \<open>acquire\<close> and \<open>release\<close> on a quiet CPU\<close>

lemmas [lock_simps] = acquire_quiet

lemma release_acquired [lock_simps]:
  assumes "cpu_quiet s" "lk_free lk s"
  shows "release lk (acquired lk s) = Done () s"
proof -
  have lk: "(splk s lk)\<lparr>sl_cpu := None, sl_locked := False\<rparr> = splk s lk"
    using assms(2) by (cases "splk s lk") (simp add: lk_free_def)
  show ?thesis
    using assms(1)
    by (auto simp: release_def holding_def pop_off_def kmon_simps mach_defs acquired_def
        cpu_quiet_def lk fun_upd_idem split: if_splits)
qed

lemma acquired_commute: "lk \<noteq> lk' \<Longrightarrow> acquired lk (acquired lk' s) = acquired lk' (acquired lk s)"
  by (simp add: acquired_def fun_upd_twist)

lemma cpu_quiet_acquired [lock_simps]: "cpu_quiet s \<Longrightarrow> cpu_quiet (acquired lk s)"
  by (auto simp: cpu_quiet_def acquired_def mach_defs split: if_splits)

lemma lk_free_acquired [lock_simps]: "lk_free lk (acquired lk' s) \<longleftrightarrow> lk \<noteq> lk' \<and> lk_free lk s"
  by (auto simp: lk_free_def acquired_def)

lemma holding_acquired [lock_simps]: "lk_free lk' s \<Longrightarrow>
    holding lk (acquired lk' s) \<longleftrightarrow> lk = lk' \<or> holding lk s"
  by (auto simp: holding_def acquired_def mach_defs lk_free_def)

lemma hart_acquired [simp]: "hart (acquired lk s) = hart s"
  by (simp add: acquired_def)

lemma release_acquired_under [lock_simps]:
  assumes "cpu_quiet s" "lk_free lk s" "lk \<noteq> lk'" "lk_free lk' s"
  shows "release lk (acquired lk' (acquired lk s)) = Done () (acquired lk' s)"
  using release_acquired [of "acquired lk' s" lk] assms
  by (simp add: acquired_commute [of lk' lk] lock_simps)

text \<open>What \<open>acquire\<close> and \<open>release\<close> can change, in any state: only the machine part.\<close>

lemma push_off_Done: "push_off s = Done () t \<Longrightarrow> s\<lparr>sie := sie t, cpus := cpus t\<rparr> = t"
  by (auto simp: push_off_def kmon_simps mach_defs)

lemma acquire_Done:
  assumes "acquire lk s = Done () t"
  shows "s\<lparr>sie := sie t, cpus := cpus t, splk := splk t\<rparr> = t"
proof -
  from assms obtain u where u: "push_off s = Done () u" and t: "u\<lparr>splk := splk t\<rparr> = t"
    by (auto simp: acquire_def kmon_simps bnd_Done_iff split: if_splits)
  then have su: "s\<lparr>sie := sie u, cpus := cpus u\<rparr> = u" by (blast dest: push_off_Done)
  have "sie t = sie u" "cpus t = cpus u" by (subst t [symmetric], simp)+
  then show ?thesis by (simp only: su t)
qed

lemma release_Done:
  assumes "release lk s = Done () t"
  shows "s\<lparr>sie := sie t, cpus := cpus t, splk := splk t\<rparr> = t"
  using assms
  by (auto simp: release_def pop_off_def kmon_simps mach_defs split: if_splits)

subsection \<open>push_off and pop_off nest\<close>

text \<open>A sequence of matched \<open>push_off\<close> (\<open>True\<close>) and \<open>pop_off\<close> (\<open>False\<close>) calls.\<close>

inductive balanced :: "bool list \<Rightarrow> bool" where
  bal_nil: "balanced []"
| bal_seq: "balanced u \<Longrightarrow> balanced v \<Longrightarrow> balanced (True # u @ False # v)"

fun run_off :: "bool list \<Rightarrow> ('z mach_scheme, unit) kmon" where
  "run_off [] = ret ()"
| "run_off (b # bs) = thn (if b then push_off else pop_off) (run_off bs)"

lemma run_off_append: "run_off (u @ v) s = thn (run_off u) (run_off v) s"
  for s :: "'z mach_scheme"
proof (induction u arbitrary: s)
  case Nil
  then show ?case by (simp add: kmon_simps)
next
  case (Cons b u)
  have eq: "(run_off (u @ v) :: ('z mach_scheme, unit) kmon) = thn (run_off u) (run_off v)"
    by (rule ext) (rule Cons)
  show ?case by (simp add: eq thn_def kmon_simps)
qed

text \<open>The CPU after a matched sequence: only the saved flag of the outermost level may differ.\<close>

definition settle :: "'z mach_scheme \<Rightarrow> 'z mach_scheme" where
  "settle s = (if c_noff (mycpu s) = 0
     then mycpu_upd (\<lambda>c. c\<lparr>c_intena := sie s (hart s)\<rparr>) s else s)"

lemma settle_idem [simp]: "settle (settle s) = settle s"
  by (simp add: settle_def mach_defs)

lemma cpu_quiet_settle: "cpu_ok s \<Longrightarrow> cpu_quiet (settle s)"
  by (auto simp: cpu_quiet_def cpu_ok_def settle_def mach_defs)

lemma push_off_settle: "push_off s = push_off (settle s)"
  by (simp add: push_off_def kmon_simps settle_def mach_defs)

lemma pop_push_quiet:
  assumes "cpu_quiet s" "push_off s = Done () t"
  shows "pop_off t = Done () s \<and> settle t = t \<and> cpu_ok t"
proof -
  have t: "t = s\<lparr>sie := (sie s)(hart s := False),
     cpus := (cpus s)(hart s := (cpus s (hart s))\<lparr>c_noff := c_noff (cpus s (hart s)) + 1\<rparr>)\<rparr>"
    using assms by (simp add: push_off_quiet)
  have "pop_off t = Done () s"
    using assms(1) unfolding t
    by (auto simp: pop_off_def kmon_simps mach_defs cpu_quiet_def fun_upd_idem split: if_splits)
  moreover have "settle t = t \<and> cpu_ok t"
    using assms(1) unfolding t by (auto simp: settle_def cpu_ok_def mach_defs cpu_quiet_def)
  ultimately show ?thesis by simp
qed

lemma run_off_balanced:
  "balanced w \<Longrightarrow> cpu_ok s \<Longrightarrow> run_off w s = Done () (if w = [] then s else settle s)"
proof (induction w arbitrary: s rule: balanced.induct)
  case bal_nil
  then show ?case by (simp add: ret_def)
next
  case (bal_seq u v)
  obtain t where t: "push_off (settle s) = Done () t"
    using cpu_quiet_settle [OF bal_seq.prems] by (auto simp: push_off_quiet)
  have st: "pop_off t = Done () (settle s)" "settle t = t" "cpu_ok t"
    using pop_push_quiet [OF cpu_quiet_settle [OF bal_seq.prems] t] by auto
  have ok: "cpu_ok (settle s)"
    using bal_seq.prems by (auto simp: cpu_ok_def settle_def mach_defs)
  have "run_off u t = Done () t"
    using bal_seq.IH(1) [OF st(3)] st(2) by (simp split: if_splits)
  then show ?case
    using bal_seq.IH(2) [OF ok] t st(1)
    by (simp add: run_off_append kmon_simps push_off_settle [of s] bnd_run)
qed

subsection \<open>Several harts on one lock\<close>

text \<open>
  Each hart is outside, past the \<open>holding\<close> check and spinning, has won the test-and-set, has
  recorded itself in \<open>lk->cpu\<close> (the critical section), or has cleared \<open>lk->cpu\<close> and not yet
  released. One rule per atomic access of \<open>acquire\<close> and \<open>release\<close> to the lock word.
\<close>

datatype lpc = Outside | Spinning | Taken | Inside | Leaving

record mx =
  mx_lock :: spinlock
  mx_pc :: "nat \<Rightarrow> lpc"

definition mx_holding :: "nat \<Rightarrow> mx \<Rightarrow> bool" where
  "mx_holding h s = (sl_locked (mx_lock s) \<and> sl_cpu (mx_lock s) = Some h)"

inductive mx_step :: "mx \<Rightarrow> mx \<Rightarrow> bool" where
  mx_check: "mx_pc s h = Outside \<Longrightarrow> \<not> mx_holding h s \<Longrightarrow>
     mx_step s (s\<lparr>mx_pc := (mx_pc s)(h := Spinning)\<rparr>)"
| mx_fail: "mx_pc s h = Spinning \<Longrightarrow> sl_locked (mx_lock s) \<Longrightarrow> mx_step s s"
| mx_tas: "mx_pc s h = Spinning \<Longrightarrow> \<not> sl_locked (mx_lock s) \<Longrightarrow>
     mx_step s (s\<lparr>mx_lock := (mx_lock s)\<lparr>sl_locked := True\<rparr>, mx_pc := (mx_pc s)(h := Taken)\<rparr>)"
| mx_own: "mx_pc s h = Taken \<Longrightarrow>
     mx_step s (s\<lparr>mx_lock := (mx_lock s)\<lparr>sl_cpu := Some h\<rparr>, mx_pc := (mx_pc s)(h := Inside)\<rparr>)"
| mx_disown: "mx_pc s h = Inside \<Longrightarrow> mx_holding h s \<Longrightarrow>
     mx_step s (s\<lparr>mx_lock := (mx_lock s)\<lparr>sl_cpu := None\<rparr>, mx_pc := (mx_pc s)(h := Leaving)\<rparr>)"
| mx_unlock: "mx_pc s h = Leaving \<Longrightarrow>
     mx_step s (s\<lparr>mx_lock := (mx_lock s)\<lparr>sl_locked := False\<rparr>, mx_pc := (mx_pc s)(h := Outside)\<rparr>)"

definition mx_init :: "string \<Rightarrow> mx" where
  "mx_init nm = \<lparr>mx_lock = \<lparr>sl_locked = False, sl_name = nm, sl_cpu = None\<rparr>,
     mx_pc = (\<lambda>_. Outside)\<rparr>"

inductive mx_reach :: "string \<Rightarrow> mx \<Rightarrow> bool" for nm where
  mx_start: "mx_reach nm (mx_init nm)"
| mx_next: "mx_reach nm s \<Longrightarrow> mx_step s t \<Longrightarrow> mx_reach nm t"

fun mx_owner :: "lpc \<Rightarrow> bool" where
  "mx_owner Outside = False"
| "mx_owner Spinning = False"
| "mx_owner Taken = True"
| "mx_owner Inside = True"
| "mx_owner Leaving = True"

definition mx_inv :: "mx \<Rightarrow> bool" where
  "mx_inv s \<longleftrightarrow>
     (\<exists>own. (sl_locked (mx_lock s) \<longleftrightarrow> own \<noteq> None) \<and>
            (\<forall>h. mx_owner (mx_pc s h) \<longleftrightarrow> own = Some h)) \<and>
     (\<forall>h. sl_cpu (mx_lock s) = Some h \<longleftrightarrow> mx_pc s h = Inside)"

lemma mx_invI:
  assumes "sl_locked (mx_lock s) \<longleftrightarrow> own \<noteq> None"
    and "\<And>h. mx_owner (mx_pc s h) \<longleftrightarrow> own = Some h"
    and "\<And>h. sl_cpu (mx_lock s) = Some h \<longleftrightarrow> mx_pc s h = Inside"
  shows "mx_inv s"
  using assms unfolding mx_inv_def by blast

lemma mx_step_inv:
  assumes "mx_step s t" "mx_inv s"
  shows "mx_inv t"
proof -
  from assms(2) obtain own where own: "sl_locked (mx_lock s) \<longleftrightarrow> own \<noteq> None"
      "\<And>h. mx_owner (mx_pc s h) \<longleftrightarrow> own = Some h"
    and cpu: "\<And>h. sl_cpu (mx_lock s) = Some h \<longleftrightarrow> mx_pc s h = Inside"
    unfolding mx_inv_def by blast
  have at: "mx_owner (mx_pc s h) = (own = Some h)"
      "(sl_cpu (mx_lock s) = Some h) = (mx_pc s h = Inside)" for h
    using own(2) cpu by blast+
  have i: "own = Some h" if "mx_pc s h = Inside" for h
    using at(1) [of h] that by simp
  from assms(1) show ?thesis
  proof cases
    case (mx_check h)
    with at(1) [of h] show ?thesis
      by (intro mx_invI [of _ own]) (simp_all add: own(1) at)
  next
    case (mx_fail h)
    with assms(2) show ?thesis by simp
  next
    case (mx_tas h)
    with own(1) have "own = None" by simp
    with mx_tas at i show ?thesis
      by (intro mx_invI [of _ "Some h"]) (auto simp: at)
  next
    case (mx_own h)
    with at(1) [of h] i show ?thesis
      by (intro mx_invI [of _ own]) (auto simp: own(1) at)
  next
    case (mx_disown h)
    with at(1) [of h] i show ?thesis
      by (intro mx_invI [of _ own]) (auto simp: own(1) at)
  next
    case (mx_unlock h)
    with at(1) [of h] i show ?thesis
      by (intro mx_invI [of _ None]) (auto simp: at)
  qed
qed

lemma mx_reach_inv: "mx_reach nm s \<Longrightarrow> mx_inv s"
proof (induction rule: mx_reach.induct)
  case mx_start
  show ?case by (rule mx_invI [of _ None]) (simp_all add: mx_init_def)
next
  case (mx_next s t)
  then show ?case by (blast intro: mx_step_inv)
qed

subsection \<open>Properties\<close>

text \<open>
  C20. At most one hart is between winning the test-and-set of \<open>acquire\<close> and the store of
  \<open>release\<close>, in every state that any interleaving of the harts can reach.
\<close>

theorem spinlock_mutual_exclusion:
  assumes "mx_reach nm s" "mx_owner (mx_pc s h)" "mx_owner (mx_pc s k)"
  shows "h = k"
proof -
  obtain own where "\<forall>h. mx_owner (mx_pc s h) \<longleftrightarrow> own = Some h"
    using mx_reach_inv [OF assms(1)] unfolding mx_inv_def by blast
  then have "own = Some h" "own = Some k" using assms(2,3) by blast+
  then show ?thesis by simp
qed

theorem spinlock_mutual_exclusion_witness:
  "(\<lambda>s. mx_reach ''kmem'' s \<and> mx_pc s 0 = Inside \<and> mx_pc s 1 = Spinning \<and> \<not> mx_owner (mx_pc s 2))
     \<lparr>mx_lock = \<lparr>sl_locked = True, sl_name = ''kmem'', sl_cpu = Some 0\<rparr>,
      mx_pc = ((\<lambda>_. Outside)(0 := Inside, 1 := Spinning))\<rparr>"
proof -
  define s1 where "s1 = (mx_init ''kmem'')\<lparr>mx_pc := (mx_pc (mx_init ''kmem''))(0 := Spinning)\<rparr>"
  define s2 where "s2 = s1\<lparr>mx_pc := (mx_pc s1)(1 := Spinning)\<rparr>"
  define s3 where "s3 = s2\<lparr>mx_lock := (mx_lock s2)\<lparr>sl_locked := True\<rparr>, mx_pc := (mx_pc s2)(0 := Taken)\<rparr>"
  define s4 where "s4 = s3\<lparr>mx_lock := (mx_lock s3)\<lparr>sl_cpu := Some 0\<rparr>, mx_pc := (mx_pc s3)(0 := Inside)\<rparr>"
  note defs = s1_def s2_def s3_def s4_def mx_init_def mx_holding_def
  have st1: "mx_step (mx_init ''kmem'') s1"
    unfolding s1_def by (rule mx_check) (simp_all add: defs)
  have st2: "mx_step s1 s2" unfolding s2_def by (rule mx_check) (simp_all add: defs)
  have st3: "mx_step s2 s3" unfolding s3_def by (rule mx_tas) (simp_all add: defs)
  have st4: "mx_step s3 s4" unfolding s4_def by (rule mx_own) (simp_all add: defs)
  have r: "mx_reach ''kmem'' s4"
    by (rule mx_next [OF mx_next [OF mx_next [OF mx_next [OF mx_start st1] st2] st3] st4])
  have eq: "s4 = \<lparr>mx_lock = \<lparr>sl_locked = True, sl_name = ''kmem'', sl_cpu = Some 0\<rparr>,
      mx_pc = ((\<lambda>_. Outside)(0 := Inside, 1 := Spinning))\<rparr>"
    by (simp add: defs fun_upd_twist)
  have "\<not> mx_owner (mx_pc s4 2)"
    using spinlock_mutual_exclusion [OF r, of 0 2] by (auto simp: defs)
  with r show ?thesis unfolding eq by simp
qed

text \<open>
  C24. Matched \<open>push_off\<close> and \<open>pop_off\<close> calls, however they nest, never panic and give back the
  interrupt flag, the nesting depth and the rest of the machine; only the saved flag of an
  idle CPU is refreshed. The depth is a C int, so it is assumed to stay within the range of one.
\<close>

theorem push_pop_off_nest:
  assumes "balanced w" "w \<noteq> []" "0 \<le> c_noff (mycpu s)" "c_noff (mycpu s) + int (length w) < 2 ^ 31"
    and "0 < c_noff (mycpu s) \<Longrightarrow> \<not> sie s (hart s)"
  shows "run_off w s = Done () (if c_noff (mycpu s) = 0
    then mycpu_upd (\<lambda>c. c\<lparr>c_intena := sie s (hart s)\<rparr>) s else s)"
  using run_off_balanced [OF assms(1), of s] assms(2-) by (simp add: settle_def cpu_ok_def)

definition reset_cpu :: mach where
  "reset_cpu = \<lparr>patience = 0, hart = 0, sie = (\<lambda>_. True),
     cpus = (\<lambda>_. \<lparr>c_proc = None, c_noff = 0, c_intena = False\<rparr>),
     splk = (\<lambda>_. \<lparr>sl_locked = False, sl_name = [], sl_cpu = None\<rparr>)\<rparr>"

theorem push_pop_off_nest_witness:
  "run_off [True, True, False, False] reset_cpu
   = Done () (mycpu_upd (\<lambda>c. c\<lparr>c_intena := True\<rparr>) reset_cpu)"
proof -
  have "balanced [True, True, False, False]"
    using bal_seq [OF bal_seq [OF bal_nil bal_nil] bal_nil] by simp
  from push_pop_off_nest [OF this, of reset_cpu] show ?thesis
    by (simp add: mach_defs reset_cpu_def)
qed

end
