(* ===== verification/Kalloc.thy ===== *)
theory Kalloc
  imports Kernel_String Kernel_Params Spinlock
begin

text \<open>
  \<open>kernel/kalloc.c\<close>: the physical page allocator. The state adds the byte-addressed kernel
  memory, the head of the free list and the linker symbol \<open>end\<close>. The list is threaded through
  the free pages themselves, as in the code: the first eight bytes of a free page hold the
  address of the next one (\<open>struct run\<close>). The lemmas relate it to the sequence of free pages.
\<close>

subsection \<open>State\<close>

record kmst = mach +
  mem :: memory
  freelist :: u64
  k_end :: u64

lemma kmst_frame [simp]:
  "cpu_quiet (mem_update f s) = cpu_quiet s" "cpu_quiet (freelist_update g s) = cpu_quiet s"
  "lk_free lk (mem_update f s) = lk_free lk s" "lk_free lk (freelist_update g s) = lk_free lk s"
  "mem (acquired lk s) = mem s" "freelist (acquired lk s) = freelist s"
  "k_end (acquired lk s) = k_end s"
  "mem_update f (acquired lk s) = acquired lk (mem_update f s)"
  "freelist_update g (acquired lk s) = acquired lk (freelist_update g s)"
  by (simp_all add: cpu_quiet_def lk_free_def acquired_def mach_defs)

subsection \<open>Operations\<close>

definition kfree :: "u64 \<Rightarrow> ('z kmst_scheme, unit) kmon" where
  "kfree pa =
     bnd (gets k_end) (\<lambda>e.
     if pa mod PGSIZE \<noteq> 0 \<or> pa < e \<or> pa \<ge> PHYSTOP then panic ''kfree'' else
     thn (modify (\<lambda>s. s\<lparr>mem := memset (mem s) pa 1 (unat PGSIZE)\<rparr>)) (
     thn (acquire LkKmem) (
     thn (modify (\<lambda>s. s\<lparr>mem := store64 (mem s) pa (freelist s)\<rparr>)) (
     thn (modify (\<lambda>s. s\<lparr>freelist := pa\<rparr>))
         (release LkKmem)))))"

definition kalloc :: "('z kmst_scheme, u64) kmon" where
  "kalloc =
     thn (acquire LkKmem) (
     bnd (gets freelist) (\<lambda>r.
     thn (whenM (r \<noteq> 0) (modify (\<lambda>s. s\<lparr>freelist := load64 (mem s) r\<rparr>))) (
     thn (release LkKmem) (
     thn (whenM (r \<noteq> 0) (modify (\<lambda>s. s\<lparr>mem := memset (mem s) r 5 (unat PGSIZE)\<rparr>)))
         (ret r)))))"

text \<open>
  The loop of \<open>freerange\<close>. The fuel bounds the number of pages; \<open>freerange_enough\<close> below shows
  that the bound used by \<open>freerange\<close> is never the reason the loop stops.
\<close>

fun freerange_loop :: "nat \<Rightarrow> u64 \<Rightarrow> u64 \<Rightarrow> ('z kmst_scheme, unit) kmon" where
  "freerange_loop 0 p pa_end = fault"
| "freerange_loop (Suc n) p pa_end =
     (if p + PGSIZE \<le> pa_end then thn (kfree p) (freerange_loop n (p + PGSIZE) pa_end)
      else ret ())"

definition freerange :: "u64 \<Rightarrow> u64 \<Rightarrow> ('z kmst_scheme, unit) kmon" where
  "freerange pa_start pa_end =
     freerange_loop (Suc (unat pa_end div 4096)) (PGROUNDUP pa_start) pa_end"

definition kinit :: "('z kmst_scheme, unit) kmon" where
  "kinit =
     thn (initlock LkKmem ''kmem'') (
     bnd (gets k_end) (\<lambda>e. freerange e PHYSTOP))"

subsection \<open>The free list as a sequence of pages\<close>

definition page_ok :: "u64 \<Rightarrow> u64 \<Rightarrow> bool" where
  "page_ok e p \<longleftrightarrow> p mod PGSIZE = 0 \<and> e \<le> p \<and> p < PHYSTOP"

fun flist :: "memory \<Rightarrow> u64 \<Rightarrow> u64 list \<Rightarrow> bool" where
  "flist m r [] \<longleftrightarrow> r = 0"
| "flist m r (p # ps) \<longleftrightarrow> r = p \<and> p \<noteq> 0 \<and> flist m (load64 m p) ps"

definition kmem_inv :: "'z kmst_scheme \<Rightarrow> u64 list \<Rightarrow> bool" where
  "kmem_inv s ps \<longleftrightarrow> 0 < k_end s \<and> flist (mem s) (freelist s) ps \<and> distinct ps \<and>
     (\<forall>p \<in> set ps. page_ok (k_end s) p)"

lemma kmem_inv_acquired [simp]: "kmem_inv (acquired lk s) ps = kmem_inv s ps"
  by (simp add: kmem_inv_def)

lemma page_no_wrap: "page_ok e p \<Longrightarrow> unat p + 4096 < 2 ^ 64"
proof -
  assume "page_ok e p"
  then have "unat p < unat PHYSTOP" by (simp add: page_ok_def word_less_nat_alt)
  then show ?thesis by (simp add: PHYSTOP_eq)
qed

lemma page_gap:
  assumes "4096 dvd unat p" "4096 dvd unat q" "p \<noteq> q"
  shows "unat p + 4096 \<le> unat q \<or> unat q + 4096 \<le> unat p"
proof -
  obtain a b where "unat p = 4096 * a" "unat q = 4096 * b"
    using assms(1,2) unfolding dvd_def by blast
  moreover have "unat p \<noteq> unat q" using assms(3) by (simp add: word_unat_eq_iff)
  ultimately show ?thesis by auto
qed

lemma pages_disjoint:
  assumes "page_ok e p" "page_ok e q" "p \<noteq> q" "k \<le> 4096" "n \<le> 4096"
  shows "disjoint_ranges p k q n"
  using assms page_no_wrap [of e p] page_no_wrap [of e q] page_gap [of p q]
  by (auto simp: disjoint_ranges_def page_ok_def mod_PGSIZE_eq_0_iff)

text \<open>Writing inside a page that is not on the list leaves the list alone.\<close>

lemma flist_mem_write:
  assumes "flist m r ps" "\<And>p. p \<in> set ps \<Longrightarrow> disjoint_ranges p 8 q (length bs)"
  shows "flist (mem_write m q bs) r ps"
  using assms by (induction ps arbitrary: r) (auto simp: load64_mem_write_disjoint)

lemma flist_write_page:
  assumes "flist m r ps" "\<forall>p \<in> set ps. page_ok e p" "page_ok e q" "q \<notin> set ps"
    and "length bs \<le> 4096"
  shows "flist (mem_write m q bs) r ps"
  using assms by (intro flist_mem_write) (auto intro!: pages_disjoint)

lemma memset_page: "memset m p c 4096 = mem_write m p (replicate 4096 c)"
  by (simp add: memset_eq)

subsection \<open>What the operations do\<close>

lemma kalloc_empty:
  assumes "cpu_quiet s" "lk_free LkKmem s" "kmem_inv s []"
  shows "kalloc s = Done 0 s"
  using assms
  by (simp add: kalloc_def kmon_simps lock_simps bnd_run kmem_inv_def)

lemma kalloc_page:
  assumes "cpu_quiet s" "lk_free LkKmem s" "kmem_inv s (p # ps)"
  shows "kalloc s = Done p (s\<lparr>freelist := load64 (mem s) p,
      mem := mem_write (mem s) p (replicate 4096 5)\<rparr>)"
  using assms
  by (simp add: kalloc_def kmon_simps lock_simps bnd_run kmem_inv_def memset_page)

lemma kalloc_inv:
  assumes "kmem_inv s (p # ps)"
  shows "kmem_inv (s\<lparr>freelist := load64 (mem s) p,
      mem := mem_write (mem s) p (replicate 4096 5)\<rparr>) ps"
  using assms unfolding kmem_inv_def
  by (auto intro!: flist_write_page [where e = "k_end s"])

lemma kfree_page:
  assumes "cpu_quiet s" "lk_free LkKmem s" "page_ok (k_end s) p"
  shows "kfree p s = Done () (s\<lparr>mem := store64 (mem_write (mem s) p (replicate 4096 1)) p (freelist s),
      freelist := p\<rparr>)"
  using assms
  by (simp add: kfree_def kmon_simps lock_simps bnd_run memset_page page_ok_def not_less not_le)

lemma kfree_panic:
  assumes "\<not> page_ok (k_end s) p"
  shows "kfree p s = Panic ''kfree''"
proof -
  have "p mod PGSIZE \<noteq> 0 \<or> p < k_end s \<or> p \<ge> PHYSTOP"
    using assms unfolding page_ok_def by (meson not_le)
  then show ?thesis by (simp only: kfree_def kmon_simps if_True)
qed

lemma kfree_inv:
  assumes "kmem_inv s ps" "page_ok (k_end s) p" "p \<notin> set ps"
  shows "kmem_inv (s\<lparr>mem := store64 (mem_write (mem s) p (replicate 4096 1)) p (freelist s),
      freelist := p\<rparr>) (p # ps)"
proof -
  have "p \<noteq> 0" using assms by (auto simp: kmem_inv_def page_ok_def)
  moreover have "flist (store64 (mem_write (mem s) p (replicate 4096 1)) p (freelist s))
      (freelist s) ps"
    unfolding store64_def
    by (rule flist_write_page [where e = "k_end s"], rule flist_write_page [where e = "k_end s"])
       (use assms in \<open>auto simp: kmem_inv_def\<close>)
  ultimately show ?thesis using assms by (simp add: kmem_inv_def)
qed

subsection \<open>Filling the list at boot\<close>

text \<open>The pages \<open>freerange\<close> visits: the page-aligned addresses from \<open>p\<close>, \<open>n\<close> of them.\<close>

definition pages_from :: "u64 \<Rightarrow> nat \<Rightarrow> u64 list" where
  "pages_from p n = map (\<lambda>i. p + of_nat i * PGSIZE) [0..<n]"

lemma pages_from_Suc: "pages_from p (Suc n) = p # pages_from (p + PGSIZE) n"
  by (simp add: pages_from_def upt_conv_Cons map_Suc_upt [symmetric] algebra_simps
      del: upt_Suc)

lemma pages_from_0 [simp]: "pages_from p 0 = []"
  by (simp add: pages_from_def)

lemma unat_pages_from:
  assumes "q \<in> set (pages_from p n)" "unat p + n * 4096 \<le> unat PHYSTOP"
  shows "\<exists>i < n. unat q = unat p + i * 4096"
proof -
  obtain i where i: "i < n" "q = p + of_nat i * PGSIZE"
    using assms(1) by (auto simp: pages_from_def)
  have "q = p + of_nat (i * 4096)"
    using i(2) by (simp add: PGSIZE_def)
  moreover have "unat p + i * 4096 < 2 ^ 64"
    using i(1) assms(2) by (simp add: PHYSTOP_eq)
  ultimately have "unat q = unat p + i * 4096"
    by (simp only: unat_add_of_nat)
  then show ?thesis using i(1) by blast
qed

lemma freerange_loop_free:
  assumes "cpu_quiet s" "lk_free LkKmem s" "kmem_inv s ps" "p mod PGSIZE = 0" "k_end s \<le> p"
    and "unat p + n * 4096 \<le> unat PHYSTOP" "unat pa_end < unat p + Suc n * 4096"
    and "unat p + n * 4096 \<le> unat pa_end" "pa_end \<le> PHYSTOP" "n < k"
    and "set (pages_from p n) \<inter> set ps = {}"
  shows "\<exists>s'. freerange_loop k p pa_end s = Done () s' \<and> cpu_quiet s' \<and> lk_free LkKmem s' \<and>
    k_end s' = k_end s \<and> kmem_inv s' (rev (pages_from p n) @ ps)"
  using assms
proof (induction n arbitrary: k p ps s)
  case 0
  have "\<not> p + PGSIZE \<le> pa_end"
    using 0 by (simp add: word_le_nat_alt unat_word_ariths PHYSTOP_eq unat_PGSIZE)
  with 0 show ?case by (cases k) (simp_all add: ret_def)
next
  case (Suc n)
  obtain k' where k: "k = Suc k'" using Suc.prems by (cases k) auto
  have up: "unat (p + PGSIZE) = unat p + 4096"
    using Suc.prems by (simp add: unat_word_ariths PHYSTOP_eq unat_PGSIZE)
  have le: "p + PGSIZE \<le> pa_end"
    using Suc.prems up by (simp add: word_le_nat_alt)
  have ok: "page_ok (k_end s) p"
    using Suc.prems by (simp add: page_ok_def word_less_nat_alt PHYSTOP_eq)
  have notin: "p \<notin> set ps"
    using Suc.prems by (simp add: pages_from_Suc)
  define t where "t = s\<lparr>mem := store64 (mem_write (mem s) p (replicate 4096 1)) p (freelist s),
      freelist := p\<rparr>"
  have run: "kfree p s = Done () t"
    using kfree_page [OF Suc.prems(1,2) ok] by (simp add: t_def)
  have inv: "kmem_inv t (p # ps)"
    unfolding t_def by (rule kfree_inv [OF Suc.prems(3) ok notin])
  have nodup: "p \<notin> set (pages_from (p + PGSIZE) n)"
  proof
    assume "p \<in> set (pages_from (p + PGSIZE) n)"
    then show False using unat_pages_from [of p "p + PGSIZE" n] Suc.prems up by auto
  qed
  have "(p + PGSIZE) mod PGSIZE = 0"
    using Suc.prems(4) up by (simp add: mod_PGSIZE_eq_0_iff)
  moreover have "k_end t \<le> p + PGSIZE"
    using Suc.prems(5) up by (simp add: t_def word_le_nat_alt)
  moreover have "cpu_quiet t" "lk_free LkKmem t" "k_end t = k_end s"
    using Suc.prems(1,2) by (simp_all add: t_def)
  ultimately have "\<exists>s'. freerange_loop k' (p + PGSIZE) pa_end t = Done () s' \<and> cpu_quiet s' \<and>
      lk_free LkKmem s' \<and> k_end s' = k_end t \<and>
      kmem_inv s' (rev (pages_from (p + PGSIZE) n) @ p # ps)"
    using Suc.prems nodup inv up
    by (intro Suc.IH) (simp_all add: k pages_from_Suc)
  then show ?case
    using run le \<open>k_end t = k_end s\<close>
    by (auto simp: k pages_from_Suc thn_eq bnd_run)
qed

text \<open>
  \<open>kinit\<close> on a machine whose lock is free and whose list head is zero: it never runs out of
  fuel, never panics, and the list holds every page from \<open>end\<close> up to \<open>PHYSTOP\<close>.
\<close>

definition boot_pages :: "u64 \<Rightarrow> u64 list" where
  "boot_pages e = pages_from (PGROUNDUP e) ((unat PHYSTOP - unat (PGROUNDUP e)) div 4096)"

lemma PGROUNDUP_bounds:
  assumes "e \<le> PHYSTOP"
  shows "PGROUNDUP e mod PGSIZE = 0" "e \<le> PGROUNDUP e" "PGROUNDUP e \<le> PHYSTOP"
proof -
  have e: "unat e \<le> unat PHYSTOP" using assms by (simp add: word_le_nat_alt)
  then have u: "unat (PGROUNDUP e) = (unat e + 4095) div 4096 * 4096"
    by (intro unat_PGROUNDUP) (simp add: PHYSTOP_eq)
  then show "PGROUNDUP e mod PGSIZE = 0" by (simp add: mod_PGSIZE_eq_0_iff)
  show "e \<le> PGROUNDUP e"
    using div_block [of 4096 "unat e + 4095"] unfolding word_le_nat_alt u by linarith
  have "(unat e + 4095) div 4096 \<le> (unat PHYSTOP + 4095) div 4096"
    using e by (intro div_le_mono) simp
  then show "PGROUNDUP e \<le> PHYSTOP" unfolding word_le_nat_alt u
    by (simp add: PHYSTOP_eq)
qed

lemma kinit_fills:
  assumes "cpu_quiet s" "freelist s = 0" "0 < k_end s" "k_end s \<le> PHYSTOP"
  shows "\<exists>s'. kinit s = Done () s' \<and> cpu_quiet s' \<and> lk_free LkKmem s' \<and>
    kmem_inv s' (rev (boot_pages (k_end s)))"
proof -
  define t where "t = s\<lparr>splk := (splk s)(LkKmem := \<lparr>sl_locked = False, sl_name = ''kmem'', sl_cpu = None\<rparr>)\<rparr>"
  have init: "initlock LkKmem ''kmem'' s = Done () t"
    by (simp add: initlock_def t_def kmon_simps)
  have t: "cpu_quiet t" "lk_free LkKmem t" "k_end t = k_end s" "kmem_inv t []"
    using assms by (simp_all add: t_def cpu_quiet_def lk_free_def kmem_inv_def mach_defs
        split: if_splits)
  note b = PGROUNDUP_bounds [OF assms(4)]
  define x where "x = unat (PGROUNDUP (k_end s))"
  have x: "x \<le> 2281701376" using b(3) by (simp add: x_def word_le_nat_alt PHYSTOP_eq)
  define n where "n = (2281701376 - x) div 4096"
  have n: "x + n * 4096 \<le> 2281701376" "2281701376 < x + Suc n * 4096" "n < Suc (2281701376 div 4096)"
    using x div_block [of 4096 "2281701376 - x"] div_le_mono [of "2281701376 - x" 2281701376 4096]
    unfolding n_def by simp_all
  have "unat PHYSTOP = 2281701376" by (simp add: PHYSTOP_eq)
  have "\<exists>s'. freerange (k_end s) PHYSTOP t = Done () s' \<and> cpu_quiet s' \<and> lk_free LkKmem s' \<and>
    k_end s' = k_end t \<and> kmem_inv s' (rev (boot_pages (k_end s)) @ [])"
    unfolding freerange_def boot_pages_def
    unfolding \<open>unat PHYSTOP = _\<close> x_def [symmetric] n_def [symmetric]
    by (rule freerange_loop_free)
      (use t b n in \<open>simp_all add: \<open>unat PHYSTOP = _\<close> x_def [symmetric]\<close>)
  then show ?thesis
    using t by (auto simp: kinit_def kmon_simps bnd_run init)
qed

subsection \<open>The allocator as a pool of pages\<close>

text \<open>
  What the rest of the kernel relies on: an allocator over a finite pool. A client may hold any
  number of pages and returns only pages it holds (given here by their position among the held
  ones).
\<close>

datatype pool_op = PoolAlloc | PoolFree nat

fun pool_run :: "('s, 'p) kmon \<Rightarrow> ('p \<Rightarrow> ('s, unit) kmon) \<Rightarrow> 'p \<Rightarrow> pool_op list \<Rightarrow> 'p list \<Rightarrow>
    ('s, 'p list) kmon" where
  "pool_run al fr nul [] held = ret held"
| "pool_run al fr nul (PoolAlloc # ops) held =
     bnd al (\<lambda>p. pool_run al fr nul ops (if p = nul then held else p # held))"
| "pool_run al fr nul (PoolFree i # ops) held =
     (if i < length held
      then thn (fr (held ! i)) (pool_run al fr nul ops (take i held @ drop (Suc i) held))
      else pool_run al fr nul ops held)"

lemma set_remove_nth:
  assumes "i < length xs"
  shows "set xs = insert (xs ! i) (set (take i xs @ drop (Suc i) xs))"
    and "distinct xs \<Longrightarrow> distinct (take i xs @ drop (Suc i) xs) \<and>
      xs ! i \<notin> set (take i xs @ drop (Suc i) xs)"
proof -
  have xs: "xs = take i xs @ xs ! i # drop (Suc i) xs"
    using assms by (simp add: id_take_nth_drop)
  show "set xs = insert (xs ! i) (set (take i xs @ drop (Suc i) xs))"
    by (subst xs) auto
  assume "distinct xs"
  then have "distinct (take i xs @ xs ! i # drop (Suc i) xs)" using xs by simp
  then show "distinct (take i xs @ drop (Suc i) xs) \<and> xs ! i \<notin> set (take i xs @ drop (Suc i) xs)"
    by auto
qed

locale page_pool =
  fixes ready :: "'s \<Rightarrow> bool" and pool :: "'s \<Rightarrow> 'p list \<Rightarrow> bool" and valid :: "'s \<Rightarrow> 'p \<Rightarrow> bool"
    and al :: "('s, 'p) kmon" and fr :: "'p \<Rightarrow> ('s, unit) kmon" and nul :: 'p
  assumes pool_sound: "pool s ps \<Longrightarrow> distinct ps \<and> nul \<notin> set ps \<and> (\<forall>p \<in> set ps. valid s p)"
    and al_nil: "ready s \<Longrightarrow> pool s [] \<Longrightarrow> al s = Done nul s"
    and al_cons: "ready s \<Longrightarrow> pool s (p # ps) \<Longrightarrow>
      \<exists>s'. al s = Done p s' \<and> ready s' \<and> pool s' ps \<and> (\<forall>q. valid s' q = valid s q)"
    and fr_valid: "ready s \<Longrightarrow> pool s ps \<Longrightarrow> valid s p \<Longrightarrow> p \<notin> set ps \<Longrightarrow>
      \<exists>s'. fr p s = Done () s' \<and> ready s' \<and> pool s' (p # ps) \<and> (\<forall>q. valid s' q = valid s q)"
begin

text \<open>No page is handed out twice and none is lost, whatever the order of the operations.\<close>

lemma pool_run_conserves:
  assumes "ready s" "pool s ps" "distinct (held @ ps)" "\<forall>p \<in> set held. valid s p"
  shows "\<exists>held' ps' s'. pool_run al fr nul ops held s = Done held' s' \<and> ready s' \<and> pool s' ps' \<and>
    distinct (held' @ ps') \<and> set (held' @ ps') = set (held @ ps)"
  using assms
proof (induction ops arbitrary: s held ps)
  case Nil
  then show ?case by (auto simp: ret_def)
next
  case (Cons a ops)
  show ?case
  proof (cases a)
    case PoolAlloc
    show ?thesis
    proof (cases ps)
      case Nil
      then show ?thesis
        using Cons.IH [of s ps held] Cons.prems al_nil [of s]
        by (simp add: PoolAlloc bnd_run)
    next
      case (Cons p qs)
      obtain s' where s': "al s = Done p s'" "ready s'" "pool s' qs" "\<forall>q. valid s' q = valid s q"
        using al_cons [of s p qs] Cons.prems Cons by auto
      have p: "p \<noteq> nul" "valid s p" using pool_sound [OF Cons.prems(2)] Cons by auto
      show ?thesis
        using Cons.IH [OF s'(2,3), of "p # held"] Cons.prems s' p
        by (simp add: PoolAlloc bnd_run Cons insert_commute)
    qed
  next
    case (PoolFree i)
    show ?thesis
    proof (cases "i < length held")
      case True
      define h where "h = take i held @ drop (Suc i) held"
      have h: "set held = insert (held ! i) (set h)" "distinct h" "held ! i \<notin> set h"
        using set_remove_nth [OF True] Cons.prems(3) by (auto simp: h_def)
      obtain s' where s': "fr (held ! i) s = Done () s'" "ready s'" "pool s' (held ! i # ps)"
          "\<forall>q. valid s' q = valid s q"
        using fr_valid [of s ps "held ! i"] Cons.prems True by (auto simp: disjoint_iff)
      show ?thesis
        using Cons.IH [OF s'(2,3), of h] Cons.prems s' h True
        by (simp add: PoolFree bnd_run thn_eq h_def [symmetric])
    qed (use Cons in \<open>simp add: PoolFree\<close>)
  qed
qed

end

definition kmem_ready :: "'z kmst_scheme \<Rightarrow> bool" where
  "kmem_ready s \<longleftrightarrow> cpu_quiet s \<and> lk_free LkKmem s"

interpretation kpool: page_pool kmem_ready kmem_inv "\<lambda>s. page_ok (k_end s)" kalloc kfree 0
proof unfold_locales
  fix s :: "'z kmst_scheme" and ps
  assume "kmem_inv s ps"
  then show "distinct ps \<and> 0 \<notin> set ps \<and> (\<forall>p \<in> set ps. page_ok (k_end s) p)"
    by (auto simp: kmem_inv_def page_ok_def)
next
  fix s :: "'z kmst_scheme"
  assume "kmem_ready s" "kmem_inv s []"
  then show "kalloc s = Done 0 s" by (simp add: kmem_ready_def kalloc_empty)
next
  fix s :: "'z kmst_scheme" and p ps
  assume "kmem_ready s" "kmem_inv s (p # ps)"
  then show "\<exists>s'. kalloc s = Done p s' \<and> kmem_ready s' \<and> kmem_inv s' ps \<and>
      (\<forall>q. page_ok (k_end s') q = page_ok (k_end s) q)"
    using kalloc_page [of s p ps] kalloc_inv [of s p ps] by (simp add: kmem_ready_def)
next
  fix s :: "'z kmst_scheme" and p ps
  assume "kmem_ready s" "kmem_inv s ps" "page_ok (k_end s) p" "p \<notin> set ps"
  then show "\<exists>s'. kfree p s = Done () s' \<and> kmem_ready s' \<and> kmem_inv s' (p # ps) \<and>
      (\<forall>q. page_ok (k_end s') q = page_ok (k_end s) q)"
    using kfree_page [of s p] kfree_inv [of s ps p] by (simp add: kmem_ready_def)
qed

lemma mem_boot_pages:
  assumes "e \<le> PHYSTOP"
  shows "p \<in> set (boot_pages e) \<longleftrightarrow> page_ok e p"
proof (rule iffI)
  note b = PGROUNDUP_bounds [OF assms]
  obtain N where top: "unat PHYSTOP = N * 4096" "N < 2 ^ 20"
    using that [of 557056] by (simp add: PHYSTOP_eq)
  obtain k where k: "unat (PGROUNDUP e) = k * 4096"
    using b(1) by (auto simp: mod_PGSIZE_eq_0_iff dvd_def mult.commute)
  have kle: "k \<le> N" using b(3) by (simp add: word_le_nat_alt k top(1))
  have cnt: "(unat PHYSTOP - unat (PGROUNDUP e)) div 4096 = N - k"
    by (simp add: top(1) k diff_mult_distrib [symmetric])
  have up: "unat e \<le> k * 4096" "k * 4096 < unat e + 4096"
  proof -
    have "unat e + 4095 < 2 ^ 64" using assms by (simp add: word_le_nat_alt PHYSTOP_eq)
    then have "k = (unat e + 4095) div 4096"
      using unat_PGROUNDUP [of e] k by simp
    then have "k * 4096 \<le> unat e + 4095 \<and> unat e + 4095 < k * 4096 + 4096"
      using div_block [of 4096 "unat e + 4095"] by (simp only: zero_less_numeral simp_thms)
    then show "unat e \<le> k * 4096" "k * 4096 < unat e + 4096" by linarith+
  qed
  show "page_ok e p" if p: "p \<in> set (boot_pages e)"
  proof -
    have "unat (PGROUNDUP e) + (N - k) * 4096 \<le> unat PHYSTOP"
      using kle by (simp only: k top(1) add_mult_distrib [symmetric] le_add_diff_inverse)
    moreover have "p \<in> set (pages_from (PGROUNDUP e) (N - k))"
      using p by (simp only: boot_pages_def cnt)
    ultimately obtain i where i: "i < N - k" "unat p = k * 4096 + i * 4096"
      using unat_pages_from [of p "PGROUNDUP e" "N - k"] unfolding k by blast
    then have "unat p = (k + i) * 4096" by simp
    then show ?thesis
      using i up by (simp add: page_ok_def mod_PGSIZE_eq_0_iff word_le_nat_alt word_less_nat_alt top(1))
  qed
  show "p \<in> set (boot_pages e)" if ok: "page_ok e p"
  proof -
    obtain j where j: "unat p = j * 4096"
      using ok by (auto simp: page_ok_def mod_PGSIZE_eq_0_iff dvd_def mult.commute)
    have "j < N" "unat e \<le> j * 4096"
      using ok by (simp_all add: page_ok_def word_le_nat_alt word_less_nat_alt j top(1))
    then have kj: "k \<le> j" "j - k < N - k" using up by linarith+
    have "p = PGROUNDUP e + of_nat (j - k) * PGSIZE"
    proof (rule word_unat_eq_iff [THEN iffD2])
      have "PGROUNDUP e + of_nat (j - k) * PGSIZE = PGROUNDUP e + of_nat ((j - k) * 4096)"
        by (simp add: PGSIZE_def)
      moreover have "unat (PGROUNDUP e + of_nat ((j - k) * 4096)) = k * 4096 + (j - k) * 4096"
        using kj \<open>j < N\<close> unfolding k [symmetric]
        by (intro unat_add_of_nat) (use top(2) in \<open>simp add: k\<close>)
      ultimately show "unat p = unat (PGROUNDUP e + of_nat (j - k) * PGSIZE)"
        using kj by (simp only: j add_mult_distrib [symmetric] le_add_diff_inverse)
    qed
    moreover have "j - k \<in> set [0..<N - k]" using kj by simp
    ultimately show ?thesis unfolding boot_pages_def pages_from_def cnt set_map by (rule image_eqI)
  qed
qed

subsection \<open>Properties\<close>

text \<open>
  C19. After \<open>kinit\<close>, any sequence of \<open>kalloc\<close> and \<open>kfree\<close> calls by clients that free only what
  they hold runs without panic, no page is ever held twice or both held and free, and the held
  and free pages together are exactly the page-aligned addresses between \<open>end\<close> and \<open>PHYSTOP\<close>.
\<close>

theorem kalloc_conserves_pages:
  assumes "cpu_quiet s" "freelist s = 0" "0 < k_end s" "k_end s \<le> PHYSTOP"
  shows "\<exists>held ps s'. thn kinit (pool_run kalloc kfree 0 ops []) s = Done held s' \<and>
    kmem_inv s' ps \<and> distinct (held @ ps) \<and> set (held @ ps) = {p. page_ok (k_end s) p}"
proof -
  obtain t where t: "kinit s = Done () t" "kmem_ready t" "kmem_inv t (rev (boot_pages (k_end s)))"
    using kinit_fills [OF assms] unfolding kmem_ready_def by blast
  have "distinct (rev (boot_pages (k_end s)))" using t(3) by (simp add: kmem_inv_def)
  then obtain held ps s' where "pool_run kalloc kfree 0 ops [] t = Done held s'" "kmem_inv s' ps"
      "distinct (held @ ps)" "set (held @ ps) = set (rev (boot_pages (k_end s)))"
    using kpool.pool_run_conserves [OF t(2,3), of "[]" ops] by auto
  then show ?thesis
    using t(1) mem_boot_pages [OF assms(4)] by (auto simp: thn_eq bnd_run)
qed

definition reset_mach :: kmst where
  "reset_mach = \<lparr>patience = 0, hart = 0, sie = (\<lambda>_. False),
     cpus = (\<lambda>_. \<lparr>c_proc = None, c_noff = 0, c_intena = False\<rparr>),
     splk = (\<lambda>_. \<lparr>sl_locked = False, sl_name = [], sl_cpu = None\<rparr>),
     mem = (\<lambda>_. 0), freelist = 0, k_end = 0x80021000\<rparr>"

theorem kalloc_conserves_pages_witness:
  "\<exists>held ps s'. thn kinit (pool_run kalloc kfree 0 [PoolAlloc, PoolAlloc, PoolFree 1] []) reset_mach
      = Done held s' \<and> kmem_inv s' ps \<and> distinct (held @ ps) \<and>
      set (held @ ps) = {p. page_ok 0x80021000 p}"
  using kalloc_conserves_pages [of reset_mach "[PoolAlloc, PoolAlloc, PoolFree 1]"]
  by (simp add: reset_mach_def cpu_quiet_def mach_defs PHYSTOP_eq)

end
