(* ===== verification/Vm.thy ===== *)
theory Vm
  imports Kalloc "HOL-Library.Multiset"
begin

text \<open>
  \<open>kernel/vm.c\<close>: page tables as they lie in memory (three levels of 512 eight-byte entries),
  the functions that build, change and free them, and the copies between user and kernel
  memory. A page-table pointer and a pointer to an entry are addresses; zero is the null
  pointer. Loops carry a step count that is large enough for every run.
\<close>

subsection \<open>Walking and mapping\<close>

fun walk_levels :: "nat \<Rightarrow> u64 \<Rightarrow> u64 \<Rightarrow> bool \<Rightarrow> ('z kmst_scheme, u64) kmon" where
  "walk_levels 0 pagetable va alloc = ret (pagetable + 8 * PX 0 va)"
| "walk_levels (Suc l) pagetable va alloc =
     bnd (ret (pagetable + 8 * PX (Suc l) va)) (\<lambda>pte.
     bnd (gets (\<lambda>s. load64 (mem s) pte)) (\<lambda>e.
     if e AND PTE_V \<noteq> 0 then walk_levels l (PTE2PA e) va alloc
     else if \<not> alloc then ret 0
     else bnd kalloc (\<lambda>pg.
       if pg = 0 then ret 0
       else thn (modify (\<lambda>s. s\<lparr>mem := memset (mem s) pg 0 (unat PGSIZE)\<rparr>)) (
            thn (modify (\<lambda>s. s\<lparr>mem := store64 (mem s) pte (PA2PTE pg OR PTE_V)\<rparr>))
                (walk_levels l pg va alloc)))))"

definition walk :: "u64 \<Rightarrow> u64 \<Rightarrow> bool \<Rightarrow> ('z kmst_scheme, u64) kmon" where
  "walk pagetable va alloc =
     (if va \<ge> MAXVA then panic ''walk'' else walk_levels 2 pagetable va alloc)"

definition walkaddr :: "u64 \<Rightarrow> u64 \<Rightarrow> ('z kmst_scheme, u64) kmon" where
  "walkaddr pagetable va =
     (if va \<ge> MAXVA then ret 0 else
      bnd (walk pagetable va False) (\<lambda>pte.
      if pte = 0 then ret 0 else
      bnd (gets (\<lambda>s. load64 (mem s) pte)) (\<lambda>e.
      if e AND PTE_V = 0 then ret 0
      else if e AND PTE_U = 0 then ret 0
      else ret (PTE2PA e))))"

fun mappages_loop :: "nat \<Rightarrow> u64 \<Rightarrow> u64 \<Rightarrow> u64 \<Rightarrow> u64 \<Rightarrow> u64 \<Rightarrow> ('z kmst_scheme, int) kmon" where
  "mappages_loop 0 pagetable a last_va pa perm = fault"
| "mappages_loop (Suc n) pagetable a last_va pa perm =
     bnd (walk pagetable a True) (\<lambda>pte.
     if pte = 0 then ret (-1) else
     bnd (gets (\<lambda>s. load64 (mem s) pte)) (\<lambda>e.
     if e AND PTE_V \<noteq> 0 then panic ''mappages: remap'' else
     thn (modify (\<lambda>s. s\<lparr>mem := store64 (mem s) pte (PA2PTE pa OR perm OR PTE_V)\<rparr>)) (
     if a = last_va then ret 0
     else mappages_loop n pagetable (a + PGSIZE) last_va (pa + PGSIZE) perm)))"

definition mappages :: "u64 \<Rightarrow> u64 \<Rightarrow> u64 \<Rightarrow> u64 \<Rightarrow> u64 \<Rightarrow> ('z kmst_scheme, int) kmon" where
  "mappages pagetable va sz pa perm =
     (if va mod PGSIZE \<noteq> 0 then panic ''mappages: va not aligned''
      else if sz mod PGSIZE \<noteq> 0 then panic ''mappages: size not aligned''
      else if sz = 0 then panic ''mappages: size''
      else mappages_loop (unat (sz div PGSIZE)) pagetable va (va + sz - PGSIZE) pa perm)"

fun uvmunmap_loop :: "nat \<Rightarrow> u64 \<Rightarrow> u64 \<Rightarrow> u64 \<Rightarrow> bool \<Rightarrow> ('z kmst_scheme, unit) kmon" where
  "uvmunmap_loop 0 pagetable a end_va do_free = (if a < end_va then fault else ret ())"
| "uvmunmap_loop (Suc n) pagetable a end_va do_free =
     (if \<not> a < end_va then ret () else
      bnd (walk pagetable a False) (\<lambda>pte.
      if pte = 0 then panic ''uvmunmap: walk'' else
      bnd (gets (\<lambda>s. load64 (mem s) pte)) (\<lambda>e.
      if e AND PTE_V = 0 then panic ''uvmunmap: not mapped''
      else if PTE_FLAGS e = PTE_V then panic ''uvmunmap: not a leaf'' else
      thn (whenM do_free (kfree (PTE2PA e))) (
      thn (modify (\<lambda>s. s\<lparr>mem := store64 (mem s) pte 0\<rparr>))
          (uvmunmap_loop n pagetable (a + PGSIZE) end_va do_free)))))"

definition uvmunmap :: "u64 \<Rightarrow> u64 \<Rightarrow> u64 \<Rightarrow> bool \<Rightarrow> ('z kmst_scheme, unit) kmon" where
  "uvmunmap pagetable va npages do_free =
     (if va mod PGSIZE \<noteq> 0 then panic ''uvmunmap: not aligned''
      else uvmunmap_loop (unat npages) pagetable va (va + npages * PGSIZE) do_free)"

subsection \<open>User address spaces\<close>

definition uvmcreate :: "('z kmst_scheme, u64) kmon" where
  "uvmcreate =
     bnd kalloc (\<lambda>pagetable.
     if pagetable = 0 then ret 0
     else thn (modify (\<lambda>s. s\<lparr>mem := memset (mem s) pagetable 0 (unat PGSIZE)\<rparr>)) (ret pagetable))"

definition uvmfirst :: "u64 \<Rightarrow> u64 \<Rightarrow> u32 \<Rightarrow> ('z kmst_scheme, unit) kmon" where
  "uvmfirst pagetable src sz =
     (if 4096 \<le> sz then panic ''uvmfirst: more than a page'' else
      bnd kalloc (\<lambda>pg.
      thn (modify (\<lambda>s. s\<lparr>mem := memset (mem s) pg 0 (unat PGSIZE)\<rparr>)) (
      bnd (mappages pagetable 0 PGSIZE pg (PTE_W OR PTE_R OR PTE_X OR PTE_U)) (\<lambda>_.
      modify (\<lambda>s. s\<lparr>mem := memmove (mem s) pg src (unat sz)\<rparr>)))))"

definition uvmdealloc :: "u64 \<Rightarrow> u64 \<Rightarrow> u64 \<Rightarrow> ('z kmst_scheme, u64) kmon" where
  "uvmdealloc pagetable oldsz newsz =
     (if newsz \<ge> oldsz then ret oldsz else
      thn (whenM (PGROUNDUP newsz < PGROUNDUP oldsz)
            (uvmunmap pagetable (PGROUNDUP newsz)
               (scast (ucast ((PGROUNDUP oldsz - PGROUNDUP newsz) div PGSIZE) :: 32 word)) True))
          (ret newsz))"

fun uvmalloc_loop :: "nat \<Rightarrow> u64 \<Rightarrow> u64 \<Rightarrow> u64 \<Rightarrow> u64 \<Rightarrow> u64 \<Rightarrow> ('z kmst_scheme, u64) kmon" where
  "uvmalloc_loop 0 pagetable a oldsz newsz xperm = (if a < newsz then fault else ret newsz)"
| "uvmalloc_loop (Suc n) pagetable a oldsz newsz xperm =
     (if \<not> a < newsz then ret newsz else
      bnd kalloc (\<lambda>pg.
      if pg = 0 then bnd (uvmdealloc pagetable a oldsz) (\<lambda>_. ret 0) else
      thn (modify (\<lambda>s. s\<lparr>mem := memset (mem s) pg 0 (unat PGSIZE)\<rparr>)) (
      bnd (mappages pagetable a PGSIZE pg (PTE_R OR PTE_U OR xperm)) (\<lambda>r.
      if r \<noteq> 0 then thn (kfree pg) (bnd (uvmdealloc pagetable a oldsz) (\<lambda>_. ret 0))
      else uvmalloc_loop n pagetable (a + PGSIZE) oldsz newsz xperm))))"

definition uvmalloc :: "u64 \<Rightarrow> u64 \<Rightarrow> u64 \<Rightarrow> u64 \<Rightarrow> ('z kmst_scheme, u64) kmon" where
  "uvmalloc pagetable oldsz newsz xperm =
     (if newsz < oldsz then ret oldsz
      else uvmalloc_loop (Suc (unat newsz div 4096)) pagetable (PGROUNDUP oldsz)
             (PGROUNDUP oldsz) newsz xperm)"

text \<open>The depth of the recursion of \<open>freewalk\<close> is the depth of the table, three levels.\<close>

fun freewalk :: "nat \<Rightarrow> u64 \<Rightarrow> ('z kmst_scheme, unit) kmon" where
  "freewalk 0 pagetable = fault"
| "freewalk (Suc d) pagetable =
     thn (for_each [0..<512] (\<lambda>i.
            bnd (gets (\<lambda>s. load64 (mem s) (pagetable + 8 * of_nat i))) (\<lambda>pte.
            if pte AND PTE_V \<noteq> 0 \<and> pte AND (PTE_R OR PTE_W OR PTE_X) = 0
            then thn (freewalk d (PTE2PA pte))
                     (modify (\<lambda>s. s\<lparr>mem := store64 (mem s) (pagetable + 8 * of_nat i) 0\<rparr>))
            else whenM (pte AND PTE_V \<noteq> 0) (panic ''freewalk: leaf''))))
         (kfree pagetable)"

definition uvmfree :: "u64 \<Rightarrow> u64 \<Rightarrow> ('z kmst_scheme, unit) kmon" where
  "uvmfree pagetable sz =
     thn (whenM (sz > 0) (uvmunmap pagetable 0 (PGROUNDUP sz div PGSIZE) True))
         (freewalk 3 pagetable)"

fun uvmcopy_loop :: "nat \<Rightarrow> u64 \<Rightarrow> u64 \<Rightarrow> u64 \<Rightarrow> u64 \<Rightarrow> ('z kmst_scheme, int) kmon" where
  "uvmcopy_loop 0 old new i sz = (if i < sz then fault else ret 0)"
| "uvmcopy_loop (Suc n) old new i sz =
     (if \<not> i < sz then ret 0 else
      bnd (walk old i False) (\<lambda>pte.
      if pte = 0 then panic ''uvmcopy: pte should exist'' else
      bnd (gets (\<lambda>s. load64 (mem s) pte)) (\<lambda>e.
      if e AND PTE_V = 0 then panic ''uvmcopy: page not present'' else
      bnd kalloc (\<lambda>pg.
      if pg = 0 then thn (uvmunmap new 0 (i div PGSIZE) True) (ret (-1)) else
      thn (modify (\<lambda>s. s\<lparr>mem := memmove (mem s) pg (PTE2PA e) (unat PGSIZE)\<rparr>)) (
      bnd (mappages new i PGSIZE pg (PTE_FLAGS e)) (\<lambda>r.
      if r \<noteq> 0 then thn (kfree pg) (thn (uvmunmap new 0 (i div PGSIZE) True) (ret (-1)))
      else uvmcopy_loop n old new (i + PGSIZE) sz))))))"

definition uvmcopy :: "u64 \<Rightarrow> u64 \<Rightarrow> u64 \<Rightarrow> ('z kmst_scheme, int) kmon" where
  "uvmcopy old new sz = uvmcopy_loop (Suc (unat sz div 4096)) old new 0 sz"

definition uvmclear :: "u64 \<Rightarrow> u64 \<Rightarrow> ('z kmst_scheme, unit) kmon" where
  "uvmclear pagetable va =
     bnd (walk pagetable va False) (\<lambda>pte.
     if pte = 0 then panic ''uvmclear''
     else modify (\<lambda>s. s\<lparr>mem := store64 (mem s) pte (load64 (mem s) pte AND NOT PTE_U)\<rparr>))"

subsection \<open>Copies between kernel and user memory\<close>

lemma page_chunk_pos:
  "0 < PGSIZE - (va - PGROUNDDOWN va)"
proof -
  have "unat (va - PGROUNDDOWN va) < 4096"
    by (simp add: PGROUNDDOWN_mod unat_mod_PGSIZE)
  then have "va - PGROUNDDOWN va < PGSIZE" by (simp add: word_less_nat_alt)
  then show ?thesis by (simp add: word_less_nat_alt unat_sub less_imp_le)
qed

text \<open>The number of bytes a copy moves in one page: \<open>n = PGSIZE - (va - va0)\<close>, at most \<open>len\<close>.\<close>

definition page_chunk :: "u64 \<Rightarrow> u64 \<Rightarrow> u64" where
  "page_chunk va len =
     (let n = PGSIZE - (va - PGROUNDDOWN va) in if n > len then len else n)"

lemma page_chunk_le: "page_chunk va len \<le> len"
  by (simp add: page_chunk_def Let_def not_less)

lemma page_chunk_gt: "0 < len \<Longrightarrow> 0 < page_chunk va len"
  using page_chunk_pos [of va] by (simp add: page_chunk_def Let_def)

lemma page_chunk_decreases: "0 < len \<Longrightarrow> unat (len - page_chunk va len) < unat len"
  using page_chunk_le [of va len] page_chunk_gt [of len va]
  by (simp add: unat_sub word_less_nat_alt)

function copyout :: "u64 \<Rightarrow> u64 \<Rightarrow> u64 \<Rightarrow> u64 \<Rightarrow> ('z kmst_scheme, int) kmon" where
  "copyout pagetable dstva src len =
     (if \<not> len > 0 then ret 0 else
      bnd (ret (PGROUNDDOWN dstva)) (\<lambda>va0.
      if va0 \<ge> MAXVA then ret (-1) else
      bnd (walk pagetable va0 False) (\<lambda>pte.
      bnd (gets (\<lambda>s. load64 (mem s) pte)) (\<lambda>e.
      if pte = 0 \<or> e AND PTE_V = 0 \<or> e AND PTE_U = 0 \<or> e AND PTE_W = 0 then ret (-1) else
      thn (modify (\<lambda>s. s\<lparr>mem := memmove (mem s) (PTE2PA e + (dstva - va0)) src
                                   (unat (page_chunk dstva len))\<rparr>))
          (copyout pagetable (PGROUNDDOWN dstva + PGSIZE) (src + page_chunk dstva len)
             (len - page_chunk dstva len))))))"
  by pat_completeness auto
termination by (relation "measure (\<lambda>(pagetable, dstva, src, len). unat len)")
  (auto simp: page_chunk_decreases)

function copyin :: "u64 \<Rightarrow> u64 \<Rightarrow> u64 \<Rightarrow> u64 \<Rightarrow> ('z kmst_scheme, int) kmon" where
  "copyin pagetable dst srcva len =
     (if \<not> len > 0 then ret 0 else
      bnd (ret (PGROUNDDOWN srcva)) (\<lambda>va0.
      bnd (walkaddr pagetable va0) (\<lambda>pa0.
      if pa0 = 0 then ret (-1) else
      thn (modify (\<lambda>s. s\<lparr>mem := memmove (mem s) dst (pa0 + (srcva - va0))
                                   (unat (page_chunk srcva len))\<rparr>))
          (copyin pagetable (dst + page_chunk srcva len) (PGROUNDDOWN srcva + PGSIZE)
             (len - page_chunk srcva len)))))"
  by pat_completeness auto
termination by (relation "measure (\<lambda>(pagetable, dst, srcva, len). unat len)")
  (auto simp: page_chunk_decreases)

text \<open>
  The same two loops when the kernel side is an object of its own (a disk buffer, an inode, a local
  variable) instead of a range of \<open>mem\<close>: the object is the sequence of its bytes. \<open>copyin_obj\<close> gives
  the bytes it has stored, also when it fails half-way.
\<close>

definition page_room :: "u64 \<Rightarrow> nat \<Rightarrow> nat" where
  "page_room va len = min (unat (PGSIZE - (va - PGROUNDDOWN va))) len"

lemma page_room_pos: "0 < len \<Longrightarrow> 0 < page_room va len"
  using page_chunk_pos [of va] by (simp add: page_room_def word_less_nat_alt)

function copyout_obj :: "u64 \<Rightarrow> u64 \<Rightarrow> u8 list \<Rightarrow> ('z kmst_scheme, int) kmon" where
  "copyout_obj pagetable dstva bs =
     (if length bs = 0 then ret 0 else
      bnd (ret (PGROUNDDOWN dstva)) (\<lambda>va0.
      if va0 \<ge> MAXVA then ret (-1) else
      bnd (walk pagetable va0 False) (\<lambda>pte.
      bnd (gets (\<lambda>s. load64 (mem s) pte)) (\<lambda>e.
      if pte = 0 \<or> e AND PTE_V = 0 \<or> e AND PTE_U = 0 \<or> e AND PTE_W = 0 then ret (-1) else
      thn (modify (\<lambda>s. s\<lparr>mem := mem_write (mem s) (PTE2PA e + (dstva - va0))
                                   (take (page_room dstva (length bs)) bs)\<rparr>))
          (copyout_obj pagetable (PGROUNDDOWN dstva + PGSIZE) (drop (page_room dstva (length bs)) bs))))))"
  by pat_completeness auto
termination by (relation "measure (\<lambda>(pagetable, dstva, bs). length bs)") (auto simp: page_room_pos)

function copyin_obj :: "u64 \<Rightarrow> u64 \<Rightarrow> nat \<Rightarrow> ('z kmst_scheme, int \<times> u8 list) kmon" where
  "copyin_obj pagetable srcva len =
     (if len = 0 then ret (0, []) else
      bnd (ret (PGROUNDDOWN srcva)) (\<lambda>va0.
      bnd (walkaddr pagetable va0) (\<lambda>pa0.
      if pa0 = 0 then ret (-1, []) else
      bnd (gets (\<lambda>s. mem_read (mem s) (pa0 + (srcva - va0)) (page_room srcva len))) (\<lambda>bs.
      bnd (copyin_obj pagetable (PGROUNDDOWN srcva + PGSIZE) (len - page_room srcva len)) (\<lambda>(r, cs).
      ret (r, bs @ cs))))))"
  by pat_completeness auto
termination by (relation "measure (\<lambda>(pagetable, srcva, len). len)") (auto simp: page_room_pos)

declare copyout.simps [simp del] copyin.simps [simp del] copyout_obj.simps [simp del] copyin_obj.simps [simp del]

text \<open>The inner loop of \<open>copyinstr\<close>: copy until a NUL or \<open>n\<close> bytes; \<open>True\<close> when the NUL was met.\<close>

fun copyinstr_bytes :: "nat \<Rightarrow> u64 \<Rightarrow> u64 \<Rightarrow> ('z kmst_scheme, bool) kmon" where
  "copyinstr_bytes 0 p dst = ret False"
| "copyinstr_bytes (Suc n) p dst =
     bnd (gets (\<lambda>s. mem s p)) (\<lambda>c.
     thn (modify (\<lambda>s. s\<lparr>mem := (mem s)(dst := c)\<rparr>)) (
     if c = 0 then ret True else copyinstr_bytes n (p + 1) (dst + 1)))"

function copyinstr :: "u64 \<Rightarrow> u64 \<Rightarrow> u64 \<Rightarrow> u64 \<Rightarrow> ('z kmst_scheme, int) kmon" where
  "copyinstr pagetable dst srcva mx =
     (if \<not> mx > 0 then ret (-1) else
      bnd (ret (PGROUNDDOWN srcva)) (\<lambda>va0.
      bnd (walkaddr pagetable va0) (\<lambda>pa0.
      if pa0 = 0 then ret (-1) else
      bnd (copyinstr_bytes (unat (page_chunk srcva mx)) (pa0 + (srcva - va0)) dst) (\<lambda>got_null.
      if got_null then ret 0
      else copyinstr pagetable (dst + page_chunk srcva mx) (PGROUNDDOWN srcva + PGSIZE)
             (mx - page_chunk srcva mx)))))"
  by pat_completeness auto
termination by (relation "measure (\<lambda>(pagetable, dst, srcva, mx). unat mx)")
  (auto simp: page_chunk_decreases)

declare copyinstr.simps [simp del]

subsection \<open>The kernel page table\<close>

record vmst = kmst +
  kernel_pagetable :: u64
  k_etext :: u64
  k_trampoline :: u64
  satp :: "nat \<Rightarrow> u64"

definition kvmmap :: "u64 \<Rightarrow> u64 \<Rightarrow> u64 \<Rightarrow> u64 \<Rightarrow> u64 \<Rightarrow> ('z kmst_scheme, unit) kmon" where
  "kvmmap kpgtbl va pa sz perm =
     bnd (mappages kpgtbl va sz pa perm) (\<lambda>r. whenM (r \<noteq> 0) (panic ''kvmmap''))"

definition proc_mapstacks :: "u64 \<Rightarrow> ('z kmst_scheme, unit) kmon" where
  "proc_mapstacks kpgtbl =
     for_each [0..<NPROC] (\<lambda>p.
       bnd kalloc (\<lambda>pa.
       if pa = 0 then panic ''kalloc''
       else kvmmap kpgtbl (KSTACK p) pa PGSIZE (PTE_R OR PTE_W)))"

definition kvmmake :: "('z vmst_scheme, u64) kmon" where
  "kvmmake =
     bnd kalloc (\<lambda>kpgtbl.
     thn (modify (\<lambda>s. s\<lparr>mem := memset (mem s) kpgtbl 0 (unat PGSIZE)\<rparr>)) (
     thn (kvmmap kpgtbl UART0 UART0 PGSIZE (PTE_R OR PTE_W)) (
     thn (kvmmap kpgtbl VIRTIO0 VIRTIO0 PGSIZE (PTE_R OR PTE_W)) (
     thn (kvmmap kpgtbl PLIC PLIC 0x4000000 (PTE_R OR PTE_W)) (
     bnd (gets k_etext) (\<lambda>etext.
     thn (kvmmap kpgtbl KERNBASE KERNBASE (etext - KERNBASE) (PTE_R OR PTE_X)) (
     thn (kvmmap kpgtbl etext etext (PHYSTOP - etext) (PTE_R OR PTE_W)) (
     bnd (gets k_trampoline) (\<lambda>tr.
     thn (kvmmap kpgtbl TRAMPOLINE tr PGSIZE (PTE_R OR PTE_X)) (
     thn (proc_mapstacks kpgtbl)
         (ret kpgtbl)))))))))))"

definition kvminit :: "('z vmst_scheme, unit) kmon" where
  "kvminit = bnd kvmmake (\<lambda>k. modify (\<lambda>s. s\<lparr>kernel_pagetable := k\<rparr>))"

definition MAKE_SATP :: "u64 \<Rightarrow> u64" where
  "MAKE_SATP pagetable = push_bit 60 8 OR drop_bit 12 pagetable"

definition kvminithart :: "('z vmst_scheme, unit) kmon" where
  "kvminithart =
     modify (\<lambda>s. s\<lparr>satp := (satp s)(hart s := MAKE_SATP (kernel_pagetable s))\<rparr>)"

end
