(* ===== verification/Vm_Tables.thy ===== *)
theory Vm_Tables
  imports Vm
begin

text \<open>
  Page tables as finite maps. The pages of a table form a multiset; a table is well formed when
  no page occurs in it twice and none of them is free. Under this invariant \<open>walk\<close> with
  allocation conserves the pages and every lookup, \<open>mappages\<close> is the update of a map and
  \<open>uvmunmap\<close> its inverse.
\<close>

subsection \<open>Indices\<close>

abbreviation px :: "nat \<Rightarrow> u64 \<Rightarrow> nat" where
  "px l va \<equiv> unat (PX l va)"

lemma px_eq: "px l va = unat va div 2 ^ (12 + 9 * l) mod 512"
proof -
  have "(0x1FF :: u64) = mask 9" by (simp add: mask_eq_exp_minus_1)
  then have "PX l va = take_bit 9 (drop_bit (12 + 9 * l) va)"
    by (simp add: px_defs take_bit_eq_mask)
  moreover have "take_bit 64 (unat va) = unat va"
    using unsigned_less [of va] by (intro take_bit_nat_eq_self) simp
  ultimately have "px l va = take_bit 9 (drop_bit (12 + 9 * l) (unat va))"
    by (simp add: unsigned_take_bit_eq unsigned_drop_bit_eq)
  then show ?thesis by (simp add: take_bit_eq_mod drop_bit_eq_div)
qed

lemma px_less [simp]: "px l va < 512"
  by (simp add: px_eq)

lemma px_inj:
  assumes "va < MAXVA" "va' < MAXVA" "\<forall>l < 3. px l va = px l va'"
  shows "unat va div 4096 = unat va' div 4096"
proof -
  define a b where "a = unat va div 4096" and "b = unat va' div 4096"
  have le: "a < 2 ^ 26" "b < 2 ^ 26"
    using assms(1,2) by (simp_all add: a_def b_def word_less_nat_alt MAXVA_eq)
  have split: "x = x mod 512 + 512 * (x div 512 mod 512) + 262144 * (x div 262144 mod 512)"
    if "x < 2 ^ 26" for x :: nat
  proof -
    define y z r where "y = x div 512" and "z = x div 262144" and "r = x mod 512"
    define r' where "r' = y mod 512"
    have "z mod 512 = z" using that by (simp add: z_def)
    moreover have "z = y div 512" by (simp add: y_def z_def div_mult2_eq [symmetric])
    then have "512 * z + r' = y" by (simp add: r'_def)
    moreover have "512 * y + r = x" by (simp add: y_def r_def)
    ultimately have "x = r + 512 * r' + 262144 * (z mod 512)" by linarith
    then show ?thesis by (simp only: r_def r'_def y_def z_def)
  qed
  have px: "unat w div 4096 mod 512 = px 0 w" "unat w div 4096 div 512 mod 512 = px 1 w"
    "unat w div 4096 div 262144 mod 512 = px 2 w" for w
    by (simp_all add: px_eq div_mult2_eq [symmetric])
  have "a mod 512 = b mod 512" "a div 512 mod 512 = b div 512 mod 512"
    "a div 262144 mod 512 = b div 262144 mod 512"
    using assms(3) unfolding a_def b_def px by simp_all
  then have "a = b" using split [OF le(1)] split [OF le(2)] by simp
  then show ?thesis by (simp add: a_def b_def)
qed

subsection \<open>Entries\<close>

definition ent :: "memory \<Rightarrow> u64 \<Rightarrow> nat \<Rightarrow> u64" where
  "ent m t i = load64 m (t + 8 * of_nat i)"

definition same_page :: "memory \<Rightarrow> memory \<Rightarrow> u64 \<Rightarrow> bool" where
  "same_page m m' p \<longleftrightarrow> (\<forall>k < 4096. m' (p + of_nat k) = m (p + of_nat k))"

lemma same_page_refl [simp]: "same_page m m p"
  by (simp add: same_page_def)

lemma same_page_trans: "same_page m m' p \<Longrightarrow> same_page m' m'' p \<Longrightarrow> same_page m m'' p"
  by (simp add: same_page_def)

lemma mem_read_same_page:
  assumes "same_page m m' p" "k + n \<le> 4096"
  shows "mem_read m' (p + of_nat k) n = mem_read m (p + of_nat k) n"
  unfolding mem_read_def
proof (rule map_cong [OF refl])
  fix i assume "i \<in> set [0..<n]"
  then have "k + i < 4096" using assms(2) by simp
  then have "m' (p + of_nat (k + i)) = m (p + of_nat (k + i))"
    using assms(1) unfolding same_page_def by blast
  then show "m' (p + of_nat k + of_nat i) = m (p + of_nat k + of_nat i)"
    by (simp add: add.assoc)
qed

lemma ent_same_page:
  assumes "same_page m m' p" "i < 512"
  shows "ent m' p i = ent m p i"
proof -
  have "mem_read m' (p + of_nat (8 * i)) 8 = mem_read m (p + of_nat (8 * i)) 8"
    using assms by (intro mem_read_same_page) auto
  then show ?thesis by (simp add: ent_def load64_def)
qed

definition pg_aligned :: "u64 \<Rightarrow> bool" where
  "pg_aligned p \<longleftrightarrow> p mod PGSIZE = 0"

lemma aligned_no_wrap: "pg_aligned p \<Longrightarrow> unat p + 4096 \<le> 2 ^ 64"
proof -
  assume "pg_aligned p"
  then have d: "4096 dvd unat p" by (simp add: pg_aligned_def mod_PGSIZE_eq_0_iff)
  have "(4096 :: nat) dvd 2 ^ 64" by simp
  then have "4096 dvd (2 ^ 64 - unat p)" using d by (rule dvd_diff_nat)
  moreover have "0 < 2 ^ 64 - unat p" using unsigned_less [of p] by simp
  ultimately have "4096 \<le> 2 ^ 64 - unat p" by (rule dvd_imp_le)
  then show ?thesis by linarith
qed

text \<open>Writing inside one page keeps the others.\<close>

lemma same_page_mem_write:
  assumes "pg_aligned p" "pg_aligned q" "p \<noteq> q" "k + length bs \<le> 4096"
  shows "same_page m (mem_write m (q + of_nat k) bs) p"
  unfolding same_page_def
proof (intro allI impI)
  fix i :: nat assume i: "i < 4096"
  show "mem_write m (q + of_nat k) bs (p + of_nat i) = m (p + of_nat i)"
  proof (cases "bs = []")
    case False
    then have "0 < length bs" by simp
    then have "unat (p + of_nat i) = unat p + i" "unat (q + of_nat k) = unat q + k"
      using aligned_no_wrap [OF assms(1)] aligned_no_wrap [OF assms(2)] i assms(4)
      by (intro unat_add_of_nat; linarith)+
    then show ?thesis
      using assms(3,4) aligned_no_wrap [OF assms(2)] page_gap [of p q] i
        assms(1,2) [unfolded pg_aligned_def mod_PGSIZE_eq_0_iff]
      by (intro mem_write_other) linarith+
  qed (simp add: mem_write_def)
qed

lemma same_page_write_page:
  assumes "pg_aligned p" "pg_aligned q" "p \<noteq> q" "length bs \<le> 4096"
  shows "same_page m (mem_write m q bs) p"
  using same_page_mem_write [of p q 0 bs m] assms by simp

lemma same_page_store_ent:
  assumes "pg_aligned p" "pg_aligned q" "p \<noteq> q" "i < 512"
  shows "same_page m (store64 m (q + 8 * of_nat i) v) p"
  using same_page_mem_write [of p q "8 * i" "to_le 8 v" m] assms
  by (simp add: store64_def)

lemma ent_store_ent:
  assumes "page_ok e t" "i < 512" "j < 512"
  shows "ent (store64 m (t + 8 * of_nat i) v) t j = (if i = j then v else ent m t j)"
proof (cases "i = j")
  case False
  have "unat (t + of_nat (8 * i)) = unat t + 8 * i" "unat (t + of_nat (8 * j)) = unat t + 8 * j"
    using page_no_wrap [OF assms(1)] assms(2,3) by (intro unat_add_of_nat; simp)+
  then have "disjoint_ranges (t + of_nat (8 * j)) 8 (t + of_nat (8 * i)) 8"
    using page_no_wrap [OF assms(1)] assms(2,3) False by (auto simp: disjoint_ranges_def)
  then have "load64 (store64 m (t + of_nat (8 * i)) v) (t + of_nat (8 * j)) = load64 m (t + of_nat (8 * j))"
    by (rule load64_store64_disjoint)
  then show ?thesis using False by (simp add: ent_def)
qed (simp add: ent_def)

lemma ent_zero_page:
  assumes "page_ok e t" "i < 512"
  shows "ent (mem_write m t (replicate 4096 0)) t i = 0"
proof -
  have "mem_read (mem_write m t (replicate 4096 0)) (t + of_nat (8 * i)) 8 = replicate 8 0"
  proof (rule nth_equalityI)
    fix k assume "k < length (mem_read (mem_write m t (replicate 4096 0)) (t + of_nat (8 * i)) 8)"
    then have k: "k < 8" by simp
    have x: "unat (t + of_nat (8 * i) + of_nat k - t :: u64) = 8 * i + k"
    proof -
      have "t + of_nat (8 * i) + of_nat k - t = (of_nat (8 * i + k) :: u64)" by simp
      then show ?thesis using k assms(2) by (simp only: unat_of_nat) simp
    qed
    have "8 * i + k < 4096" using k assms(2) by simp
    then show "mem_read (mem_write m t (replicate 4096 0)) (t + of_nat (8 * i)) 8 ! k = replicate 8 0 ! k"
      using k by (simp only: nth_mem_read mem_write_def x length_replicate if_True nth_replicate)
  qed simp
  moreover have "from_le (replicate 8 0) = (0 :: u64)" by (simp add: numeral_eq_Suc)
  ultimately show ?thesis by (simp add: ent_def load64_def)
qed

subsection \<open>The pages of a table and its lookups\<close>

fun pt_pages :: "memory \<Rightarrow> nat \<Rightarrow> u64 \<Rightarrow> u64 multiset" where
  "pt_pages m 0 t = {#t#}"
| "pt_pages m (Suc l) t = add_mset t (\<Sum>i < 512.
     if ent m t i AND PTE_V = 0 then {#} else pt_pages m l (PTE2PA (ent m t i)))"

fun pt_slot :: "memory \<Rightarrow> nat \<Rightarrow> u64 \<Rightarrow> u64 \<Rightarrow> (u64 \<times> nat) option" where
  "pt_slot m 0 t va = Some (t, px 0 va)"
| "pt_slot m (Suc l) t va =
     (if ent m t (px (Suc l) va) AND PTE_V = 0 then None
      else pt_slot m l (PTE2PA (ent m t (px (Suc l) va))) va)"

definition pt_look :: "memory \<Rightarrow> nat \<Rightarrow> u64 \<Rightarrow> u64 \<Rightarrow> u64" where
  "pt_look m l t va = (case pt_slot m l t va of None \<Rightarrow> 0 | Some (p, i) \<Rightarrow> ent m p i)"

definition slot_addr :: "(u64 \<times> nat) option \<Rightarrow> u64" where
  "slot_addr r = (case r of None \<Rightarrow> 0 | Some (p, i) \<Rightarrow> p + 8 * of_nat i)"

definition nodup :: "'a multiset \<Rightarrow> bool" where
  "nodup M \<longleftrightarrow> (\<forall>x. count M x \<le> 1)"

lemma nodup_addD: "nodup (A + B) \<Longrightarrow> nodup A \<and> nodup B \<and> set_mset A \<inter> set_mset B = {}"
proof -
  assume a: "nodup (A + B)"
  have h: "count A x + count B x \<le> 1" for x using a by (simp add: nodup_def)
  have "count A x \<le> 1" "count B x \<le> 1" "x \<notin># A \<or> x \<notin># B" for x
    using h [of x] by (auto simp: count_greater_zero_iff [symmetric] simp del: count_greater_zero_iff)
  then show ?thesis by (auto simp: nodup_def)
qed

lemma pt_look_simps [simp]:
  "pt_look m 0 t va = ent m t (px 0 va)"
  "pt_look m (Suc l) t va = (if ent m t (px (Suc l) va) AND PTE_V = 0 then 0
     else pt_look m l (PTE2PA (ent m t (px (Suc l) va))) va)"
  by (simp_all add: pt_look_def)

text \<open>Everything about a table depends only on its own pages.\<close>

lemma pt_frame:
  assumes "\<And>p. p \<in># pt_pages m l t \<Longrightarrow> same_page m m' p"
  shows "pt_pages m' l t = pt_pages m l t \<and> pt_slot m' l t va = pt_slot m l t va \<and>
    pt_look m' l t va = pt_look m l t va"
  using assms
proof (induction l arbitrary: t)
  case 0
  then show ?case by (simp add: ent_same_page)
next
  case (Suc l)
  have t: "ent m' t i = ent m t i" if "i < 512" for i
    using Suc.prems [of t] that by (simp add: ent_same_page)
  have c: "same_page m m' p" if "i < 512" "ent m t i AND PTE_V \<noteq> 0"
      "p \<in># pt_pages m l (PTE2PA (ent m t i))" for i p
  proof (rule Suc.prems)
    have "p \<in># (\<Sum>i < 512. if ent m t i AND PTE_V = 0 then {#} else pt_pages m l (PTE2PA (ent m t i)))"
      using that by (subst sum.remove [of _ i]) auto
    then show "p \<in># pt_pages m (Suc l) t" by simp
  qed
  have IH: "pt_pages m' l (PTE2PA (ent m t i)) = pt_pages m l (PTE2PA (ent m t i)) \<and>
      pt_slot m' l (PTE2PA (ent m t i)) va = pt_slot m l (PTE2PA (ent m t i)) va \<and>
      pt_look m' l (PTE2PA (ent m t i)) va = pt_look m l (PTE2PA (ent m t i)) va"
    if "i < 512" "ent m t i AND PTE_V \<noteq> 0" for i
    by (rule Suc.IH) (rule c [OF that])
  have "(\<Sum>i < 512. if ent m' t i AND PTE_V = 0 then {#} else pt_pages m' l (PTE2PA (ent m' t i))) =
      (\<Sum>i < 512. if ent m t i AND PTE_V = 0 then {#} else pt_pages m l (PTE2PA (ent m t i)))"
    by (rule sum.cong) (simp_all add: t IH)
  then show ?case using t IH by simp
qed

lemma pt_slot_in_pages:
  "pt_slot m l t va = Some (p, i) \<Longrightarrow> p \<in># pt_pages m l t \<and> i = px 0 va"
proof (induction l arbitrary: t)
  case (Suc l)
  let ?j = "px (Suc l) va"
  have v: "ent m t ?j AND PTE_V \<noteq> 0" and "pt_slot m l (PTE2PA (ent m t ?j)) va = Some (p, i)"
    using Suc.prems by (auto split: if_splits)
  then have "p \<in># pt_pages m l (PTE2PA (ent m t ?j)) \<and> i = px 0 va" by (intro Suc.IH)
  moreover have "pt_pages m l (PTE2PA (ent m t ?j)) \<subseteq>#
      (\<Sum>i < 512. if ent m t i AND PTE_V = 0 then {#} else pt_pages m l (PTE2PA (ent m t i)))"
    using v by (subst sum.remove [of _ ?j]) auto
  ultimately show ?case by (auto dest: mset_subset_eqD)
qed simp

subsection \<open>walk\<close>

lemma walk_levels_noalloc:
  "walk_levels l t va False s = Done (slot_addr (pt_slot (mem s) l t va)) s"
  by (induction l arbitrary: t) (simp_all add: kmon_simps slot_addr_def ent_def)

lemma PTE2PA_PA2PTE:
  assumes "pg_aligned p" "f AND NOT 0x3FF = 0"
  shows "PTE2PA (PA2PTE p OR f) = p"
proof (rule bit_word_eqI)
  fix n assume n: "n < LENGTH(64)"
  have p: "\<not> bit p k" if "k < 12" for k
  proof -
    have "PGSIZE - 1 = mask 12" by (simp add: PGSIZE_def mask_eq_exp_minus_1)
    then have "p AND mask 12 = 0" using assms(1) mod_PGSIZE [of p] by (simp add: pg_aligned_def)
    then have "\<not> (bit p k \<and> bit (mask 12 :: u64) k)" by (metis bit_0_eq bit_and_iff bot_apply bot_bool_def)
    then show ?thesis using that by (simp add: bit_mask_iff)
  qed
  have f: "\<not> bit f k" if "10 \<le> k" "k < 64" for k
  proof -
    have "f AND NOT (mask 10) = 0" using assms(2) by (simp add: mask_eq_exp_minus_1)
    then have "\<not> (bit f k \<and> bit (NOT (mask 10) :: u64) k)"
      by (metis bit_0_eq bit_and_iff bot_apply bot_bool_def)
    then show ?thesis using that by (simp add: bit_not_iff bit_mask_iff)
  qed
  show "bit (PTE2PA (PA2PTE p OR f)) n = bit p n"
    using n p [of n] f [of "n - 2"]
    by (cases "n < 12") (auto simp: PTE2PA_def PA2PTE_def bit_push_bit_iff bit_drop_bit_eq bit_or_iff)
qed

lemma PTE_V_nz [simp]: "PTE_V \<noteq> 0"
  by (simp add: PTE_V_def)

subsection \<open>walk with allocation\<close>

definition pt_others :: "memory \<Rightarrow> nat \<Rightarrow> u64 \<Rightarrow> nat \<Rightarrow> u64 multiset" where
  "pt_others m l t j = (\<Sum>i \<in> {..<512} - {j}.
     if ent m t i AND PTE_V = 0 then {#} else pt_pages m l (PTE2PA (ent m t i)))"

lemma pt_pages_split:
  "j < 512 \<Longrightarrow> pt_pages m (Suc l) t = add_mset t (pt_others m l t j +
     (if ent m t j AND PTE_V = 0 then {#} else pt_pages m l (PTE2PA (ent m t j))))"
  by (simp add: pt_others_def sum.remove [of "{..<512}" j] add.commute)

lemma pt_others_mem:
  assumes "i < 512" "i \<noteq> j" "ent m t i AND PTE_V \<noteq> 0" "p \<in># pt_pages m l (PTE2PA (ent m t i))"
  shows "p \<in># pt_others m l t j"
  unfolding pt_others_def using assms by (subst sum.remove [of _ i]) auto

lemma pt_others_frame:
  assumes e: "\<And>i. i < 512 \<Longrightarrow> i \<noteq> j \<Longrightarrow> ent m' t i = ent m t i"
    and p: "\<And>p. p \<in># pt_others m l t j \<Longrightarrow> same_page m m' p"
  shows "pt_others m' l t j = pt_others m l t j"
    and "\<And>i. i < 512 \<Longrightarrow> i \<noteq> j \<Longrightarrow> ent m t i AND PTE_V \<noteq> 0 \<Longrightarrow>
      pt_look m' l (PTE2PA (ent m t i)) va = pt_look m l (PTE2PA (ent m t i)) va"
proof -
  have f: "pt_pages m' l (PTE2PA (ent m t i)) = pt_pages m l (PTE2PA (ent m t i)) \<and>
      pt_slot m' l (PTE2PA (ent m t i)) va = pt_slot m l (PTE2PA (ent m t i)) va \<and>
      pt_look m' l (PTE2PA (ent m t i)) va = pt_look m l (PTE2PA (ent m t i)) va"
    if "i < 512" "i \<noteq> j" "ent m t i AND PTE_V \<noteq> 0" for i
    by (rule pt_frame) (rule p, rule pt_others_mem [OF that])
  show "pt_others m' l t j = pt_others m l t j"
    unfolding pt_others_def by (rule sum.cong) (use e f in auto)
  show "pt_look m' l (PTE2PA (ent m t i)) va = pt_look m l (PTE2PA (ent m t i)) va"
    if "i < 512" "i \<noteq> j" "ent m t i AND PTE_V \<noteq> 0" for i
    using f [OF that] by blast
qed

lemma zero_table:
  assumes "\<And>i. i < 512 \<Longrightarrow> ent m t i = 0"
  shows "pt_pages m l t = {#t#}" "pt_look m l t va = 0"
  using assms by (cases l; simp)+

definition wf_pt :: "nat \<Rightarrow> u64 \<Rightarrow> 'z kmst_scheme \<Rightarrow> u64 list \<Rightarrow> bool" where
  "wf_pt l t s fl \<longleftrightarrow> kmem_ready s \<and> kmem_inv s fl \<and> nodup (pt_pages (mem s) l t + mset fl) \<and>
     (\<forall>p. p \<in># pt_pages (mem s) l t \<longrightarrow> page_ok (k_end s) p)"

text \<open>
  How a table may grow: pages move from the free list into the table, lookups stay, and no
  other page of memory changes.
\<close>

definition pt_grow :: "nat \<Rightarrow> u64 \<Rightarrow> 'z kmst_scheme \<Rightarrow> u64 list \<Rightarrow> 'z kmst_scheme \<Rightarrow> u64 list \<Rightarrow> bool" where
  "pt_grow l t s fl s' fl' \<longleftrightarrow>
     s' = s\<lparr>mem := mem s', freelist := freelist s'\<rparr> \<and> wf_pt l t s' fl' \<and>
     pt_pages (mem s') l t + mset fl' = pt_pages (mem s) l t + mset fl \<and>
     (\<forall>va. pt_look (mem s') l t va = pt_look (mem s) l t va) \<and>
     (\<forall>p. pg_aligned p \<longrightarrow> p \<notin># pt_pages (mem s) l t + mset fl \<longrightarrow> same_page (mem s) (mem s') p)"

lemma pt_grow_refl: "wf_pt l t s fl \<Longrightarrow> pt_grow l t s fl s fl"
  by (simp add: pt_grow_def)

lemma pt_grow_trans:
  assumes "pt_grow l t s fl s' fl'" "pt_grow l t s' fl' s'' fl''"
  shows "pt_grow l t s fl s'' fl''"
proof -
  have e: "s' = s\<lparr>mem := mem s', freelist := freelist s'\<rparr>"
      "s'' = s'\<lparr>mem := mem s'', freelist := freelist s''\<rparr>"
    using assms unfolding pt_grow_def by blast+
  have "s'\<lparr>mem := a, freelist := b\<rparr> = s\<lparr>mem := a, freelist := b\<rparr>" for a b
    by (subst e(1)) simp
  then have "s'' = s\<lparr>mem := mem s'', freelist := freelist s''\<rparr>" using e(2) by simp
  then show ?thesis using assms unfolding pt_grow_def by (auto intro: same_page_trans)
qed

lemma page_ok_aligned: "page_ok e p \<Longrightarrow> pg_aligned p"
  by (simp add: page_ok_def pg_aligned_def)

lemma kmem_inv_same_page:
  assumes "kmem_inv s fl" "\<And>p. p \<in> set fl \<Longrightarrow> same_page (mem s) m' p"
  shows "kmem_inv (s\<lparr>mem := m'\<rparr>) fl"
proof -
  have "flist m' r ps" if "flist (mem s) r ps" "set ps \<subseteq> set fl" for r ps
    using that
  proof (induction ps arbitrary: r)
    case (Cons p ps)
    have "load64 m' p = load64 (mem s) p"
      using ent_same_page [of "mem s" m' p 0] assms(2) [of p] Cons.prems by (simp add: ent_def)
    then show ?case using Cons by simp
  qed simp
  then show ?thesis using assms(1) by (simp add: kmem_inv_def)
qed

lemma pt_grow_k_end:
  assumes "pt_grow l t s fl s' fl'"
  shows "k_end s' = k_end s"
proof -
  have "s' = s\<lparr>mem := mem s', freelist := freelist s'\<rparr>" using assms unfolding pt_grow_def by blast
  then have "k_end s' = k_end (s\<lparr>mem := mem s', freelist := freelist s'\<rparr>)" by (rule arg_cong)
  then show ?thesis by simp
qed

declare pt_pages.simps(2) [simp del]

text \<open>Growth of a subtable is growth of the table.\<close>

lemma wf_pt_child:
  assumes "wf_pt (Suc l) t s fl" "j < 512" "ent (mem s) t j AND PTE_V \<noteq> 0"
  shows "wf_pt l (PTE2PA (ent (mem s) t j)) s fl"
    and "set_mset (add_mset t (pt_others (mem s) l t j)) \<inter>
      set_mset (pt_pages (mem s) l (PTE2PA (ent (mem s) t j)) + mset fl) = {}"
proof -
  let ?c = "PTE2PA (ent (mem s) t j)"
  have sp: "pt_pages (mem s) (Suc l) t + mset fl =
      add_mset t (pt_others (mem s) l t j) + (pt_pages (mem s) l ?c + mset fl)"
    using assms(2,3) by (simp add: pt_pages_split add.assoc)
  have nd: "nodup (add_mset t (pt_others (mem s) l t j) + (pt_pages (mem s) l ?c + mset fl))"
    using assms(1) unfolding wf_pt_def sp by blast
  show "set_mset (add_mset t (pt_others (mem s) l t j)) \<inter>
      set_mset (pt_pages (mem s) l ?c + mset fl) = {}"
    using nodup_addD [OF nd] by blast
  have "page_ok (k_end s) p" if "p \<in># pt_pages (mem s) l ?c" for p
    using assms that unfolding wf_pt_def by (auto simp: pt_pages_split)
  then show "wf_pt l ?c s fl"
    using assms(1) nodup_addD [OF nd] unfolding wf_pt_def by blast
qed

lemma pt_grow_child:
  assumes wf: "wf_pt (Suc l) t s fl" and j: "j < 512" "ent (mem s) t j AND PTE_V \<noteq> 0"
    and g: "pt_grow l (PTE2PA (ent (mem s) t j)) s fl s' fl'"
  shows "pt_grow (Suc l) t s fl s' fl'" "ent (mem s') t j = ent (mem s) t j"
proof -
  let ?m = "mem s" and ?m' = "mem s'" and ?c = "PTE2PA (ent (mem s) t j)"
  have ok: "page_ok (k_end s) p" if "p \<in># add_mset t (pt_others ?m l t j)" for p
    using wf that j unfolding wf_pt_def by (auto simp: pt_pages_split)
  have same: "same_page ?m ?m' p" if "p \<in># add_mset t (pt_others ?m l t j)" for p
  proof -
    have "p \<notin># pt_pages ?m l ?c + mset fl" using wf_pt_child(2) [OF wf j] that by blast
    then show ?thesis using g page_ok_aligned [OF ok [OF that]] unfolding pt_grow_def by blast
  qed
  have et: "ent ?m' t i = ent ?m t i" if "i < 512" for i
    using same [of t] that by (simp add: ent_same_page)
  show ej: "ent ?m' t j = ent ?m t j" using et j(1) .
  have fr: "pt_others ?m' l t j = pt_others ?m l t j"
    "\<And>i va. i < 512 \<Longrightarrow> i \<noteq> j \<Longrightarrow> ent ?m t i AND PTE_V \<noteq> 0 \<Longrightarrow>
      pt_look ?m' l (PTE2PA (ent ?m t i)) va = pt_look ?m l (PTE2PA (ent ?m t i)) va"
    using pt_others_frame [of j ?m' t ?m l] et same by auto
  have pages: "pt_pages ?m' (Suc l) t = add_mset t (pt_others ?m l t j + pt_pages ?m' l ?c)"
    using j by (simp add: pt_pages_split fr ej)
  have cons: "pt_pages ?m' (Suc l) t + mset fl' = pt_pages ?m (Suc l) t + mset fl"
    unfolding pages using g j by (simp add: pt_pages_split pt_grow_def add.assoc)
  have look: "pt_look ?m' (Suc l) t va = pt_look ?m (Suc l) t va" for va
  proof (cases "px (Suc l) va = j")
    case True
    have "pt_look ?m' l ?c va = pt_look ?m l ?c va" using g unfolding pt_grow_def by blast
    then show ?thesis by (simp add: True ej)
  next
    case False
    then show ?thesis by (simp add: et fr(2))
  qed
  note kend = pt_grow_k_end [OF g]
  have "wf_pt (Suc l) t s' fl'"
    using wf g ok cons kend unfolding wf_pt_def pt_grow_def pages by (auto simp: pages)
  then show "pt_grow (Suc l) t s fl s' fl'"
    using g cons look j unfolding pt_grow_def by (auto simp: pt_pages_split)
qed

text \<open>Linking a fresh, zeroed table page into an empty entry.\<close>

definition link_table :: "u64 \<Rightarrow> nat \<Rightarrow> u64 \<Rightarrow> 'z kmst_scheme \<Rightarrow> 'z kmst_scheme" where
  "link_table t j pg s = s\<lparr>freelist := load64 (mem s) pg,
     mem := store64 (mem_write (mem_write (mem s) pg (replicate 4096 5)) pg (replicate 4096 0))
       (t + 8 * of_nat j) (PA2PTE pg OR PTE_V)\<rparr>"

lemma link_table_grow:
  assumes wf: "wf_pt (Suc l) t s (pg # fl)" and j: "j < 512" "ent (mem s) t j AND PTE_V = 0"
  shows "pt_grow (Suc l) t s (pg # fl) (link_table t j pg s) fl"
    and "ent (mem (link_table t j pg s)) t j = PA2PTE pg OR PTE_V"
    and "PTE2PA (PA2PTE pg OR PTE_V) = pg"
proof -
  let ?s' = "link_table t j pg s" and ?m = "mem s"
  define m2 where "m2 = mem_write (mem_write ?m pg (replicate 4096 5)) pg (replicate 4096 0)"
  define m' where "m' = store64 m2 (t + 8 * of_nat j) (PA2PTE pg OR PTE_V)"
  have s': "?s' = s\<lparr>freelist := load64 ?m pg, mem := m'\<rparr>" by (simp add: link_table_def m'_def m2_def)
  have sp: "pt_pages ?m (Suc l) t = add_mset t (pt_others ?m l t j)"
    using j by (simp add: pt_pages_split)
  have inv: "kmem_inv s (pg # fl)" using wf by (simp add: wf_pt_def)
  have okp: "page_ok (k_end s) pg" "\<And>p. p \<in> set fl \<Longrightarrow> page_ok (k_end s) p"
    using inv by (simp_all add: kmem_inv_def)
  have okt: "page_ok (k_end s) p" if "p \<in># add_mset t (pt_others ?m l t j)" for p
    using wf that unfolding wf_pt_def sp by blast
  have nd: "nodup (add_mset t (pt_others ?m l t j) + mset (pg # fl))"
    using wf unfolding wf_pt_def sp by blast
  have dis: "set_mset (add_mset t (pt_others ?m l t j)) \<inter> set (pg # fl) = {}"
    using nodup_addD [OF nd] by simp
  have dis2: "t \<notin># pt_others ?m l t j" "pg \<notin> set fl"
    using nd inv nodup_addD [of "{#t#}" "pt_others ?m l t j + mset (pg # fl)"]
    by (auto simp: kmem_inv_def)
  note al = page_ok_aligned
  have tpg: "t \<noteq> pg" using dis by auto
  have same2: "same_page ?m m2 p" if "pg_aligned p" "p \<noteq> pg" for p
    unfolding m2_def
    by (rule same_page_trans; rule same_page_write_page) (use that al [OF okp(1)] in simp_all)
  have same': "same_page m2 m' p" if "pg_aligned p" "p \<noteq> t" for p
    unfolding m'_def by (rule same_page_store_ent) (use that al [OF okt] j in simp_all)
  have same: "same_page ?m m' p" if "pg_aligned p" "p \<noteq> pg" "p \<noteq> t" for p
    using same2 [OF that(1,2)] same' [OF that(1,3)] by (rule same_page_trans)
  have et: "ent m' t i = (if i = j then PA2PTE pg OR PTE_V else ent ?m t i)" if "i < 512" for i
  proof -
    have "ent m2 t i = ent ?m t i" using same2 [of t] tpg al [OF okt] that by (simp add: ent_same_page)
    then show ?thesis
      unfolding m'_def using ent_store_ent [OF okt j(1) that, of t] by simp
  qed
  have ep: "ent m' pg i = 0" if "i < 512" for i
    using ent_same_page [OF same' that, of pg] al [OF okp(1)] tpg ent_zero_page [OF okp(1) that]
    by (simp add: m2_def)
  show ej: "ent (mem ?s') t j = PA2PTE pg OR PTE_V" using et [OF j(1)] by (simp add: s')
  show pg: "PTE2PA (PA2PTE pg OR PTE_V) = pg"
    using PTE2PA_PA2PTE [OF al [OF okp(1)], of PTE_V] by (simp add: PTE_V_def)
  have so: "same_page ?m m' p" if "p \<in># pt_others ?m l t j" for p
    using same [of p] al [OF okt, of p] that dis dis2 by auto
  have fr: "pt_others m' l t j = pt_others ?m l t j"
    "\<And>i va. i < 512 \<Longrightarrow> i \<noteq> j \<Longrightarrow> ent ?m t i AND PTE_V \<noteq> 0 \<Longrightarrow>
      pt_look m' l (PTE2PA (ent ?m t i)) va = pt_look ?m l (PTE2PA (ent ?m t i)) va"
    using pt_others_frame [of j m' t ?m l] et so by auto
  have pages: "pt_pages m' (Suc l) t = add_mset t (pt_others ?m l t j) + {#pg#}"
    using j(1) et [OF j(1)] zero_table(1) [of m' pg l] ep
    by (simp add: pt_pages_split fr pg)
  have look: "pt_look m' (Suc l) t va = pt_look ?m (Suc l) t va" for va
    using et [of "px (Suc l) va"] fr(2) j(2) zero_table(2) [of m' pg l] ep
    by (simp add: pg)
  have "kmem_inv ?s' fl"
  proof -
    have "kmem_inv (s\<lparr>freelist := load64 ?m pg, mem := mem_write ?m pg (replicate 4096 5)\<rparr>) fl"
      using kalloc_inv [OF inv] .
    moreover have "same_page (mem_write ?m pg (replicate 4096 5)) m' p" if "p \<in> set fl" for p
    proof -
      have p: "pg_aligned p" "p \<noteq> pg" "p \<noteq> t" using that okp(2) dis dis2 al by auto
      have "same_page (mem_write ?m pg (replicate 4096 5)) m2 p"
        unfolding m2_def by (rule same_page_write_page) (use p al [OF okp(1)] in simp_all)
      then show ?thesis using same' [OF p(1,3)] by (rule same_page_trans)
    qed
    ultimately show ?thesis
      using kmem_inv_same_page [of "s\<lparr>freelist := load64 ?m pg, mem := mem_write ?m pg (replicate 4096 5)\<rparr>" fl m']
      by (simp add: s')
  qed
  moreover have "nodup (pt_pages m' (Suc l) t + mset fl)"
    using nd by (simp add: pages)
  moreover have "kmem_ready ?s'" using wf by (simp add: wf_pt_def kmem_ready_def s')
  ultimately have "wf_pt (Suc l) t ?s' fl"
    using okt okp by (auto simp: wf_pt_def s' pages)
  then show "pt_grow (Suc l) t s (pg # fl) ?s' fl"
    using look same by (simp add: pt_grow_def s' pages sp)
qed

lemma walk_levels_alloc:
  assumes "wf_pt l t s fl"
  shows "\<exists>a s' fl'. walk_levels l t va True s = Done a s' \<and> pt_grow l t s fl s' fl' \<and>
    (a = 0 \<and> fl' = [] \<or> (\<exists>p. pt_slot (mem s') l t va = Some (p, px 0 va) \<and> a = p + 8 * PX 0 va))"
  using assms
proof (induction l arbitrary: t s fl)
  case 0
  then show ?case by (auto simp: ret_def intro: pt_grow_refl)
next
  case (Suc l)
  let ?j = "px (Suc l) va" and ?e = "ent (mem s) t (px (Suc l) va)"
  show ?case
  proof (cases "?e AND PTE_V = 0")
    case False
    obtain a s' fl' where r: "walk_levels l (PTE2PA ?e) va True s = Done a s'"
        "pt_grow l (PTE2PA ?e) s fl s' fl'"
        "a = 0 \<and> fl' = [] \<or> (\<exists>p. pt_slot (mem s') l (PTE2PA ?e) va = Some (p, px 0 va) \<and> a = p + 8 * PX 0 va)"
      using Suc.IH [OF wf_pt_child(1) [OF Suc.prems px_less False]] by blast
    have "walk_levels (Suc l) t va True s = Done a s'"
      using r(1) False by (simp add: kmon_simps ent_def)
    then show ?thesis
      using r(3) pt_grow_child [OF Suc.prems px_less False r(2)] False by auto
  next
    case True
    show ?thesis
    proof (cases fl)
      case Nil
      then have "walk_levels (Suc l) t va True s = Done 0 s"
        using True Suc.prems kpool.al_nil [of s]
        by (simp add: kmon_simps ent_def wf_pt_def bnd_run)
      then show ?thesis using Nil Suc.prems by (blast intro: pt_grow_refl)
    next
      case (Cons pg fl2)
      let ?s1 = "link_table t ?j pg s"
      note wf = Suc.prems [unfolded Cons]
      note lk = link_table_grow [OF wf px_less True]
      have inv: "kmem_inv s (pg # fl2)" "kmem_ready s" "pg \<noteq> 0"
        using wf by (auto simp: wf_pt_def kmem_inv_def page_ok_def)
      have v: "ent (mem ?s1) t ?j AND PTE_V \<noteq> 0" by (simp add: lk(2))
      have wf1: "wf_pt (Suc l) t ?s1 fl2" using lk(1) by (simp add: pt_grow_def)
      have c: "PTE2PA (ent (mem ?s1) t ?j) = pg" by (simp add: lk(2,3))
      obtain a s' fl' where r: "walk_levels l pg va True ?s1 = Done a s'"
          "pt_grow l pg ?s1 fl2 s' fl'"
          "a = 0 \<and> fl' = [] \<or> (\<exists>p. pt_slot (mem s') l pg va = Some (p, px 0 va) \<and> a = p + 8 * PX 0 va)"
        using Suc.IH [OF wf_pt_child(1) [OF wf1 px_less v]] unfolding c by blast
      have g: "pt_grow (Suc l) t ?s1 fl2 s' fl'" "ent (mem s') t ?j = ent (mem ?s1) t ?j"
        using pt_grow_child [OF wf1 px_less v, of s' fl'] r(2) unfolding c by blast+
      have "walk_levels (Suc l) t va True s = Done a s'"
        using True inv r(1) kalloc_page [of s pg fl2]
        by (simp add: kmon_simps ent_def kmem_ready_def bnd_run memset_page link_table_def)
      moreover have "pt_slot (mem s') (Suc l) t va = pt_slot (mem s') l pg va"
        by (simp add: g(2) lk(2,3))
      ultimately show ?thesis
        using r(3) pt_grow_trans [OF lk(1) g(1)] Cons by auto
    qed
  qed
qed

subsection \<open>Storing a leaf entry\<close>

lemma subtable_change:
  assumes nd: "nodup (pt_pages m (Suc l) t)" and al: "\<And>p. p \<in># pt_pages m (Suc l) t \<Longrightarrow> pg_aligned p"
    and j: "j < 512" "ent m t j AND PTE_V \<noteq> 0"
    and same: "\<And>p. pg_aligned p \<Longrightarrow> p \<notin># pt_pages m l (PTE2PA (ent m t j)) \<Longrightarrow> same_page m m' p"
    and pages: "pt_pages m' l (PTE2PA (ent m t j)) = pt_pages m l (PTE2PA (ent m t j))"
  shows "pt_pages m' (Suc l) t = pt_pages m (Suc l) t \<and> ent m' t j = ent m t j \<and>
    pt_look m' (Suc l) t va = (if px (Suc l) va = j then pt_look m' l (PTE2PA (ent m t j)) va
      else pt_look m (Suc l) t va)"
proof -
  let ?c = "PTE2PA (ent m t j)"
  have sp: "pt_pages m (Suc l) t = add_mset t (pt_others m l t j) + pt_pages m l ?c"
    using j by (simp add: pt_pages_split)
  have "same_page m m' p" if "p \<in># add_mset t (pt_others m l t j)" for p
  proof (rule same)
    show "pg_aligned p" by (rule al) (use that in \<open>auto simp: sp\<close>)
    show "p \<notin># pt_pages m l ?c" using nd that nodup_addD unfolding sp by blast
  qed
  then have f: "same_page m m' t" "\<And>p. p \<in># pt_others m l t j \<Longrightarrow> same_page m m' p" by simp_all
  have et: "ent m' t i = ent m t i" if "i < 512" for i using f(1) that by (rule ent_same_page)
  note fr = pt_others_frame [of j m' t m l, OF et f(2)]
  show ?thesis
    using j pages by (simp add: pt_pages_split fr(1) et fr(2))
qed

lemma store_leaf:
  assumes "nodup (pt_pages m l t)" "\<And>p. p \<in># pt_pages m l t \<Longrightarrow> page_ok e p"
    and "pt_slot m l t va = Some (p, px 0 va)"
  shows "pt_pages (store64 m (p + 8 * PX 0 va) v) l t = pt_pages m l t \<and>
    pt_look (store64 m (p + 8 * PX 0 va) v) l t va' =
      (if \<forall>k \<le> l. px k va' = px k va then v else pt_look m l t va')"
  using assms
proof (induction l arbitrary: t)
  case 0
  then show ?case
    using ent_store_ent [of e t "px 0 va" "px 0 va'" m v] by (auto simp: pt_pages.simps)
next
  case (Suc l)
  let ?j = "px (Suc l) va" and ?m' = "store64 m (p + 8 * PX 0 va) v"
  let ?c = "PTE2PA (ent m t ?j)"
  have v: "ent m t ?j AND PTE_V \<noteq> 0" and sl: "pt_slot m l ?c va = Some (p, px 0 va)"
    using Suc.prems(3) by (auto split: if_splits)
  have sp: "pt_pages m (Suc l) t = add_mset t (pt_others m l t ?j) + pt_pages m l ?c"
    using v by (simp add: pt_pages_split [of ?j])
  have nd: "nodup (pt_pages m l ?c)" using Suc.prems(1) nodup_addD unfolding sp by blast
  have IH: "pt_pages ?m' l ?c = pt_pages m l ?c \<and> pt_look ?m' l ?c va' =
      (if \<forall>k \<le> l. px k va' = px k va then v else pt_look m l ?c va')"
    by (rule Suc.IH [OF nd _ sl]) (use Suc.prems(2) in \<open>simp add: sp\<close>)
  have pin: "p \<in># pt_pages m l ?c" using pt_slot_in_pages [OF sl] by blast
  then have okp: "page_ok e p" using Suc.prems(2) by (simp add: sp)
  have same: "same_page m ?m' q" if "pg_aligned q" "q \<notin># pt_pages m l ?c" for q
    using same_page_store_ent [of q p "px 0 va" m v] that pin page_ok_aligned [OF okp] by auto
  have "pt_pages ?m' (Suc l) t = pt_pages m (Suc l) t \<and> ent ?m' t ?j = ent m t ?j \<and>
    pt_look ?m' (Suc l) t va' = (if px (Suc l) va' = ?j then pt_look ?m' l ?c va'
      else pt_look m (Suc l) t va')"
    by (rule subtable_change)
      (use Suc.prems(1,2) v same IH page_ok_aligned in \<open>auto simp del: pt_look_simps\<close>)
  then show ?case using IH v by (auto simp: le_Suc_eq)
qed

text \<open>The translation of a table: virtual page numbers to entries, zero where none is set.\<close>

definition vpn :: "u64 \<Rightarrow> nat" where
  "vpn va = unat va div 4096"

definition pt_map :: "memory \<Rightarrow> u64 \<Rightarrow> nat \<Rightarrow> u64" where
  "pt_map m t n = pt_look m 2 t (of_nat n * PGSIZE)"

lemma px_vpn: "px l va = vpn va div 2 ^ (9 * l) mod 512"
  by (simp add: px_eq vpn_def power_add div_mult2_eq)

lemma vpn_of_nat: "n < 2 ^ 26 \<Longrightarrow> vpn (of_nat n * PGSIZE) = n"
proof -
  assume "n < 2 ^ 26"
  then have "unat (of_nat (n * 4096) :: u64) = n * 4096" by (simp only: unat_of_nat) simp
  moreover have "of_nat n * PGSIZE = (of_nat (n * 4096) :: u64)" by (simp add: PGSIZE_def)
  ultimately have "unat (of_nat n * PGSIZE) = n * 4096" by (simp only:)
  then show ?thesis by (simp add: vpn_def)
qed

lemma vpn_less: "va < MAXVA \<longleftrightarrow> vpn va < 2 ^ 26"
  by (simp add: vpn_def word_less_nat_alt MAXVA_eq div_less_iff_less_mult)

lemma pt_slot_vpn: "vpn va = vpn va' \<Longrightarrow> pt_slot m l t va = pt_slot m l t va'"
  by (induction l arbitrary: t) (simp_all add: px_vpn)

lemma pt_look_map: "va < MAXVA \<Longrightarrow> pt_look m 2 t va = pt_map m t (vpn va)"
  using pt_slot_vpn [of va "of_nat (vpn va) * PGSIZE" m 2 t]
  by (simp add: pt_map_def pt_look_def vpn_of_nat vpn_less)

lemma px_eq_vpn:
  assumes "va < MAXVA" "va' < MAXVA"
  shows "(\<forall>k \<le> 2. px k va' = px k va) \<longleftrightarrow> vpn va' = vpn va"
proof
  assume "\<forall>k \<le> 2. px k va' = px k va"
  then show "vpn va' = vpn va" unfolding vpn_def by (intro px_inj) (use assms in auto)
qed (simp add: px_vpn)

subsection \<open>mappages\<close>

definition map_range :: "(nat \<Rightarrow> u64) \<Rightarrow> nat \<Rightarrow> nat \<Rightarrow> u64 \<Rightarrow> u64 \<Rightarrow> nat \<Rightarrow> u64" where
  "map_range M v k pa perm = (\<lambda>i. if v \<le> i \<and> i < v + k
     then PA2PTE (pa + of_nat (i - v) * PGSIZE) OR perm OR PTE_V else M i)"

lemma map_range_0 [simp]: "map_range M v 0 pa perm = M"
  by (auto simp: map_range_def fun_eq_iff)
lemma map_range_Suc:
  "map_range (M(v := PA2PTE pa OR perm OR PTE_V)) (Suc v) k (pa + PGSIZE) perm = map_range M v (Suc k) pa perm"
proof
  fix i
  have "PGSIZE + of_nat (i - Suc v) * PGSIZE = of_nat (i - v) * PGSIZE" if "Suc v \<le> i"
  proof -
    have "i - v = Suc (i - Suc v)" using that by simp
    then show ?thesis by (simp add: algebra_simps)
  qed
  then show "map_range (M(v := PA2PTE pa OR perm OR PTE_V)) (Suc v) k (pa + PGSIZE) perm i =
      map_range M v (Suc k) pa perm i"
    by (cases "i = v") (auto simp: map_range_def add.assoc)
qed

text \<open>What an operation on a table may do: change its translation and use free pages.\<close>

definition pt_upd :: "u64 \<Rightarrow> 'z kmst_scheme \<Rightarrow> u64 list \<Rightarrow> 'z kmst_scheme \<Rightarrow> u64 list \<Rightarrow> (nat \<Rightarrow> u64) \<Rightarrow> bool" where
  "pt_upd t s fl s' fl' M \<longleftrightarrow>
     s' = s\<lparr>mem := mem s', freelist := freelist s'\<rparr> \<and> wf_pt 2 t s' fl' \<and>
     pt_pages (mem s') 2 t + mset fl' = pt_pages (mem s) 2 t + mset fl \<and>
     (\<forall>n < 2 ^ 26. pt_map (mem s') t n = M n) \<and>
     (\<forall>p. pg_aligned p \<longrightarrow> p \<notin># pt_pages (mem s) 2 t + mset fl \<longrightarrow> same_page (mem s) (mem s') p)"

lemma pt_grow_upd: "pt_grow 2 t s fl s' fl' \<Longrightarrow> pt_upd t s fl s' fl' (pt_map (mem s) t)"
  by (simp add: pt_grow_def pt_upd_def pt_map_def)

lemma pt_upd_trans:
  assumes "pt_upd t s fl s' fl' M" "pt_upd t s' fl' s'' fl'' M'"
  shows "pt_upd t s fl s'' fl'' M'"
proof -
  have e: "s' = s\<lparr>mem := mem s', freelist := freelist s'\<rparr>"
      "s'' = s'\<lparr>mem := mem s'', freelist := freelist s''\<rparr>"
    using assms unfolding pt_upd_def by blast+
  have "s'\<lparr>mem := a, freelist := b\<rparr> = s\<lparr>mem := a, freelist := b\<rparr>" for a b
    by (subst e(1)) simp
  then have "s'' = s\<lparr>mem := mem s'', freelist := freelist s''\<rparr>" using e(2) by simp
  then show ?thesis using assms unfolding pt_upd_def by (auto intro: same_page_trans)
qed

lemma store_leaf_upd:
  assumes wf: "wf_pt 2 t s fl" and sl: "pt_slot (mem s) 2 t va = Some (p, px 0 va)" and va: "va < MAXVA"
  shows "pt_upd t s fl (s\<lparr>mem := store64 (mem s) (p + 8 * PX 0 va) v\<rparr>) fl ((pt_map (mem s) t)(vpn va := v))"
proof -
  let ?m' = "store64 (mem s) (p + 8 * PX 0 va) v"
  have nd: "nodup (pt_pages (mem s) 2 t + mset fl)" and ok: "\<And>q. q \<in># pt_pages (mem s) 2 t \<Longrightarrow> page_ok (k_end s) q"
    using wf unfolding wf_pt_def by blast+
  note nd' = nodup_addD [OF nd]
  have pin: "p \<in># pt_pages (mem s) 2 t" using pt_slot_in_pages [OF sl] by blast
  have st: "pt_pages ?m' 2 t = pt_pages (mem s) 2 t"
    "pt_look ?m' 2 t w = (if \<forall>k \<le> 2. px k w = px k va then v else pt_look (mem s) 2 t w)" for w
    using store_leaf [of "mem s" 2 t, OF conjunct1 [OF nd'] ok sl] by blast+
  have "pt_map ?m' t n = ((pt_map (mem s) t)(vpn va := v)) n" if "n < 2 ^ 26" for n
    using that st(2) [of "of_nat n * PGSIZE"] px_eq_vpn [OF va, of "of_nat n * PGSIZE"]
    by (simp add: pt_map_def vpn_of_nat vpn_less)
  moreover have same: "same_page (mem s) ?m' q" if "pg_aligned q" "q \<noteq> p" for q
    using same_page_store_ent [of q p "px 0 va"] that page_ok_aligned [OF ok [OF pin]] by simp
  moreover have "kmem_inv (s\<lparr>mem := ?m'\<rparr>) fl"
  proof (rule kmem_inv_same_page)
    show inv: "kmem_inv s fl" using wf by (simp add: wf_pt_def)
    fix q assume q: "q \<in> set fl"
    then have "q \<noteq> p" using pin nd' by auto
    then show "same_page (mem s) ?m' q"
      using same q inv by (auto simp: kmem_inv_def intro: page_ok_aligned)
  qed
  ultimately show ?thesis
    using wf pin st by (auto simp: pt_upd_def wf_pt_def kmem_ready_def)
qed

lemma slot_nonzero:
  assumes "wf_pt l t s fl" "pt_slot (mem s) l t va = Some (p, px 0 va)"
  shows "p + 8 * PX 0 va \<noteq> 0"
proof -
  have "page_ok (k_end s) p" "0 < k_end s"
    using assms(1) pt_slot_in_pages [OF assms(2)] by (auto simp: wf_pt_def kmem_inv_def)
  then have "0 < unat p" "unat p + 8 * px 0 va < 2 ^ 64"
    using page_no_wrap [of "k_end s" p] px_less [of 0 va]
    by (auto simp: page_ok_def word_le_nat_alt word_less_nat_alt simp del: px_less)
  moreover from this(2) have "unat (p + of_nat (8 * px 0 va)) = unat p + 8 * px 0 va"
    by (rule unat_add_of_nat)
  ultimately have "unat (p + 8 * PX 0 va) \<noteq> 0" by simp
  then show ?thesis by (metis unat_0)
qed

lemma walk_alloc:
  assumes "wf_pt 2 t s fl" "va < MAXVA"
  shows "\<exists>a s' fl'. walk t va True s = Done a s' \<and> pt_upd t s fl s' fl' (pt_map (mem s) t) \<and>
    (a = 0 \<and> fl' = [] \<or>
     a \<noteq> 0 \<and> load64 (mem s') a = pt_map (mem s) t (vpn va) \<and>
     (\<forall>v. pt_upd t s' fl' (s'\<lparr>mem := store64 (mem s') a v\<rparr>) fl' ((pt_map (mem s) t)(vpn va := v))))"
proof -
  obtain a s' fl' where r: "walk_levels 2 t va True s = Done a s'" "pt_grow 2 t s fl s' fl'"
      "a = 0 \<and> fl' = [] \<or> (\<exists>p. pt_slot (mem s') 2 t va = Some (p, px 0 va) \<and> a = p + 8 * PX 0 va)"
    using walk_levels_alloc [OF assms(1), of va] by blast
  have w: "walk t va True s = Done a s'" using r(1) assms(2) by (auto simp: walk_def dest: leD)
  note u = pt_grow_upd [OF r(2)]
  have wf': "wf_pt 2 t s' fl'" using r(2) by (simp add: pt_grow_def)
  show ?thesis
  proof (cases "a = 0 \<and> fl' = []")
    case False
    then obtain p where p: "pt_slot (mem s') 2 t va = Some (p, px 0 va)" "a = p + 8 * PX 0 va"
      using r(3) by blast
    have "a \<noteq> 0" using slot_nonzero [OF wf' p(1)] p(2) by simp
    moreover have "load64 (mem s') a = pt_map (mem s) t (vpn va)"
    proof -
      have "load64 (mem s') a = pt_look (mem s') 2 t va" using p by (simp add: pt_look_def ent_def)
      also have "\<dots> = pt_look (mem s) 2 t va" using r(2) unfolding pt_grow_def by blast
      finally show ?thesis using pt_look_map [OF assms(2)] by simp
    qed
    moreover have "pt_upd t s' fl' (s'\<lparr>mem := store64 (mem s') a v\<rparr>) fl' ((pt_map (mem s) t)(vpn va := v))" for v
    proof -
      have "pt_map (mem s') t n = pt_map (mem s) t n" for n
        using r(2) by (simp add: pt_map_def pt_grow_def)
      then show ?thesis
        using store_leaf_upd [OF wf' p(1) assms(2), of v] p(2) by (simp add: fun_eq_iff pt_upd_def)
    qed
    ultimately show ?thesis using w u by blast
  qed (use w u in blast)
qed

lemma vpn_add_PGSIZE:
  assumes "vpn a + 1 < 2 ^ 26"
  shows "vpn (a + PGSIZE) = Suc (vpn a)"
proof -
  have "unat a < 2 ^ 38"
    using assms dividend_less_div_times [of 4096 "unat a"] by (simp add: vpn_def)
  then have "unat (a + of_nat 4096) = unat a + 4096" by (intro unat_add_of_nat) simp
  then show ?thesis by (simp add: vpn_def PGSIZE_def)
qed

lemma mappages_loop_spec:
  assumes "wf_pt 2 t s fl" "vpn a + n < 2 ^ 26"
    and "\<And>i. i \<le> n \<Longrightarrow> pt_map (mem s) t (vpn a + i) AND PTE_V = 0"
    and "last_va = a + of_nat n * PGSIZE"
  shows "\<exists>r s' fl' k. mappages_loop (Suc n) t a last_va pa perm s = Done r s' \<and>
    pt_upd t s fl s' fl' (map_range (pt_map (mem s) t) (vpn a) k pa perm) \<and>
    (r = 0 \<and> k = Suc n \<or> r = -1 \<and> k \<le> n \<and> fl' = [])"
  using assms
proof (induction n arbitrary: s fl a pa)
  case 0
  let ?M = "pt_map (mem s) t" and ?v = "PA2PTE pa OR perm OR PTE_V"
  have a: "a < MAXVA" using 0 by (simp add: vpn_less)
  obtain p s1 fl1 where w: "walk t a True s = Done p s1" "pt_upd t s fl s1 fl1 ?M"
      "p = 0 \<and> fl1 = [] \<or> p \<noteq> 0 \<and> load64 (mem s1) p = ?M (vpn a) \<and>
       (\<forall>v. pt_upd t s1 fl1 (s1\<lparr>mem := store64 (mem s1) p v\<rparr>) fl1 (?M(vpn a := v)))"
    using walk_alloc [OF 0(1) a] by blast
  have one: "map_range ?M (vpn a) (Suc 0) pa perm = ?M(vpn a := ?v)"
    using map_range_Suc [of ?M "vpn a" pa perm 0] by simp
  show ?case
  proof (cases "p = 0")
    case True
    then show ?thesis
      using w by (intro exI [of _ "-1"] exI [of _ s1] exI [of _ fl1] exI [of _ 0])
        (simp add: kmon_simps bnd_run)
  next
    case False
    then have "load64 (mem s1) p AND PTE_V = 0" using 0(3) [of 0] w(3) by simp
    then have "mappages_loop (Suc 0) t a last_va pa perm s = Done 0 (s1\<lparr>mem := store64 (mem s1) p ?v\<rparr>)"
      using w(1) False 0(4) by (simp add: kmon_simps bnd_run)
    moreover have "pt_upd t s fl (s1\<lparr>mem := store64 (mem s1) p ?v\<rparr>) fl1 (?M(vpn a := ?v))"
      using w(2,3) False by (blast intro: pt_upd_trans)
    ultimately show ?thesis unfolding one [symmetric] by blast
  qed
next
  case (Suc n)
  let ?M = "pt_map (mem s) t" and ?v = "PA2PTE pa OR perm OR PTE_V"
  have a: "a < MAXVA" using Suc.prems(2) by (simp add: vpn_less)
  obtain p s1 fl1 where w: "walk t a True s = Done p s1" "pt_upd t s fl s1 fl1 ?M"
      "p = 0 \<and> fl1 = [] \<or> p \<noteq> 0 \<and> load64 (mem s1) p = ?M (vpn a) \<and>
       (\<forall>v. pt_upd t s1 fl1 (s1\<lparr>mem := store64 (mem s1) p v\<rparr>) fl1 (?M(vpn a := v)))"
    using walk_alloc [OF Suc.prems(1) a] by blast
  show ?case
  proof (cases "p = 0")
    case True
    then show ?thesis
      using w by (intro exI [of _ "-1"] exI [of _ s1] exI [of _ fl1] exI [of _ 0])
        (simp add: kmon_simps bnd_run)
  next
    case False
    let ?s2 = "s1\<lparr>mem := store64 (mem s1) p ?v\<rparr>"
    have inv: "load64 (mem s1) p AND PTE_V = 0" using Suc.prems(3) [of 0] w(3) False by simp
    have u1: "pt_upd t s1 fl1 ?s2 fl1 (?M(vpn a := ?v))" using w(3) False by blast
    have v2: "vpn (a + PGSIZE) = Suc (vpn a)" using Suc.prems(2) by (intro vpn_add_PGSIZE) simp
    have M2: "pt_map (mem ?s2) t i = (?M(vpn a := ?v)) i" if "i < 2 ^ 26" for i
      using u1 that unfolding pt_upd_def by blast
    have ne: "a \<noteq> last_va"
    proof -
      have "vpn a \<noteq> vpn (a + PGSIZE)" using v2 by simp
      have "unat (of_nat (Suc n * 4096) :: u64) = Suc n * 4096"
        using Suc.prems(2) by (simp only: unat_of_nat) simp
      then have "(of_nat (Suc n * 4096) :: u64) \<noteq> 0" by (metis mult_is_0 nat.simps(3) unat_0 zero_neq_numeral)
      then show ?thesis by (simp add: Suc.prems(4) PGSIZE_def algebra_simps)
    qed
    have "\<exists>r s' fl' k. mappages_loop (Suc n) t (a + PGSIZE) last_va (pa + PGSIZE) perm ?s2 = Done r s' \<and>
      pt_upd t ?s2 fl1 s' fl' (map_range (pt_map (mem ?s2) t) (vpn (a + PGSIZE)) k (pa + PGSIZE) perm) \<and>
      (r = 0 \<and> k = Suc n \<or> r = -1 \<and> k \<le> n \<and> fl' = [])"
    proof (rule Suc.IH)
      show "wf_pt 2 t ?s2 fl1" using u1 by (simp add: pt_upd_def)
      show "vpn (a + PGSIZE) + n < 2 ^ 26" using v2 Suc.prems(2) by simp
      show "pt_map (mem ?s2) t (vpn (a + PGSIZE) + i) AND PTE_V = 0" if "i \<le> n" for i
        using M2 [of "Suc (vpn a + i)"] Suc.prems(2) Suc.prems(3) [of "Suc i"] that v2 by simp
      show "last_va = a + PGSIZE + of_nat n * PGSIZE" by (simp add: Suc.prems(4) algebra_simps)
    qed
    then obtain r s' fl' k where IH: "mappages_loop (Suc n) t (a + PGSIZE) last_va (pa + PGSIZE) perm ?s2 = Done r s'"
        "pt_upd t ?s2 fl1 s' fl' (map_range (pt_map (mem ?s2) t) (Suc (vpn a)) k (pa + PGSIZE) perm)"
        "r = 0 \<and> k = Suc n \<or> r = -1 \<and> k \<le> n \<and> fl' = []"
      unfolding v2 by blast
    have "pt_upd t ?s2 fl1 s' fl' (map_range ?M (vpn a) (Suc k) pa perm)"
      unfolding map_range_Suc [symmetric] using IH(2) M2 by (simp add: pt_upd_def map_range_def)
    then have "pt_upd t s fl s' fl' (map_range ?M (vpn a) (Suc k) pa perm)"
      using w(2) u1 by (blast intro: pt_upd_trans)
    moreover have "mappages_loop (Suc (Suc n)) t a last_va pa perm s = Done r s'"
      using w(1) False inv ne IH(1) by (subst mappages_loop.simps) (simp add: kmon_simps bnd_run del: mappages_loop.simps)
    ultimately show ?thesis using IH(3) by (metis Suc_le_mono)
  qed
qed

lemma mappages_spec:
  assumes wf: "wf_pt 2 t s fl" and al: "va mod PGSIZE = 0" "sz mod PGSIZE = 0" "sz \<noteq> 0"
    and fits: "vpn va + vpn sz \<le> 2 ^ 26"
    and free: "\<And>i. i < vpn sz \<Longrightarrow> pt_map (mem s) t (vpn va + i) AND PTE_V = 0"
  shows "\<exists>r s' fl' k. mappages t va sz pa perm s = Done r s' \<and>
    pt_upd t s fl s' fl' (map_range (pt_map (mem s) t) (vpn va) k pa perm) \<and>
    (r = 0 \<and> k = vpn sz \<or> r = -1 \<and> k < vpn sz \<and> fl' = [])"
proof -
  have sz: "unat sz = vpn sz * 4096"
    using al(2) by (auto simp: mod_PGSIZE_eq_0_iff vpn_def)
  obtain n where n: "vpn sz = Suc n" using sz al(3) by (cases "vpn sz") (auto simp: unat_eq_zero)
  have cnt: "unat (sz div PGSIZE) = Suc n" by (simp add: unat_div vpn_def [symmetric] n)
  have "sz = of_nat (Suc n * 4096)" using sz n by (metis of_nat_unat ucast_id)
  then have last: "va + sz - PGSIZE = va + of_nat n * PGSIZE" by (simp add: PGSIZE_def algebra_simps)
  have "mappages t va sz pa perm s = mappages_loop (Suc n) t va (va + sz - PGSIZE) pa perm s"
    using al cnt by (simp add: mappages_def del: mappages_loop.simps)
  moreover have "\<exists>r s' fl' k. mappages_loop (Suc n) t va (va + sz - PGSIZE) pa perm s = Done r s' \<and>
      pt_upd t s fl s' fl' (map_range (pt_map (mem s) t) (vpn va) k pa perm) \<and>
      (r = 0 \<and> k = Suc n \<or> r = -1 \<and> k \<le> n \<and> fl' = [])"
    by (rule mappages_loop_spec [OF wf]) (use fits free n last in auto)
  ultimately show ?thesis by (simp only: n less_Suc_eq_le)
qed

lemma walk_noalloc:
  assumes "wf_pt 2 t s fl" "va < MAXVA"
  shows "\<exists>pte. walk t va False s = Done pte s \<and>
    (if pte = 0 then 0 else load64 (mem s) pte) = pt_map (mem s) t (vpn va)"
proof -
  have w: "walk t va False s = Done (slot_addr (pt_slot (mem s) 2 t va)) s"
    using assms(2) by (auto simp: walk_def walk_levels_noalloc dest: leD)
  have look: "pt_look (mem s) 2 t va = pt_map (mem s) t (vpn va)" by (rule pt_look_map [OF assms(2)])
  show ?thesis
  proof (cases "pt_slot (mem s) 2 t va")
    case None
    then show ?thesis using w look by (simp add: pt_look_def slot_addr_def)
  next
    case (Some r)
    then obtain p where p: "pt_slot (mem s) 2 t va = Some (p, px 0 va)"
      using pt_slot_in_pages [of "mem s" 2 t va] by (cases r) auto
    then show ?thesis
      using slot_nonzero [OF assms(1) p] look w by (simp add: pt_look_def slot_addr_def ent_def)
  qed
qed

lemma walkaddr_spec:
  assumes "wf_pt 2 t s fl"
  shows "walkaddr t va s = Done (if va < MAXVA \<and> pt_map (mem s) t (vpn va) AND PTE_V \<noteq> 0 \<and>
      pt_map (mem s) t (vpn va) AND PTE_U \<noteq> 0 then PTE2PA (pt_map (mem s) t (vpn va)) else 0) s"
proof (cases "va < MAXVA")
  case True
  obtain pte where "walk t va False s = Done pte s"
      "(if pte = 0 then 0 else load64 (mem s) pte) = pt_map (mem s) t (vpn va)"
    using walk_noalloc [OF assms True] by blast
  then show ?thesis
    using True by (auto simp: walkaddr_def kmon_simps bnd_run dest: leD split: if_splits)
qed (auto simp: walkaddr_def kmon_simps)

subsection \<open>A small address space\<close>

text \<open>A table with one user page at address zero, used to instantiate the properties.\<close>

lemma ent_store_any:
  assumes "page_ok e t" "page_ok e q" "i < 512" "j < 512"
  shows "ent (store64 m (q + 8 * of_nat i) v) t j = (if t = q \<and> i = j then v else ent m t j)"
  using assms ent_store_ent [of e t i j m v] same_page_store_ent [of t q i m v]
  by (cases "t = q") (auto simp: ent_same_page page_ok_aligned)

lemma pt_pages_single:
  assumes "\<And>i. i < 512 \<Longrightarrow> i \<noteq> 0 \<Longrightarrow> ent m t i = 0" "ent m t 0 AND PTE_V \<noteq> 0"
  shows "pt_pages m (Suc l) t = add_mset t (pt_pages m l (PTE2PA (ent m t 0)))"
proof -
  have "pt_others m l t 0 = {#}" unfolding pt_others_def using assms(1) by (intro sum.neutral) auto
  then show ?thesis using assms(2) by (simp add: pt_pages_split [of 0])
qed

definition demo_mem :: memory where
  "demo_mem = store64 (store64 (store64 (\<lambda>_. 0)
      0x80022000 (PA2PTE 0x80023000 OR PTE_V))
      0x80023000 (PA2PTE 0x80024000 OR PTE_V))
      0x80024000 (PA2PTE 0x80025000 OR (PTE_R OR PTE_W OR PTE_U) OR PTE_V)"

definition demo_vm :: kmst where
  "demo_vm = reset_mach\<lparr>mem := demo_mem\<rparr>"

lemma demo_page_ok:
  "page_ok 0x80021000 0x80022000" "page_ok 0x80021000 0x80023000" "page_ok 0x80021000 0x80024000"
  "page_ok 0x80021000 0x80025000"
  by (simp_all add: page_ok_def PGSIZE_def PHYSTOP_eq)

lemma demo_ent:
  assumes "j < 512"
  shows "ent demo_mem 0x80022000 j = (if j = 0 then PA2PTE 0x80023000 OR PTE_V else 0)"
    "ent demo_mem 0x80023000 j = (if j = 0 then PA2PTE 0x80024000 OR PTE_V else 0)"
    "ent demo_mem 0x80024000 j = (if j = 0 then PA2PTE 0x80025000 OR (PTE_R OR PTE_W OR PTE_U) OR PTE_V else 0)"
proof -
  have z: "ent (\<lambda>_. 0) t i = 0" for t i
    by (simp add: ent_def load64_def mem_read_def numeral_eq_Suc)
  note st = ent_store_any [of "0x80021000" _ _ 0 j, OF _ _ _ assms, simplified]
  show "ent demo_mem 0x80022000 j = (if j = 0 then PA2PTE 0x80023000 OR PTE_V else 0)"
    "ent demo_mem 0x80023000 j = (if j = 0 then PA2PTE 0x80024000 OR PTE_V else 0)"
    "ent demo_mem 0x80024000 j = (if j = 0 then PA2PTE 0x80025000 OR (PTE_R OR PTE_W OR PTE_U) OR PTE_V else 0)"
    by (simp_all add: demo_mem_def st demo_page_ok z)
qed

lemma demo_PTE2PA:
  "PTE2PA (PA2PTE 0x80023000 OR PTE_V) = 0x80023000"
  "PTE2PA (PA2PTE 0x80024000 OR PTE_V) = 0x80024000"
  "PTE2PA (PA2PTE 0x80025000 OR (PTE_R OR PTE_W OR PTE_U) OR PTE_V) = 0x80025000"
  by (simp_all add: PTE2PA_def PA2PTE_def pte_flag_defs)

lemma demo_pages: "pt_pages demo_mem 2 0x80022000 = {#0x80022000, 0x80023000, 0x80024000#}"
proof -
  have "pt_pages demo_mem (Suc 0) 0x80023000 = {#0x80023000, 0x80024000#}"
    using pt_pages_single [of demo_mem "0x80023000" 0] by (simp add: demo_ent demo_PTE2PA)
  moreover have "pt_pages demo_mem (Suc (Suc 0)) 0x80022000 =
      add_mset 0x80022000 (pt_pages demo_mem (Suc 0) 0x80023000)"
    using pt_pages_single [of demo_mem "0x80022000" "Suc 0"] by (simp add: demo_ent demo_PTE2PA)
  ultimately show ?thesis by (simp add: numeral_2_eq_2)
qed

lemma demo_wf: "wf_pt 2 0x80022000 demo_vm []"
  by (auto simp: wf_pt_def demo_vm_def reset_mach_def demo_pages kmem_ready_def cpu_quiet_def lk_free_def
      mach_defs kmem_inv_def nodup_def demo_page_ok)

lemma all_le_2: "(\<forall>k \<le> 2. P k) \<longleftrightarrow> P 0 \<and> P (Suc 0) \<and> P (Suc (Suc 0))"
  by (auto simp: numeral_2_eq_2 le_Suc_eq)

lemma demo_map:
  assumes "n < 2 ^ 26"
  shows "pt_map demo_mem 0x80022000 n =
    (if n = 0 then PA2PTE 0x80025000 OR (PTE_R OR PTE_W OR PTE_U) OR PTE_V else 0)"
proof -
  let ?va = "of_nat n * PGSIZE :: u64"
  have v: "vpn ?va = n" "?va < MAXVA" using assms by (simp_all add: vpn_of_nat vpn_less)
  have 0: "(\<forall>k \<le> 2. px k ?va = 0) \<longleftrightarrow> n = 0"
    using px_eq_vpn [of 0 ?va] v by (simp add: px_vpn [of _ 0] vpn_def [of 0] MAXVA_eq)
  have 1: "(\<forall>k \<le> 2. px k ?va = 0) \<longleftrightarrow> px 0 ?va = 0 \<and> px (Suc 0) ?va = 0 \<and> px (Suc (Suc 0)) ?va = 0"
    by (rule all_le_2)
  have e: "ent demo_mem 0x80022000 (px l ?va) = (if px l ?va = 0 then PA2PTE 0x80023000 OR PTE_V else 0)"
    "ent demo_mem 0x80023000 (px l ?va) = (if px l ?va = 0 then PA2PTE 0x80024000 OR PTE_V else 0)"
    "ent demo_mem 0x80024000 (px l ?va) = (if px l ?va = 0
       then PA2PTE 0x80025000 OR (PTE_R OR PTE_W OR PTE_U) OR PTE_V else 0)" for l
    by (rule demo_ent [OF px_less])+
  have "pt_look demo_mem (Suc (Suc 0)) 0x80022000 ?va =
      (if px 0 ?va = 0 \<and> px (Suc 0) ?va = 0 \<and> px (Suc (Suc 0)) ?va = 0
       then PA2PTE 0x80025000 OR (PTE_R OR PTE_W OR PTE_U) OR PTE_V else 0)"
    by (simp only: pt_look_simps e demo_PTE2PA) (simp add: demo_PTE2PA e demo_ent)
  then show ?thesis unfolding pt_map_def numeral_2_eq_2 using 0 1 by simp
qed

subsection \<open>Properties\<close>

text \<open>
  C12. \<open>mappages\<close> on a well-formed table is the update of a finite map. It maps the pages of the
  range to consecutive physical pages, or stops after a prefix with -1 and no free page left.
  Every other translation, the tree shape of the table, the total of table and free pages and
  all other pages of memory are kept; it never faults or panics on unmapped, aligned ranges.
\<close>

theorem mappages_updates_map:
  assumes "wf_pt 2 t s fl" "va mod PGSIZE = 0" "sz mod PGSIZE = 0" "sz \<noteq> 0"
    and "vpn va + vpn sz \<le> 2 ^ 26"
    and "\<And>i. i < vpn sz \<Longrightarrow> pt_map (mem s) t (vpn va + i) AND PTE_V = 0"
  shows "\<exists>r s' fl' k. mappages t va sz pa perm s = Done r s' \<and>
    s' = s\<lparr>mem := mem s', freelist := freelist s'\<rparr> \<and> wf_pt 2 t s' fl' \<and>
    pt_pages (mem s') 2 t + mset fl' = pt_pages (mem s) 2 t + mset fl \<and>
    (\<forall>n < 2 ^ 26. pt_map (mem s') t n =
       (if vpn va \<le> n \<and> n < vpn va + k
        then PA2PTE (pa + of_nat (n - vpn va) * PGSIZE) OR perm OR PTE_V else pt_map (mem s) t n)) \<and>
    (\<forall>p. pg_aligned p \<longrightarrow> p \<notin># pt_pages (mem s) 2 t + mset fl \<longrightarrow> same_page (mem s) (mem s') p) \<and>
    (r = 0 \<and> k = vpn sz \<or> r = -1 \<and> k < vpn sz \<and> fl' = [])"
proof -
  have "\<exists>r s' fl' k. mappages t va sz pa perm s = Done r s' \<and>
    pt_upd t s fl s' fl' (map_range (pt_map (mem s) t) (vpn va) k pa perm) \<and>
    (r = 0 \<and> k = vpn sz \<or> r = -1 \<and> k < vpn sz \<and> fl' = [])"
    using assms by (rule mappages_spec)
  then show ?thesis by (simp only: pt_upd_def map_range_def conj_assoc)
qed

theorem mappages_updates_map_witness:
  "\<exists>r s' fl' k. mappages 0x80022000 0x1000 0x2000 0x80030000 (PTE_R OR PTE_U) demo_vm = Done r s' \<and>
    wf_pt 2 0x80022000 s' fl' \<and> pt_map (mem s') 0x80022000 0 = pt_map (mem demo_vm) 0x80022000 0 \<and>
    (r = 0 \<and> k = 2 \<or> r = -1 \<and> k < (2 :: nat) \<and> fl' = [])"
proof -
  have v: "vpn 0x1000 = 1" "vpn 0x2000 = 2" by (simp_all add: vpn_def)
  have free: "pt_map (mem demo_vm) 0x80022000 (vpn 0x1000 + i) AND PTE_V = 0" if "i < vpn 0x2000" for i
    using that by (simp add: demo_vm_def v demo_map)
  have al: "(0x1000 :: u64) mod PGSIZE = 0" "(0x2000 :: u64) mod PGSIZE = 0" "(0x2000 :: u64) \<noteq> 0"
      "vpn 0x1000 + vpn 0x2000 \<le> 2 ^ 26"
    by (simp_all add: PGSIZE_def v)
  obtain r s' fl' k where "mappages 0x80022000 0x1000 0x2000 0x80030000 (PTE_R OR PTE_U) demo_vm = Done r s'"
      "wf_pt 2 0x80022000 s' fl'" and m: "\<forall>n < 2 ^ 26. pt_map (mem s') 0x80022000 n =
       (if vpn 0x1000 \<le> n \<and> n < vpn 0x1000 + k
        then PA2PTE (0x80030000 + of_nat (n - vpn 0x1000) * PGSIZE) OR (PTE_R OR PTE_U) OR PTE_V
        else pt_map (mem demo_vm) 0x80022000 n)"
      and "r = 0 \<and> k = vpn 0x2000 \<or> r = -1 \<and> k < vpn 0x2000 \<and> fl' = []"
    using mappages_updates_map [where pa = "0x80030000" and perm = "PTE_R OR PTE_U", OF demo_wf al free] by blast
  moreover have "pt_map (mem s') 0x80022000 0 = pt_map (mem demo_vm) 0x80022000 0"
    using m by (simp add: v)
  ultimately show ?thesis unfolding v by blast
qed

end
