(* ===== verification/Vm_Copy.thy ===== *)
theory Vm_Copy
  imports Vm_Tables
begin

text \<open>
  The copies between user and kernel memory, seen through the translation of the page table:
  which bytes they move, which memory they can touch, and when they fail.
\<close>

subsection \<open>User memory\<close>

text \<open>The physical page behind a user page number, zero when user code may not access it.\<close>

definition upage :: "memory \<Rightarrow> u64 \<Rightarrow> nat \<Rightarrow> u64" where
  "upage m t n = (let e = pt_map m t n in
     if n < 2 ^ 26 \<and> e AND PTE_V \<noteq> 0 \<and> e AND PTE_U \<noteq> 0 then PTE2PA e else 0)"

definition uwritable :: "memory \<Rightarrow> u64 \<Rightarrow> nat \<Rightarrow> bool" where
  "uwritable m t n \<longleftrightarrow> n < 2 ^ 26 \<and> pt_map m t n AND PTE_V \<noteq> 0 \<and> pt_map m t n AND PTE_U \<noteq> 0 \<and>
     pt_map m t n AND PTE_W \<noteq> 0"

definition uaddr :: "memory \<Rightarrow> u64 \<Rightarrow> u64 \<Rightarrow> u64" where
  "uaddr m t va = upage m t (vpn va) + va mod PGSIZE"

lemma walkaddr_upage: "wf_pt 2 t s fl \<Longrightarrow> walkaddr t va s = Done (upage (mem s) t (vpn va)) s"
  by (simp add: walkaddr_spec upage_def Let_def vpn_less)

subsection \<open>Pages and chunks\<close>

lemma va_off: "va - PGROUNDDOWN va = va mod PGSIZE"
  by (simp add: PGROUNDDOWN_mod)

lemma vpn_PGROUNDDOWN [simp]: "vpn (PGROUNDDOWN va) = vpn va"
  by (simp add: vpn_def unat_PGROUNDDOWN)

lemma unat_page_chunk: "unat (page_chunk va len) = min (4096 - unat va mod 4096) (unat len)"
proof -
  have "va mod PGSIZE \<le> PGSIZE"
    by (simp add: word_le_nat_alt unat_mod_PGSIZE)
  then have "unat (PGSIZE - va mod PGSIZE) = 4096 - unat va mod 4096"
    by (simp add: unat_sub unat_mod_PGSIZE)
  then show ?thesis
    by (simp add: page_chunk_def Let_def va_off word_less_nat_alt min_def)
qed

lemma va_plus:
  assumes "i < 4096 - unat va mod 4096"
  shows "unat (va + of_nat i) = unat va + i" "vpn (va + of_nat i) = vpn va"
    "(va + of_nat i) mod PGSIZE = va mod PGSIZE + of_nat i"
proof -
  have pg: "unat (PGROUNDDOWN va) + unat va mod 4096 = unat va"
    by (simp add: unat_PGROUNDDOWN)
  have "pg_aligned (PGROUNDDOWN va)"
    by (simp add: pg_aligned_def mod_PGSIZE_eq_0_iff unat_PGROUNDDOWN)
  then have "unat va + i < 2 ^ 64" using aligned_no_wrap pg assms by fastforce
  then show u: "unat (va + of_nat i) = unat va + i" by (rule unat_add_of_nat)
  define q r where "q = unat va div 4096" and "r = unat va mod 4096"
  have qr: "unat va = q * 4096 + r" "r + i < 4096" using assms by (auto simp: q_def r_def)
  have dm: "(unat va + i) div 4096 = q" "(unat va + i) mod 4096 = r + i"
    using qr(2) by (simp_all add: qr(1) add.assoc)
  show "vpn (va + of_nat i) = vpn va" by (simp add: vpn_def u dm q_def)
  have "unat (va mod PGSIZE + of_nat i) = unat va mod 4096 + i"
    using assms unat_add_of_nat [of "va mod PGSIZE" i] by (simp add: unat_mod_PGSIZE)
  then show "(va + of_nat i) mod PGSIZE = va mod PGSIZE + of_nat i"
    by (simp add: word_unat_eq_iff unat_mod_PGSIZE u dm r_def)
qed

lemma next_page:
  assumes "page_chunk va len < len"
  shows "PGROUNDDOWN va + PGSIZE = va + page_chunk va len"
proof -
  have "page_chunk va len = PGSIZE - va mod PGSIZE"
    using assms by (auto simp: page_chunk_def Let_def va_off split: if_splits)
  then show ?thesis by (simp add: PGROUNDDOWN_mod)
qed

lemma page_room_eq: "page_room va len = min (4096 - unat va mod 4096) len"
proof -
  have "va mod PGSIZE \<le> PGSIZE" by (simp add: word_le_nat_alt unat_mod_PGSIZE)
  then show ?thesis by (simp add: page_room_def va_off unat_sub unat_mod_PGSIZE)
qed

lemma page_room_chunk: "page_room va (unat len) = unat (page_chunk va len)"
  by (simp add: page_room_eq unat_page_chunk)

lemma page_room_next:
  assumes "page_room va len < len"
  shows "PGROUNDDOWN va + PGSIZE = va + of_nat (page_room va len)"
proof -
  have r: "page_room va len = 4096 - unat va mod 4096" using assms by (simp add: page_room_eq min_def split: if_splits)
  have "va mod PGSIZE \<le> PGSIZE" by (simp add: word_le_nat_alt unat_mod_PGSIZE)
  then have "unat (PGSIZE - va mod PGSIZE) = page_room va len" by (simp add: unat_sub unat_mod_PGSIZE r)
  then have "of_nat (page_room va len) = PGSIZE - va mod PGSIZE" by (metis of_nat_unat ucast_id)
  then show ?thesis by (simp add: PGROUNDDOWN_mod)
qed

subsection \<open>Kernel buffers\<close>

text \<open>A kernel buffer: outside the page table, the free pages and the user's pages.\<close>

definition kbuf :: "u64 \<Rightarrow> 'z kmst_scheme \<Rightarrow> u64 list \<Rightarrow> u64 \<Rightarrow> nat \<Rightarrow> bool" where
  "kbuf t s fl b n \<longleftrightarrow> unat b + n < 2 ^ 64 \<and>
     (\<forall>p. p \<in># pt_pages (mem s) 2 t + mset fl \<longrightarrow> disjoint_ranges p 4096 b n) \<and>
     (\<forall>k. upage (mem s) t k \<noteq> 0 \<longrightarrow>
        page_ok (k_end s) (upage (mem s) t k) \<and> disjoint_ranges (upage (mem s) t k) 4096 b n)"

lemma kbuf_nowrap: "kbuf t s fl b n \<Longrightarrow> unat b + n < 2 ^ 64"
  by (simp add: kbuf_def)

lemma kbuf_sub:
  assumes "kbuf t s fl b n" "k + n' \<le> n"
  shows "kbuf t s fl (b + of_nat k) n'"
proof -
  have "unat (b + of_nat k) = unat b + k"
    using assms unfolding kbuf_def by (intro unat_add_of_nat) linarith
  then show ?thesis using assms by (auto simp: kbuf_def disjoint_ranges_def)
qed

lemma same_page_disjoint:
  assumes "disjoint_ranges p 4096 b n" "length bs \<le> n"
  shows "same_page m (mem_write m b bs) p"
proof -
  have "mem_read (mem_write m b bs) p 4096 = mem_read m p 4096"
    using assms by (intro mem_read_mem_write_disjoint) (auto simp: disjoint_ranges_def)
  then show ?thesis
    unfolding same_page_def by (metis nth_mem_read)
qed

lemma same_page_off:
  assumes "same_page m m' p"
  shows "m' (p + va mod PGSIZE) = m (p + va mod PGSIZE)"
proof -
  have "unat (va mod PGSIZE) < 4096" by (simp add: unat_mod_PGSIZE)
  then have "m' (p + of_nat (unat (va mod PGSIZE))) = m (p + of_nat (unat (va mod PGSIZE)))"
    using assms unfolding same_page_def by blast
  then show ?thesis by simp
qed

lemma table_same_pages:
  assumes "wf_pt 2 t s fl" "\<And>p. p \<in># pt_pages (mem s) 2 t + mset fl \<Longrightarrow> same_page (mem s) m' p"
  shows "wf_pt 2 t (s\<lparr>mem := m'\<rparr>) fl" "pt_pages m' 2 t = pt_pages (mem s) 2 t"
    "pt_map m' t = pt_map (mem s) t" "upage m' t = upage (mem s) t" "uwritable m' t = uwritable (mem s) t"
proof -
  have f: "pt_pages m' 2 t = pt_pages (mem s) 2 t \<and> pt_slot m' 2 t va = pt_slot (mem s) 2 t va \<and>
      pt_look m' 2 t va = pt_look (mem s) 2 t va" for va
    by (rule pt_frame) (use assms(2) in auto)
  show pg: "pt_pages m' 2 t = pt_pages (mem s) 2 t" and mp: "pt_map m' t = pt_map (mem s) t"
    using f by (auto simp: pt_map_def fun_eq_iff)
  show "upage m' t = upage (mem s) t" "uwritable m' t = uwritable (mem s) t"
    using mp by (auto simp: upage_def uwritable_def fun_eq_iff)
  have "kmem_inv (s\<lparr>mem := m'\<rparr>) fl"
    by (rule kmem_inv_same_page) (use assms in \<open>auto simp: wf_pt_def\<close>)
  then show "wf_pt 2 t (s\<lparr>mem := m'\<rparr>) fl"
    using assms(1) pg by (simp add: wf_pt_def kmem_ready_def)
qed

lemma kbuf_write:
  assumes "wf_pt 2 t s fl" "kbuf t s fl b n" "length bs \<le> n"
  defines "m' \<equiv> mem_write (mem s) b bs"
  shows "wf_pt 2 t (s\<lparr>mem := m'\<rparr>) fl" "upage m' t = upage (mem s) t" "uwritable m' t = uwritable (mem s) t"
    "kbuf t s fl c k \<Longrightarrow> kbuf t (s\<lparr>mem := m'\<rparr>) fl c k"
    "upage (mem s) t i \<noteq> 0 \<Longrightarrow> same_page (mem s) m' (upage (mem s) t i)"
proof -
  have same: "same_page (mem s) m' p" if "p \<in># pt_pages (mem s) 2 t + mset fl" for p
    unfolding m'_def using assms(2,3) that by (intro same_page_disjoint [of _ _ n]) (auto simp: kbuf_def)
  show "wf_pt 2 t (s\<lparr>mem := m'\<rparr>) fl" and u: "upage m' t = upage (mem s) t"
    and "uwritable m' t = uwritable (mem s) t"
    by (rule table_same_pages [OF assms(1)]; erule same)+
  have "pt_pages m' 2 t = pt_pages (mem s) 2 t"
    by (rule table_same_pages [OF assms(1)]; erule same)
  then show "kbuf t (s\<lparr>mem := m'\<rparr>) fl c k" if "kbuf t s fl c k"
    using that u by (simp add: kbuf_def)
  show "same_page (mem s) m' (upage (mem s) t i)" if "upage (mem s) t i \<noteq> 0"
    unfolding m'_def using assms(2,3) that by (intro same_page_disjoint [of _ _ n]) (auto simp: kbuf_def)
qed

subsection \<open>copyin\<close>

definition ubytes :: "memory \<Rightarrow> u64 \<Rightarrow> u64 \<Rightarrow> nat \<Rightarrow> u8 list" where
  "ubytes m t va n = map (\<lambda>i. m (uaddr m t (va + of_nat i))) [0..<n]"

lemma length_ubytes [simp]: "length (ubytes m t va n) = n"
  by (simp add: ubytes_def)

definition umapped :: "memory \<Rightarrow> u64 \<Rightarrow> u64 \<Rightarrow> nat \<Rightarrow> bool" where
  "umapped m t va n \<longleftrightarrow> (\<forall>i < n. upage m t (vpn (va + of_nat i)) \<noteq> 0)"

lemma ubytes_chunk:
  assumes "n \<le> 4096 - unat va mod 4096"
  shows "ubytes m t va n = mem_read m (uaddr m t va) n"
  unfolding ubytes_def mem_read_def
  by (rule map_cong) (use assms va_plus [of _ va] in \<open>auto simp: uaddr_def add.assoc\<close>)

lemma umapped_chunk:
  assumes "n \<le> 4096 - unat va mod 4096" "0 < n"
  shows "umapped m t va n \<longleftrightarrow> upage m t (vpn va) \<noteq> 0"
  using assms va_plus(2) [of _ va] unfolding umapped_def by (metis order_less_le_trans)

lemma split_range:
  "umapped m t va (k + n) \<longleftrightarrow> umapped m t va k \<and> umapped m t (va + of_nat k) n"
  "ubytes m t va (k + n) = ubytes m t va k @ ubytes m t (va + of_nat k) n"
proof -
  show "umapped m t va (k + n) \<longleftrightarrow> umapped m t va k \<and> umapped m t (va + of_nat k) n"
  proof
    assume a: "umapped m t va (k + n)"
    have "upage m t (vpn (va + of_nat k + of_nat i)) \<noteq> 0" if "i < n" for i
      using a [unfolded umapped_def, rule_format, of "k + i"] that by (simp add: add.assoc)
    then show "umapped m t va k \<and> umapped m t (va + of_nat k) n" using a by (simp add: umapped_def)
  next
    assume a: "umapped m t va k \<and> umapped m t (va + of_nat k) n"
    show "umapped m t va (k + n)"
      unfolding umapped_def
    proof (intro allI impI)
      fix i assume "i < k + n"
      then show "upage m t (vpn (va + of_nat i)) \<noteq> 0"
        using a [THEN conjunct1, unfolded umapped_def, rule_format, of i]
          a [THEN conjunct2, unfolded umapped_def, rule_format, of "i - k"]
        by (cases "i < k") (auto simp: add.assoc simp flip: of_nat_add)
    qed
  qed
  show "ubytes m t va (k + n) = ubytes m t va k @ ubytes m t (va + of_nat k) n"
    by (rule nth_equalityI) (auto simp: ubytes_def nth_append add.assoc simp flip: of_nat_add)
qed

lemma mem_write_append:
  assumes "unat a + length (xs @ ys) < 2 ^ 64"
  shows "mem_write (mem_write m a xs) (a + of_nat (length xs)) ys = mem_write m a (xs @ ys)"
proof
  fix x
  let ?k = "of_nat (length xs) :: u64"
  have k: "unat ?k = length xs" using assms by (simp add: unat_of_nat)
  show "mem_write (mem_write m a xs) (a + ?k) ys x = mem_write m a (xs @ ys) x"
  proof (cases "unat (x - a) < length xs")
    case True
    define y where "y = x - a"
    have e: "x - (a + ?k) = y - ?k" by (simp add: y_def)
    have "unat (y - ?k) = unat y + 2 ^ 64 - length xs"
      using True k unat_sub_if_size [of y ?k] by (simp add: word_size y_def)
    then have "\<not> unat (x - (a + ?k)) < length ys" unfolding e using assms by simp
    then show ?thesis using True by (simp add: mem_write_def nth_append)
  next
    case False
    then have "unat (x - (a + ?k)) = unat (x - a) - length xs"
      using k unat_sub [of ?k "x - a"] by (simp add: word_le_nat_alt diff_diff_eq)
    then show ?thesis using False by (auto simp: mem_write_def nth_append)
  qed
qed

text \<open>How many bytes a copy from user memory delivers: whole pages until one is not mapped.\<close>

function ucount :: "(nat \<Rightarrow> u64) \<Rightarrow> u64 \<Rightarrow> nat \<Rightarrow> nat" where
  "ucount u va len =
     (if len = 0 \<or> u (vpn va) = 0 then 0
      else page_room va len + ucount u (PGROUNDDOWN va + PGSIZE) (len - page_room va len))"
  by pat_completeness auto
termination by (relation "measure (\<lambda>(u, va, len). len)") (auto simp: page_room_pos)

declare ucount.simps [simp del]

lemma next_range:
  assumes "k \<le> len - page_room va len"
  shows "ubytes m t (PGROUNDDOWN va + PGSIZE) k = ubytes m t (va + of_nat (page_room va len)) k"
    "umapped m t (PGROUNDDOWN va + PGSIZE) k = umapped m t (va + of_nat (page_room va len)) k"
  using assms page_room_next [of va len]
  by (cases "page_room va len < len"; simp add: ubytes_def umapped_def)+

lemma ucount_props:
  "ucount (upage m t) va len \<le> len \<and> umapped m t va (ucount (upage m t) va len) \<and>
     (umapped m t va len \<longleftrightarrow> ucount (upage m t) va len = len)"
proof (induction "upage m t" va len rule: ucount.induct)
  case (1 va len)
  let ?n = "page_room va len"
  have n: "?n \<le> 4096 - unat va mod 4096" "?n \<le> len" by (simp_all add: page_room_eq)
  show ?case
  proof (cases "len = 0 \<or> upage m t (vpn va) = 0")
    case True
    have "\<not> umapped m t va len" if "len \<noteq> 0"
      using True that unfolding umapped_def by (auto intro!: exI [of _ 0])
    then show ?thesis using True by (auto simp: ucount.simps [of _ va len] umapped_def)
  next
    case False
    let ?k = "ucount (upage m t) (PGROUNDDOWN va + PGSIZE) (len - ?n)"
    note IH = "1" [OF False]
    have pos: "0 < ?n" using False page_room_pos by simp
    have c: "ucount (upage m t) va len = ?n + ?k" using False by (simp add: ucount.simps [of _ va len])
    have mn: "umapped m t va ?n" using umapped_chunk [OF n(1) pos] False by blast
    have "umapped m t va (?n + ?k)"
      using split_range(1) [of m t va ?n ?k] mn IH next_range(2) [of ?k len va m t] by simp
    moreover have "umapped m t va len \<longleftrightarrow> umapped m t (PGROUNDDOWN va + PGSIZE) (len - ?n)"
      using split_range(1) [of m t va ?n "len - ?n"] mn n(2) next_range(2) [of "len - ?n" len va m t] by simp
    ultimately show ?thesis unfolding c using IH n(2) by auto
  qed
qed

lemma copyin_obj_spec:
  assumes wf: "wf_pt 2 t s fl"
  shows "copyin_obj t srcva len s =
    Done (if umapped (mem s) t srcva len then 0 else -1, ubytes (mem s) t srcva (ucount (upage (mem s) t) srcva len)) s"
proof (induction len arbitrary: srcva rule: less_induct)
  case (less len)
  let ?m = "mem s"
  let ?n = "page_room srcva len" and ?c = "ucount (upage ?m t)" and ?nx = "PGROUNDDOWN srcva + PGSIZE"
  have wa: "walkaddr t (PGROUNDDOWN srcva) s = Done (upage ?m t (vpn srcva)) s"
    using walkaddr_upage [OF wf, of "PGROUNDDOWN srcva"] by simp
  consider "len = 0" | "len \<noteq> 0" "upage ?m t (vpn srcva) = 0" | "len \<noteq> 0" "upage ?m t (vpn srcva) \<noteq> 0" by blast
  then show ?case
  proof cases
    case 1
    then show ?thesis by (simp add: copyin_obj.simps [of t srcva 0] ucount.simps [of _ srcva 0] ret_def umapped_def ubytes_def)
  next
    case 2
    then have "ucount (upage ?m t) srcva len = 0" by (simp add: ucount.simps [of _ srcva len])
    moreover have "\<not> umapped ?m t srcva len" using ucount_props [of ?m t srcva len] 2 calculation by simp
    ultimately show ?thesis
      using 2 wa by (simp add: copyin_obj.simps [of t srcva len] kmon_simps bnd_run ubytes_def)
  next
    case 3
    have n: "?n \<le> 4096 - unat srcva mod 4096" "?n \<le> len" "0 < ?n" using 3 page_room_pos by (simp_all add: page_room_eq)
    have c: "?c srcva len = ?n + ?c ?nx (len - ?n)" using 3 by (simp add: ucount.simps [of _ srcva len])
    have cle: "?c ?nx (len - ?n) \<le> len - ?n" using ucount_props by blast
    have um: "umapped ?m t srcva len = umapped ?m t ?nx (len - ?n)"
      using ucount_props [of ?m t srcva len] ucount_props [of ?m t ?nx "len - ?n"] n unfolding c by auto
    have bs: "mem_read ?m (upage ?m t (vpn srcva) + (srcva - PGROUNDDOWN srcva)) ?n = ubytes ?m t srcva ?n"
      unfolding ubytes_chunk [OF n(1)] by (simp add: va_off uaddr_def)
    have ub: "ubytes ?m t srcva (?c srcva len) = ubytes ?m t srcva ?n @ ubytes ?m t ?nx (?c ?nx (len - ?n))"
      unfolding c split_range(2) next_range(1) [OF cle] ..
    have IH: "copyin_obj t ?nx (len - ?n) s = Done (if umapped ?m t ?nx (len - ?n) then 0 else -1,
        ubytes ?m t ?nx (?c ?nx (len - ?n))) s"
      by (rule less) (use n in linarith)
    show ?thesis
      unfolding ub um using 3 wa bs IH
      by (simp add: copyin_obj.simps [of t srcva len] kmon_simps bnd_run)
  qed
qed

text \<open>Copying into a kernel buffer stores the bytes that copying the object delivers.\<close>

lemma copyin_eq:
  assumes "wf_pt 2 t s fl" "kbuf t s fl dst (unat len)"
  shows "copyin t dst srcva len s =
    Done (if umapped (mem s) t srcva (unat len) then 0 else -1)
      (s\<lparr>mem := mem_write (mem s) dst (ubytes (mem s) t srcva (ucount (upage (mem s) t) srcva (unat len)))\<rparr>)"
  using assms
proof (induction "unat len" arbitrary: s dst srcva len rule: less_induct)
  case less
  let ?m = "mem s" and ?pa = "upage (mem s) t (vpn srcva)" and ?c = "ucount (upage (mem s) t)"
  have wa: "walkaddr t (PGROUNDDOWN srcva) s = Done ?pa s"
    using walkaddr_upage [OF less.prems(1), of "PGROUNDDOWN srcva"] by simp
  consider "len = 0" | "0 < len" "?pa = 0" | "0 < len" "?pa \<noteq> 0" by (auto simp: word_gt_0)
  then show ?case
  proof cases
    case 1
    then show ?thesis
      by (simp add: copyin.simps [of t dst srcva 0] ret_def umapped_def ubytes_def ucount.simps [of _ srcva 0])
  next
    case 2
    then have c: "?c srcva (unat len) = 0" by (simp add: ucount.simps [of _ srcva "unat len"])
    moreover have "\<not> umapped ?m t srcva (unat len)"
      using ucount_props [of ?m t srcva "unat len"] 2(1) c by (simp add: word_less_nat_alt)
    ultimately show ?thesis
      using 2 wa by (simp add: copyin.simps [of t dst srcva len] kmon_simps bnd_run ubytes_def)
  next
    case 3
    define n where "n = page_room srcva (unat len)"
    have un: "unat (page_chunk srcva len) = n" "of_nat n = page_chunk srcva len"
      by (simp_all add: n_def page_room_chunk)
    have n: "0 < n" "n \<le> unat len" "n \<le> 4096 - unat srcva mod 4096"
      using 3(1) page_room_pos by (simp_all add: n_def page_room_eq word_less_nat_alt)
    let ?nx = "PGROUNDDOWN srcva + PGSIZE"
    define bs where "bs = ubytes ?m t srcva n"
    define s1 where "s1 = s\<lparr>mem := mem_write ?m dst bs\<rparr>"
    have okp: "page_ok (k_end s) ?pa" using less.prems(2) 3(2) by (simp add: kbuf_def)
    have ua: "unat (uaddr ?m t srcva) = unat ?pa + unat srcva mod 4096"
      using page_no_wrap [OF okp] by (simp add: uaddr_def unat_word_ariths unat_mod_PGSIZE)
    have mv: "memmove ?m dst (?pa + (srcva - PGROUNDDOWN srcva)) n = mem_write ?m dst bs"
      unfolding va_off uaddr_def [symmetric] bs_def ubytes_chunk [OF n(3)]
      using page_no_wrap [OF okp] n ua less.prems(2) by (intro memmove_eq) (auto simp: kbuf_def)
    have lbs: "length bs = n" by (simp add: bs_def)
    note kw = kbuf_write [OF less.prems, of bs, unfolded lbs, OF n(2)]
    have step: "copyin t dst srcva len s = copyin t (dst + of_nat n) ?nx (len - of_nat n) s1"
      using 3 wa mv by (simp add: copyin.simps [of t dst srcva len] kmon_simps bnd_run s1_def un)
    have len': "unat (len - of_nat n) = unat len - n"
      using page_chunk_le [of srcva len] by (simp add: unat_sub un)
    have up: "upage (mem s1) t = upage ?m t" using kw(2) by (simp add: s1_def)
    have same_u: "ubytes (mem s1) t va k = ubytes ?m t va k" if "umapped ?m t va k" for va k
      unfolding ubytes_def
    proof (rule map_cong [OF refl])
      fix i assume "i \<in> set [0..<k]"
      then have "upage ?m t (vpn (va + of_nat i)) \<noteq> 0" using that by (simp add: umapped_def)
      from kw(5) [OF this] have "mem s1 (uaddr ?m t (va + of_nat i)) = ?m (uaddr ?m t (va + of_nat i))"
        unfolding s1_def uaddr_def by (simp add: same_page_off)
      then show "mem s1 (uaddr (mem s1) t (va + of_nat i)) = ?m (uaddr ?m t (va + of_nat i))"
        using up by (simp add: uaddr_def)
    qed
    have kb: "kbuf t s1 fl (dst + of_nat n) (unat (len - of_nat n))"
      using kw(4) [of "dst + of_nat n" "unat len - n"] kbuf_sub [OF less.prems(2), of n "unat len - n"] n(2)
      unfolding s1_def len' by simp
    have lt: "unat (len - of_nat n) < unat len" using n len' by linarith
    let ?k = "?c ?nx (unat len - n)"
    have k: "?k \<le> unat len - n" "umapped ?m t ?nx ?k" using ucount_props by blast+
    have IH: "copyin t (dst + of_nat n) ?nx (len - of_nat n) s1 =
        Done (if umapped ?m t ?nx (unat len - n) then 0 else -1)
          (s1\<lparr>mem := mem_write (mem s1) (dst + of_nat n) (ubytes ?m t ?nx ?k)\<rparr>)"
      using less.hyps [OF lt kw(1) [folded s1_def] kb, of ?nx] same_u [OF k(2)]
      unfolding len' up by (simp add: umapped_def up)
    have c: "?c srcva (unat len) = n + ?k"
      using 3 by (simp add: ucount.simps [of _ srcva "unat len"] n_def word_less_nat_alt)
    have um: "umapped ?m t srcva (unat len) = umapped ?m t ?nx (unat len - n)"
      using ucount_props [of ?m t srcva "unat len"] ucount_props [of ?m t ?nx "unat len - n"] n(2) unfolding c by auto
    have ub: "ubytes ?m t srcva (n + ?k) = bs @ ubytes ?m t ?nx ?k"
      using next_range(1) [of ?k "unat len" srcva ?m t] k(1) by (simp add: split_range(2) bs_def n_def)
    have "unat dst + length (bs @ ubytes ?m t ?nx ?k) < 2 ^ 64"
      using kbuf_nowrap [OF less.prems(2)] k(1) n(2) by (simp add: lbs)
    then have "mem_write (mem s1) (dst + of_nat n) (ubytes ?m t ?nx ?k) = mem_write ?m dst (bs @ ubytes ?m t ?nx ?k)"
      using mem_write_append [of dst bs _ ?m] unfolding lbs s1_def by simp
    then show ?thesis unfolding step IH um c ub by (simp add: s1_def)
  qed
qed

lemma copyin_spec:
  assumes "wf_pt 2 t s fl" "kbuf t s fl dst (unat len)"
  shows "\<exists>k. copyin t dst srcva len s =
      Done (if umapped (mem s) t srcva (unat len) then 0 else -1)
        (s\<lparr>mem := mem_write (mem s) dst (ubytes (mem s) t srcva k)\<rparr>) \<and>
    k \<le> unat len \<and> umapped (mem s) t srcva k \<and> (umapped (mem s) t srcva (unat len) \<longrightarrow> k = unat len)"
  using copyin_eq [OF assms] ucount_props by (intro exI conjI) (assumption, blast+)

subsection \<open>copyout\<close>

text \<open>
  A user address space of its own: user pages come from the allocator, no page is mapped twice,
  and none is a page-table page or free.
\<close>

definition uspace :: "u64 \<Rightarrow> 'z kmst_scheme \<Rightarrow> u64 list \<Rightarrow> bool" where
  "uspace t s fl \<longleftrightarrow>
     (\<forall>k. uwritable (mem s) t k \<longrightarrow> upage (mem s) t k \<noteq> 0) \<and>
     (\<forall>k. upage (mem s) t k \<noteq> 0 \<longrightarrow> page_ok (k_end s) (upage (mem s) t k) \<and>
        upage (mem s) t k \<notin># pt_pages (mem s) 2 t + mset fl) \<and>
     (\<forall>j k. upage (mem s) t k \<noteq> 0 \<longrightarrow> upage (mem s) t j = upage (mem s) t k \<longrightarrow> j = k)"

lemma upage_write:
  assumes wf: "wf_pt 2 t s fl" and us: "uspace t s fl" and p: "upage (mem s) t k \<noteq> 0"
    and bs: "off + length bs \<le> 4096"
  defines "m' \<equiv> mem_write (mem s) (upage (mem s) t k + of_nat off) bs"
  shows "wf_pt 2 t (s\<lparr>mem := m'\<rparr>) fl" "upage m' t = upage (mem s) t" "uwritable m' t = uwritable (mem s) t"
    "uspace t (s\<lparr>mem := m'\<rparr>) fl" "kbuf t s fl c n \<Longrightarrow> kbuf t (s\<lparr>mem := m'\<rparr>) fl c n"
    "kbuf t s fl c n \<Longrightarrow> i < n \<Longrightarrow> m' (c + of_nat i) = mem s (c + of_nat i)"
proof -
  let ?p = "upage (mem s) t k"
  have ok: "page_ok (k_end s) ?p" "?p \<notin># pt_pages (mem s) 2 t + mset fl" using us p by (auto simp: uspace_def)
  have same: "same_page (mem s) m' q" if "q \<in># pt_pages (mem s) 2 t + mset fl" for q
  proof -
    have "page_ok (k_end s) q" using wf that by (auto simp: wf_pt_def kmem_inv_def)
    then show ?thesis
      unfolding m'_def using ok that bs by (intro same_page_mem_write) (auto intro: page_ok_aligned)
  qed
  show "wf_pt 2 t (s\<lparr>mem := m'\<rparr>) fl" and u: "upage m' t = upage (mem s) t"
    and uw: "uwritable m' t = uwritable (mem s) t"
    by (rule table_same_pages [OF wf]; erule same)+
  have pg: "pt_pages m' 2 t = pt_pages (mem s) 2 t"
    by (rule table_same_pages [OF wf]; erule same)
  show "uspace t (s\<lparr>mem := m'\<rparr>) fl" using us u uw pg by (simp add: uspace_def)
  show "kbuf t (s\<lparr>mem := m'\<rparr>) fl c n" if "kbuf t s fl c n" using that u pg by (simp add: kbuf_def)
  show "m' (c + of_nat i) = mem s (c + of_nat i)" if kb: "kbuf t s fl c n" and i: "i < n"
  proof -
    have "disjoint_ranges ?p 4096 c n" using kb p by (simp add: kbuf_def)
    moreover have "unat (c + of_nat i) = unat c + i"
      using kbuf_nowrap [OF kb] i by (intro unat_add_of_nat) simp
    moreover have "unat (?p + of_nat off) = unat ?p + off"
      using page_no_wrap [OF ok(1)] bs by (intro unat_add_of_nat) simp
    ultimately show ?thesis
      unfolding m'_def using i bs by (intro mem_write_other) (auto simp: disjoint_ranges_def)
  qed
qed

definition uwritable_range :: "memory \<Rightarrow> u64 \<Rightarrow> u64 \<Rightarrow> nat \<Rightarrow> bool" where
  "uwritable_range m t va n \<longleftrightarrow> (\<forall>i < n. uwritable m t (vpn (va + of_nat i)))"

lemma uwritable_range_chunk:
  assumes "n \<le> 4096 - unat va mod 4096" "0 < n"
  shows "uwritable_range m t va n \<longleftrightarrow> uwritable m t (vpn va)"
  using assms va_plus(2) [of _ va] unfolding uwritable_range_def by (metis order_less_le_trans)

lemma uwritable_range_split:
  "uwritable_range m t va (k + n) \<longleftrightarrow> uwritable_range m t va k \<and> uwritable_range m t (va + of_nat k) n"
proof
  assume a: "uwritable_range m t va (k + n)"
  have "uwritable m t (vpn (va + of_nat k + of_nat i))" if "i < n" for i
    using a [unfolded uwritable_range_def, rule_format, of "k + i"] that by (simp add: add.assoc)
  then show "uwritable_range m t va k \<and> uwritable_range m t (va + of_nat k) n"
    using a by (simp add: uwritable_range_def)
next
  assume a: "uwritable_range m t va k \<and> uwritable_range m t (va + of_nat k) n"
  show "uwritable_range m t va (k + n)"
    unfolding uwritable_range_def
  proof (intro allI impI)
    fix i assume "i < k + n"
    then show "uwritable m t (vpn (va + of_nat i))"
      using a [THEN conjunct1, unfolded uwritable_range_def, rule_format, of i]
        a [THEN conjunct2, unfolded uwritable_range_def, rule_format, of "i - k"]
      by (cases "i < k") (auto simp: add.assoc simp flip: of_nat_add)
  qed
qed

text \<open>Distinct user addresses of a range lie at distinct physical addresses.\<close>

lemma uaddr_inj:
  assumes "uspace t s fl" "upage (mem s) t (vpn a) \<noteq> 0" "upage (mem s) t (vpn b) \<noteq> 0"
    and "uaddr (mem s) t a = uaddr (mem s) t b"
  shows "a = b"
proof -
  let ?p = "upage (mem s) t (vpn a)" and ?q = "upage (mem s) t (vpn b)"
  have ok: "page_ok (k_end s) ?p" "page_ok (k_end s) ?q" using assms by (auto simp: uspace_def)
  have u: "unat (uaddr (mem s) t a) = unat ?p + unat a mod 4096"
    "unat (uaddr (mem s) t b) = unat ?q + unat b mod 4096"
    using page_no_wrap [OF ok(1)] page_no_wrap [OF ok(2)]
    by (simp_all add: uaddr_def unat_word_ariths unat_mod_PGSIZE)
  have d: "4096 dvd unat ?p" "4096 dvd unat ?q" using ok by (simp_all add: page_ok_def mod_PGSIZE_eq_0_iff)
  have eq: "unat ?p + unat a mod 4096 = unat ?q + unat b mod 4096" using u assms(4) by simp
  have "?p = ?q"
  proof (rule ccontr)
    assume "?p \<noteq> ?q"
    then have "unat ?p + 4096 \<le> unat ?q \<or> unat ?q + 4096 \<le> unat ?p" using d by (intro page_gap)
    moreover have "unat a mod 4096 < 4096" "unat b mod 4096 < 4096" by simp_all
    ultimately show False using eq by linarith
  qed
  then have "vpn a = vpn b" "unat a mod 4096 = unat b mod 4096"
    using assms(1-3) eq unfolding uspace_def by auto
  then have "unat a = unat b" unfolding vpn_def by (metis div_mult_mod_eq)
  then show ?thesis by (simp add: word_unat_eq_iff)
qed

text \<open>One round of the loop of \<open>copyout\<close>.\<close>

lemma copyout_round:
  fixes dstva :: u64
  assumes wf: "wf_pt 2 t s fl" and us: "uspace t s fl" and len: "0 < len"
    and kb: "kbuf t s fl src (unat len)"
  defines "n \<equiv> page_chunk dstva len"
  shows "copyout t dstva src len s =
    (if uwritable (mem s) t (vpn dstva)
     then copyout t (PGROUNDDOWN dstva + PGSIZE) (src + n) (len - n)
            (s\<lparr>mem := mem_write (mem s) (uaddr (mem s) t dstva) (mem_read (mem s) src (unat n))\<rparr>)
     else Done (-1) s)"
proof (cases "PGROUNDDOWN dstva < MAXVA")
  case False
  then have "copyout t dstva src len s = Done (-1) s"
    using len by (simp add: copyout.simps [of t dstva src len] kmon_simps not_less)
  moreover have "\<not> uwritable (mem s) t (vpn dstva)"
    using False vpn_less [of "PGROUNDDOWN dstva"] by (simp add: uwritable_def)
  ultimately show ?thesis by simp
next
  case True
  have lt: "vpn dstva < 2 ^ 26" using True vpn_less [of "PGROUNDDOWN dstva"] by simp
  let ?e = "pt_map (mem s) t (vpn dstva)"
  obtain pte where w: "walk t (PGROUNDDOWN dstva) False s = Done pte s"
      "(if pte = 0 then 0 else load64 (mem s) pte) = ?e"
    using walk_noalloc [OF wf True] by auto
  have bad: "pte = 0 \<or> load64 (mem s) pte AND PTE_V = 0 \<or> load64 (mem s) pte AND PTE_U = 0 \<or>
      load64 (mem s) pte AND PTE_W = 0 \<longleftrightarrow> \<not> uwritable (mem s) t (vpn dstva)"
    using w(2) lt by (auto simp: uwritable_def split: if_splits)
  have nle: "\<not> MAXVA \<le> PGROUNDDOWN dstva" using True by (simp add: not_le)
  show ?thesis
  proof (cases "uwritable (mem s) t (vpn dstva)")
    case uw: True
    have e: "load64 (mem s) pte = ?e" "pte \<noteq> 0" using w(2) uw by (auto simp: uwritable_def split: if_splits)
    have pa: "PTE2PA ?e = upage (mem s) t (vpn dstva)" using uw by (simp add: uwritable_def upage_def)
    have ok: "page_ok (k_end s) (upage (mem s) t (vpn dstva))" using us uw by (auto simp: uspace_def)
    have "unat (uaddr (mem s) t dstva) = unat (upage (mem s) t (vpn dstva)) + unat dstva mod 4096"
      using page_no_wrap [OF ok] by (simp add: uaddr_def unat_word_ariths unat_mod_PGSIZE)
    then have "memmove (mem s) (uaddr (mem s) t dstva) src (unat n) =
        mem_write (mem s) (uaddr (mem s) t dstva) (mem_read (mem s) src (unat n))"
      using page_no_wrap [OF ok] kbuf_nowrap [OF kb]
      by (intro memmove_eq) (auto simp: n_def unat_page_chunk)
    then have mv: "memmove (mem s) (PTE2PA ?e + (dstva - PGROUNDDOWN dstva)) src (unat n) =
        mem_write (mem s) (uaddr (mem s) t dstva) (mem_read (mem s) src (unat n))"
      by (simp add: pa va_off uaddr_def)
    show ?thesis
      using len nle w(1) bad uw e mv
      by (simp add: copyout.simps [of t dstva src len] kmon_simps bnd_run n_def)
  next
    case False
    then show ?thesis
      using len nle w(1) bad
      by (simp add: copyout.simps [of t dstva src len] kmon_simps bnd_run)
  qed
qed

lemma copyout_obj_round:
  fixes dstva :: u64
  assumes wf: "wf_pt 2 t s fl" and bs: "bs \<noteq> []"
  defines "n \<equiv> page_room dstva (length bs)"
  shows "copyout_obj t dstva bs s =
    (if uwritable (mem s) t (vpn dstva)
     then copyout_obj t (PGROUNDDOWN dstva + PGSIZE) (drop n bs)
            (s\<lparr>mem := mem_write (mem s) (uaddr (mem s) t dstva) (take n bs)\<rparr>)
     else Done (-1) s)"
proof (cases "PGROUNDDOWN dstva < MAXVA")
  case False
  then have "copyout_obj t dstva bs s = Done (-1) s"
    using bs by (simp add: copyout_obj.simps [of t dstva bs] kmon_simps not_less)
  moreover have "\<not> uwritable (mem s) t (vpn dstva)"
    using False vpn_less [of "PGROUNDDOWN dstva"] by (simp add: uwritable_def)
  ultimately show ?thesis by simp
next
  case True
  have lt: "vpn dstva < 2 ^ 26" using True vpn_less [of "PGROUNDDOWN dstva"] by simp
  let ?e = "pt_map (mem s) t (vpn dstva)"
  obtain pte where w: "walk t (PGROUNDDOWN dstva) False s = Done pte s"
      "(if pte = 0 then 0 else load64 (mem s) pte) = ?e"
    using walk_noalloc [OF wf True] by auto
  have bad: "pte = 0 \<or> load64 (mem s) pte AND PTE_V = 0 \<or> load64 (mem s) pte AND PTE_U = 0 \<or>
      load64 (mem s) pte AND PTE_W = 0 \<longleftrightarrow> \<not> uwritable (mem s) t (vpn dstva)"
    using w(2) lt by (auto simp: uwritable_def split: if_splits)
  have nle: "\<not> MAXVA \<le> PGROUNDDOWN dstva" using True by (simp add: not_le)
  have "load64 (mem s) pte = ?e" "PTE2PA ?e + (dstva - PGROUNDDOWN dstva) = uaddr (mem s) t dstva"
    if "uwritable (mem s) t (vpn dstva)"
    using w(2) that by (auto simp: uwritable_def upage_def uaddr_def va_off split: if_splits)
  then show ?thesis
    using bs nle w(1) bad by (auto simp: copyout_obj.simps [of t dstva bs] kmon_simps bnd_run n_def)
qed

lemma drop_mem_read: "drop n (mem_read m a k) = mem_read m (a + of_nat n) (k - n)"
  by (intro nth_equalityI) (simp_all add: add.assoc)

lemma take_mem_read: "n \<le> k \<Longrightarrow> take n (mem_read m a k) = mem_read m a n"
  by (intro nth_equalityI) simp_all

text \<open>Copying a kernel buffer out is copying the object with its bytes.\<close>

lemma copyout_eq:
  assumes "wf_pt 2 t s fl" "uspace t s fl" "kbuf t s fl src (unat len)"
  shows "copyout t dstva src len s = copyout_obj t dstva (mem_read (mem s) src (unat len)) s"
  using assms
proof (induction "unat len" arbitrary: s dstva src len rule: less_induct)
  case less
  let ?m = "mem s"
  show ?case
  proof (cases "len = 0")
    case True
    then show ?thesis by (simp add: copyout.simps [of t dstva src 0] copyout_obj.simps [of t dstva "[]"])
  next
    case False
    then have pos: "0 < len" by (simp add: word_gt_0)
    define n where "n = page_room dstva (unat len)"
    have un: "page_chunk dstva len = of_nat n" "unat (page_chunk dstva len) = n"
      by (simp_all add: n_def page_room_chunk)
    then have un3: "unat (of_nat n :: u64) = n" by simp
    have n: "0 < n" "n \<le> unat len" "n \<le> 4096 - unat dstva mod 4096"
      using pos page_room_pos by (simp_all add: n_def page_room_eq word_less_nat_alt)
    have ne: "mem_read ?m src (unat len) \<noteq> []" using pos by (metis length_mem_read list.size(3) n(1,2) not_le)
    show ?thesis
    proof (cases "uwritable ?m t (vpn dstva)")
      case uw: True
      define m1 where "m1 = mem_write ?m (uaddr ?m t dstva) (mem_read ?m src n)"
      let ?s1 = "s\<lparr>mem := m1\<rparr>"
      have pnz: "upage ?m t (vpn dstva) \<noteq> 0" using uw less.prems(2) by (simp add: uspace_def)
      have off: "uaddr ?m t dstva = upage ?m t (vpn dstva) + of_nat (unat dstva mod 4096)"
        by (simp add: uaddr_def flip: unat_mod_PGSIZE)
      have fit: "unat dstva mod 4096 + length (mem_read ?m src n) \<le> 4096" using n(3) by simp
      note kw = upage_write [OF less.prems(1,2) pnz fit, folded off m1_def]
      have len': "unat (len - of_nat n) = unat len - n"
        using page_chunk_le [of dstva len] by (simp add: unat_sub un un3)
      have kb: "kbuf t ?s1 fl (src + of_nat n) (unat (len - of_nat n))"
        using kw(5) [of "src + of_nat n" "unat len - n"] kbuf_sub [OF less.prems(3), of n "unat len - n"] n(2)
        unfolding len' by simp
      have lt: "unat (len - of_nat n) < unat len" using n len' by linarith
      have rd: "mem_read m1 (src + of_nat n) (unat len - n) = mem_read ?m (src + of_nat n) (unat len - n)"
      proof (rule nth_equalityI)
        fix i assume "i < length (mem_read m1 (src + of_nat n) (unat len - n))"
        then show "mem_read m1 (src + of_nat n) (unat len - n) ! i = mem_read ?m (src + of_nat n) (unat len - n) ! i"
          using kw(6) [OF less.prems(3), of "n + i"] by (simp add: add.assoc)
      qed simp
      have "copyout t dstva src len s = copyout t (PGROUNDDOWN dstva + PGSIZE) (src + of_nat n) (len - of_nat n) ?s1"
        using copyout_round [OF less.prems(1,2) pos less.prems(3), of dstva] uw by (simp add: m1_def un un3)
      also have "\<dots> = copyout_obj t (PGROUNDDOWN dstva + PGSIZE) (mem_read m1 (src + of_nat n) (unat len - n)) ?s1"
        using less.hyps [OF lt kw(1) kw(4) kb, of "PGROUNDDOWN dstva + PGSIZE"] by (simp add: len')
      also have "\<dots> = copyout_obj t dstva (mem_read ?m src (unat len)) s"
        using copyout_obj_round [OF less.prems(1) ne, of dstva] uw n(2) unfolding rd
        by (simp add: m1_def drop_mem_read take_mem_read flip: n_def)
      finally show ?thesis .
    next
      case False
      then show ?thesis
        using copyout_round [OF less.prems(1,2) pos less.prems(3), of dstva] copyout_obj_round [OF less.prems(1) ne, of dstva]
        by simp
    qed
  qed
qed

lemma copyout_obj_spec:
  assumes "wf_pt 2 t s fl" "uspace t s fl" "length bs < 2 ^ 64"
  shows "\<exists>k m'. copyout_obj t dstva bs s =
      Done (if uwritable_range (mem s) t dstva (length bs) then 0 else -1) (s\<lparr>mem := m'\<rparr>) \<and>
    k \<le> length bs \<and> (uwritable_range (mem s) t dstva (length bs) \<longrightarrow> k = length bs) \<and>
    uwritable_range (mem s) t dstva k \<and>
    (\<forall>i < k. m' (uaddr (mem s) t (dstva + of_nat i)) = bs ! i) \<and>
    (\<forall>x. (\<forall>i < k. x \<noteq> uaddr (mem s) t (dstva + of_nat i)) \<longrightarrow> m' x = mem s x)"
  using assms
proof (induction "length bs" arbitrary: s dstva bs rule: less_induct)
  case less
  let ?m = "mem s"
  show ?case
  proof (cases "bs \<noteq> [] \<and> uwritable ?m t (vpn dstva)")
    case False
    have "copyout_obj t dstva bs s = Done (if uwritable_range ?m t dstva (length bs) then 0 else -1) (s\<lparr>mem := ?m\<rparr>)"
    proof (cases "bs = []")
      case True
      then show ?thesis by (simp add: copyout_obj.simps [of t dstva "[]"] ret_def uwritable_range_def)
    next
      case ne: False
      then have "\<not> uwritable_range ?m t dstva (length bs)"
        using False unfolding uwritable_range_def by (auto intro!: exI [of _ 0])
      then show ?thesis using copyout_obj_round [OF less.prems(1) ne] False ne by simp
    qed
    then show ?thesis
      using False by (intro exI [of _ 0] exI [of _ ?m]) (auto simp: uwritable_range_def)
  next
    case True
    let ?nx = "PGROUNDDOWN dstva + PGSIZE"
    define n where "n = page_room dstva (length bs)"
    have n: "0 < n" "n \<le> length bs" "n \<le> 4096 - unat dstva mod 4096"
      using page_room_pos [of "length bs" dstva] True by (auto simp: n_def page_room_eq)
    define m1 where "m1 = mem_write ?m (uaddr ?m t dstva) (take n bs)"
    let ?s1 = "s\<lparr>mem := m1\<rparr>"
    have pnz: "upage ?m t (vpn dstva) \<noteq> 0" using True less.prems(2) by (simp add: uspace_def)
    have off: "uaddr ?m t dstva = upage ?m t (vpn dstva) + of_nat (unat dstva mod 4096)"
      by (simp add: uaddr_def flip: unat_mod_PGSIZE)
    have fit: "unat dstva mod 4096 + length (take n bs) \<le> 4096" using n(3) by simp
    note kw = upage_write [OF less.prems(1,2) pnz fit, folded off m1_def]
    have step: "copyout_obj t dstva bs s = copyout_obj t ?nx (drop n bs) ?s1"
      using copyout_obj_round [OF less.prems(1), of bs dstva] True by (simp add: m1_def n_def)
    have nx: "?nx = dstva + of_nat n \<or> length bs - n = 0"
      using page_room_next [of dstva "length bs"] n(2) by (cases "n < length bs") (auto simp: n_def)
    have lt: "length (drop n bs) < length bs" "length (drop n bs) < 2 ^ 64" using n less.prems(3) by auto
    have "mem ?s1 = m1" by simp
    moreover have "uwritable_range m1 t = uwritable_range ?m t" "uaddr m1 t = uaddr ?m t"
      by (simp_all only: fun_eq_iff uwritable_range_def uaddr_def kw(2,3) simp_thms)
    ultimately have same: "mem ?s1 = m1" "uwritable_range m1 t = uwritable_range ?m t" "uaddr m1 t = uaddr ?m t"
      by blast+
    obtain k m' where K: "copyout_obj t ?nx (drop n bs) ?s1 =
        Done (if uwritable_range ?m t ?nx (length bs - n) then 0 else -1) (?s1\<lparr>mem := m'\<rparr>)"
        "k \<le> length bs - n" "uwritable_range ?m t ?nx (length bs - n) \<longrightarrow> k = length bs - n"
        "uwritable_range ?m t ?nx k"
        "\<forall>i < k. m' (uaddr ?m t (?nx + of_nat i)) = drop n bs ! i"
        "\<forall>x. (\<forall>i < k. x \<noteq> uaddr ?m t (?nx + of_nat i)) \<longrightarrow> m' x = m1 x"
      using less.hyps [OF lt(1) kw(1) kw(4) lt(2), of ?nx] unfolding same length_drop by blast
    have at: "?nx + of_nat j = dstva + of_nat (n + j)" if "j < k" for j
      using nx K(2) that by (auto simp: add.assoc)
    have rng: "uwritable_range ?m t dstva n" using uwritable_range_chunk [OF n(3,1)] True by blast
    have nxr: "uwritable_range ?m t ?nx j = uwritable_range ?m t (dstva + of_nat n) j" if "j \<le> length bs - n" for j
      using nx that by (auto simp: uwritable_range_def)
    have all: "uwritable_range ?m t dstva (length bs) = uwritable_range ?m t ?nx (length bs - n)"
      using uwritable_range_split [of ?m t dstva n "length bs - n"] n(2) rng nxr by simp
    have rngk: "uwritable_range ?m t dstva (n + k)"
      using uwritable_range_split [of ?m t dstva n k] rng nxr [OF K(2)] K(4) by simp
    have m1: "m1 (uaddr ?m t (dstva + of_nat i)) = bs ! i" if "i < n" for i
      using that n(2,3) va_plus [of i dstva]
      by (simp add: m1_def mem_write_def uaddr_def add.assoc unat_of_nat)
    have ua: "upage ?m t (vpn (dstva + of_nat i)) \<noteq> 0" if "i < n + k" for i
      using rngk that less.prems(2) by (simp add: uwritable_range_def uspace_def)
    have inj: "uaddr ?m t (dstva + of_nat i) \<noteq> uaddr ?m t (?nx + of_nat j)" if "i < n" "j < k" for i j
    proof
      assume "uaddr ?m t (dstva + of_nat i) = uaddr ?m t (?nx + of_nat j)"
      then have "dstva + of_nat i = dstva + of_nat (n + j)"
        unfolding at [OF that(2)] using that by (intro uaddr_inj [OF less.prems(2) ua ua]) auto
      then have "unat (of_nat i :: u64) = unat (of_nat (n + j) :: u64)" by simp
      moreover have "n + j < 2 ^ 64" using that(2) K(2) n(2) less.prems(3) by linarith
      ultimately show False using that(1) by (simp add: unat_of_nat del: of_nat_add)
    qed
    have "m' (uaddr ?m t (dstva + of_nat i)) = bs ! i" if i: "i < n + k" for i
    proof (cases "i < n")
      case True
      then show ?thesis using K(6) inj m1 by simp
    next
      case False
      then obtain j where j: "i = n + j" "j < k" using i by (metis add_diff_inverse_nat nat_add_left_cancel_less)
      then show ?thesis using K(5) [rule_format, OF j(2)] n(2) unfolding at [OF j(2)] by simp
    qed
    moreover have "m' x = ?m x" if x: "\<forall>i < n + k. x \<noteq> uaddr ?m t (dstva + of_nat i)" for x
    proof -
      have "x \<noteq> uaddr ?m t (?nx + of_nat j)" if "j < k" for j
        unfolding at [OF that] using x [rule_format, of "n + j"] that by simp
      then have "m' x = m1 x" using K(6) by blast
      also have "\<dots> = ?m x"
      proof (cases "unat (x - uaddr ?m t dstva) < n")
        case True
        define i where "i = unat (x - uaddr ?m t dstva)"
        have "x = uaddr ?m t dstva + of_nat i" by (simp add: i_def)
        then have "x = uaddr ?m t (dstva + of_nat i)"
          using va_plus [of i dstva] n(3) True by (simp add: i_def uaddr_def add.assoc)
        moreover have "i < n + k" using True by (simp add: i_def)
        ultimately show ?thesis using x by blast
      qed (simp add: m1_def mem_write_def)
      finally show ?thesis .
    qed
    ultimately show ?thesis
      using step K(1-3) n(2) all rngk by (intro exI [of _ "n + k"] exI [of _ m']) auto
  qed
qed

lemma copyout_spec:
  assumes "wf_pt 2 t s fl" "uspace t s fl" "kbuf t s fl src (unat len)"
  shows "\<exists>k m'. copyout t dstva src len s =
      Done (if uwritable_range (mem s) t dstva (unat len) then 0 else -1) (s\<lparr>mem := m'\<rparr>) \<and>
    k \<le> unat len \<and> (uwritable_range (mem s) t dstva (unat len) \<longrightarrow> k = unat len) \<and>
    uwritable_range (mem s) t dstva k \<and>
    (\<forall>i < k. m' (uaddr (mem s) t (dstva + of_nat i)) = mem s (src + of_nat i)) \<and>
    (\<forall>x. (\<forall>i < k. x \<noteq> uaddr (mem s) t (dstva + of_nat i)) \<longrightarrow> m' x = mem s x)"
proof -
  have "unat len < 2 ^ 64" using unsigned_less [of len] by simp
  then have len: "length (mem_read (mem s) src (unat len)) < 2 ^ 64" by simp
  obtain k m' where K: "copyout t dstva src len s =
      Done (if uwritable_range (mem s) t dstva (unat len) then 0 else -1) (s\<lparr>mem := m'\<rparr>)"
    "k \<le> unat len" "uwritable_range (mem s) t dstva (unat len) \<longrightarrow> k = unat len" "uwritable_range (mem s) t dstva k"
    "\<forall>i < k. m' (uaddr (mem s) t (dstva + of_nat i)) = mem_read (mem s) src (unat len) ! i"
    "\<forall>x. (\<forall>i < k. x \<noteq> uaddr (mem s) t (dstva + of_nat i)) \<longrightarrow> m' x = mem s x"
    using copyout_obj_spec [OF assms(1,2) len, of dstva] unfolding copyout_eq [OF assms] length_mem_read by blast
  have "\<forall>i < k. m' (uaddr (mem s) t (dstva + of_nat i)) = mem s (src + of_nat i)"
    using K(2,5) by (metis nth_mem_read order_less_le_trans)
  then show ?thesis using K(1-4,6) by blast
qed

subsection \<open>Properties\<close>

lemma demo_upage: "upage demo_mem 0x80022000 n = (if n = 0 then 0x80025000 else 0)"
proof (cases "n < 2 ^ 26")
  case True
  have "(PA2PTE 0x80025000 OR (PTE_R OR PTE_W OR PTE_U) OR PTE_V) AND PTE_V \<noteq> 0"
    "(PA2PTE 0x80025000 OR (PTE_R OR PTE_W OR PTE_U) OR PTE_V) AND PTE_U \<noteq> 0"
    by (simp_all add: PA2PTE_def pte_flag_defs)
  then show ?thesis using True by (simp add: upage_def Let_def demo_map demo_PTE2PA)
qed (auto simp: upage_def)

lemma demo_uwritable: "uwritable demo_mem 0x80022000 n \<longleftrightarrow> n = 0"
  by (cases "n < 2 ^ 26") (auto simp: uwritable_def demo_map PA2PTE_def pte_flag_defs)

lemma demo_kbuf: "n \<le> 4096 \<Longrightarrow> kbuf 0x80022000 demo_vm [] 0x80001000 n"
  by (auto simp: kbuf_def demo_vm_def demo_upage demo_pages disjoint_ranges_def reset_mach_def demo_page_ok)

lemma demo_uspace: "uspace 0x80022000 demo_vm []"
  by (auto simp: uspace_def demo_vm_def demo_upage demo_uwritable demo_pages reset_mach_def demo_page_ok
      split: if_splits)

text \<open>
  C13. \<open>copyin\<close> never faults or panics. It returns 0 exactly when every page of the user range
  is mapped for user access, and then the kernel buffer holds the user's bytes; otherwise it
  returns -1 and has stored the bytes of a prefix that is mapped. No memory outside the buffer
  changes, and no memory outside the user's own pages flows into it.
\<close>

theorem copyin_reads_user_bytes:
  assumes "wf_pt 2 t s fl" "kbuf t s fl dst (unat len)"
  shows "\<exists>k. copyin t dst srcva len s =
      Done (if umapped (mem s) t srcva (unat len) then 0 else -1)
        (s\<lparr>mem := mem_write (mem s) dst (ubytes (mem s) t srcva k)\<rparr>) \<and>
    k \<le> unat len \<and> umapped (mem s) t srcva k \<and> (umapped (mem s) t srcva (unat len) \<longrightarrow> k = unat len)"
  using assms by (rule copyin_spec)

theorem copyin_reads_user_bytes_witness:
  "copyin 0x80022000 0x80001000 0xFF0 16 demo_vm =
     Done 0 (demo_vm\<lparr>mem := mem_write demo_mem 0x80001000 (ubytes demo_mem 0x80022000 0xFF0 16)\<rparr>) \<and>
   (\<exists>s'. copyin 0x80022000 0x80001000 0xFF0 17 demo_vm = Done (-1) s')"
proof -
  have m: "mem demo_vm = demo_mem" by (simp add: demo_vm_def)
  have v: "vpn (0xFF0 + of_nat i) = (0xFF0 + i) div 4096" if "i < 4096" for i
    using that unat_add_of_nat [of "0xFF0" i] by (simp add: vpn_def)
  have "umapped demo_mem 0x80022000 0xFF0 16" by (auto simp: umapped_def demo_upage v)
  moreover have "\<not> umapped demo_mem 0x80022000 0xFF0 17"
    using v [of 16] by (auto simp: umapped_def demo_upage intro!: exI [of _ 16])
  ultimately show ?thesis
    using copyin_reads_user_bytes [OF demo_wf demo_kbuf, of 16 "0xFF0"]
      copyin_reads_user_bytes [OF demo_wf demo_kbuf, of 17 "0xFF0"] by (auto simp: m)
qed

text \<open>
  C14. \<open>copyout\<close> never faults or panics. It returns 0 exactly when every page of the user range
  is mapped valid, user-accessible and writable, and then the user range holds the bytes of the
  kernel buffer; otherwise it returns -1 after a writable prefix. No byte outside that user
  range changes: not the kernel, not page tables, not free pages, not read-only user pages.
\<close>

theorem copyout_writes_user_bytes:
  assumes "wf_pt 2 t s fl" "uspace t s fl" "kbuf t s fl src (unat len)"
  shows "\<exists>k m'. copyout t dstva src len s =
      Done (if uwritable_range (mem s) t dstva (unat len) then 0 else -1) (s\<lparr>mem := m'\<rparr>) \<and>
    k \<le> unat len \<and> (uwritable_range (mem s) t dstva (unat len) \<longrightarrow> k = unat len) \<and>
    uwritable_range (mem s) t dstva k \<and>
    (\<forall>i < k. m' (uaddr (mem s) t (dstva + of_nat i)) = mem s (src + of_nat i)) \<and>
    (\<forall>x. (\<forall>i < k. x \<noteq> uaddr (mem s) t (dstva + of_nat i)) \<longrightarrow> m' x = mem s x)"
  using assms by (rule copyout_spec)

theorem copyout_writes_user_bytes_witness:
  "\<exists>m'. copyout 0x80022000 0xFF0 0x80001000 16 demo_vm = Done 0 (demo_vm\<lparr>mem := m'\<rparr>) \<and>
     m' (uaddr demo_mem 0x80022000 0xFF0) = demo_mem 0x80001000"
proof -
  have m: "mem demo_vm = demo_mem" by (simp add: demo_vm_def)
  have v: "vpn (0xFF0 + of_nat i) = (0xFF0 + i) div 4096" if "i < 4096" for i
    using that unat_add_of_nat [of "0xFF0" i] by (simp add: vpn_def)
  have "uwritable_range demo_mem 0x80022000 0xFF0 16" by (auto simp: uwritable_range_def demo_uwritable v)
  then show ?thesis
    using copyout_writes_user_bytes [OF demo_wf demo_uspace demo_kbuf, of 16 "0xFF0"]
    by (force simp: m)
qed

end
