(* ===== verification/Proc_Core.thy ===== *)
theory Proc_Core
  imports Vm_Copy
begin

text \<open>
  \<open>kernel/proc.c\<close>, first part: the process table and the operations that the rest of the kernel
  calls to wait and to be woken: \<open>myproc\<close>, \<open>sched\<close>, \<open>yield\<close>, \<open>sleep\<close>, \<open>wakeup\<close>, \<open>kill\<close> and the
  copies that go to either a user or a kernel address. A process is named by its index in the
  table; file and inode pointers are indices into their tables.
\<close>

subsection \<open>State\<close>

datatype procstate = UNUSED | USED | SLEEPING | RUNNABLE | RUNNING | ZOMBIE

text \<open>The addresses that processes sleep on.\<close>

datatype chan = NoChan | ChProc nat | ChTicks | ChConsR | ChUartTx | ChLog | ChBuf nat | ChInode nat
  | ChPipeR u64 | ChPipeW u64 | ChVdiskFree | ChVdiskBuf nat

record kcontext =
  ctx_ra :: u64
  ctx_sp :: u64
  ctx_s0 :: u64
  ctx_s1 :: u64
  ctx_s2 :: u64
  ctx_s3 :: u64
  ctx_s4 :: u64
  ctx_s5 :: u64
  ctx_s6 :: u64
  ctx_s7 :: u64
  ctx_s8 :: u64
  ctx_s9 :: u64
  ctx_s10 :: u64
  ctx_s11 :: u64

record proc =
  p_state :: procstate
  p_chan :: chan
  p_killed :: int
  p_xstate :: int
  p_pid :: int
  p_parent :: "nat option"
  p_kstack :: u64
  p_sz :: u64
  p_pagetable :: u64
  p_trapframe :: u64
  p_context :: kcontext
  p_ofile :: "nat option list"
  p_cwd :: "nat option"
  p_name :: "u8 list"

record procst = vmst +
  procs :: "proc list"
  nextpid :: int
  initproc :: "nat option"
  ticks :: u32

lemma vmst_frame [simp]:
  "cpu_quiet (kernel_pagetable_update f s) = cpu_quiet s" "lk_free lk (kernel_pagetable_update f s) = lk_free lk s"
  "kernel_pagetable (acquired lk s) = kernel_pagetable s" "k_trampoline (acquired lk s) = k_trampoline s"
  "satp (acquired lk s) = satp s"
  by (simp_all add: cpu_quiet_def lk_free_def acquired_def mach_defs)

lemma procst_frame [simp]:
  "cpu_quiet (procs_update f s) = cpu_quiet s" "cpu_quiet (nextpid_update g s) = cpu_quiet s"
  "cpu_quiet (ticks_update h s) = cpu_quiet s"
  "lk_free lk (procs_update f s) = lk_free lk s" "lk_free lk (nextpid_update g s) = lk_free lk s"
  "lk_free lk (ticks_update h s) = lk_free lk s"
  "procs (acquired lk s) = procs s" "nextpid (acquired lk s) = nextpid s"
  "initproc (acquired lk s) = initproc s" "ticks (acquired lk s) = ticks s"
  "procs_update f (acquired lk s) = acquired lk (procs_update f s)"
  "nextpid_update g (acquired lk s) = acquired lk (nextpid_update g s)"
  "ticks_update h (acquired lk s) = acquired lk (ticks_update h s)"
  by (simp_all add: cpu_quiet_def lk_free_def acquired_def mach_defs)

definition proc_upd :: "nat \<Rightarrow> (proc \<Rightarrow> proc) \<Rightarrow> ('z procst_scheme, unit) kmon" where
  "proc_upd i f = modify (\<lambda>s. s\<lparr>procs := (procs s)[i := f (procs s ! i)]\<rparr>)"

subsection \<open>The running process\<close>

definition myproc :: "('z mach_scheme, nat option) kmon" where
  "myproc = thn push_off (bnd (gets (\<lambda>s. c_proc (mycpu s))) (\<lambda>p. thn pop_off (ret p)))"

text \<open>\<open>struct proc *p = myproc()\<close> where \<open>p\<close> is then dereferenced.\<close>

definition curproc :: "('z mach_scheme, nat) kmon" where
  "curproc = bnd myproc (\<lambda>p. case p of None \<Rightarrow> fault | Some i \<Rightarrow> ret i)"

definition allocpid :: "('z procst_scheme, int) kmon" where
  "allocpid =
     thn (acquire LkPid) (
     bnd (gets nextpid) (\<lambda>pid.
     thn (modify (\<lambda>s. s\<lparr>nextpid := nextpid s + 1\<rparr>)) (
     thn (release LkPid) (ret pid))))"

subsection \<open>Giving up and getting the CPU\<close>

definition sched :: "('z procst_scheme, unit) kmon" where
  "sched =
     bnd curproc (\<lambda>p.
     bnd (gets (holding (LkProc p))) (\<lambda>h.
     if \<not> h then panic ''sched p->lock'' else
     bnd (gets (\<lambda>s. c_noff (mycpu s))) (\<lambda>noff.
     if noff \<noteq> 1 then panic ''sched locks'' else
     bnd (gets (\<lambda>s. p_state (procs s ! p))) (\<lambda>st.
     if st = RUNNING then panic ''sched running'' else
     bnd intr_get (\<lambda>on.
     if on then panic ''sched interruptible'' else
     bnd (gets (\<lambda>s. c_intena (mycpu s))) (\<lambda>intena.
     thn swtch
         (modify (mycpu_upd (\<lambda>c. c\<lparr>c_intena := intena\<rparr>)))))))))"

definition yield :: "('z procst_scheme, unit) kmon" where
  "yield =
     bnd curproc (\<lambda>p.
     thn (acquire (LkProc p)) (
     thn (proc_upd p (\<lambda>q. q\<lparr>p_state := RUNNABLE\<rparr>)) (
     thn sched
         (release (LkProc p)))))"

definition sleep :: "chan \<Rightarrow> lockid \<Rightarrow> ('z procst_scheme, unit) kmon" where
  "sleep ch lk =
     bnd curproc (\<lambda>p.
     thn (acquire (LkProc p)) (
     thn (release lk) (
     thn (proc_upd p (\<lambda>q. q\<lparr>p_chan := ch\<rparr>)) (
     thn (proc_upd p (\<lambda>q. q\<lparr>p_state := SLEEPING\<rparr>)) (
     thn sched (
     thn (proc_upd p (\<lambda>q. q\<lparr>p_chan := NoChan\<rparr>)) (
     thn (release (LkProc p))
         (acquire lk))))))))"

definition wakeup :: "chan \<Rightarrow> ('z procst_scheme, unit) kmon" where
  "wakeup ch =
     for_each [0..<NPROC] (\<lambda>i.
       bnd myproc (\<lambda>me.
       whenM (me \<noteq> Some i) (
         thn (acquire (LkProc i)) (
         bnd (gets (\<lambda>s. procs s ! i)) (\<lambda>p.
         thn (whenM (p_state p = SLEEPING \<and> p_chan p = ch)
               (proc_upd i (\<lambda>q. q\<lparr>p_state := RUNNABLE\<rparr>)))
             (release (LkProc i)))))))"

text \<open>One pass of the scheduler over the table; it reports whether it found a process to run.\<close>

fun scheduler_pass :: "nat list \<Rightarrow> bool \<Rightarrow> ('z procst_scheme, bool) kmon" where
  "scheduler_pass [] found = ret found"
| "scheduler_pass (i # is) found =
     thn (acquire (LkProc i)) (
     bnd (gets (\<lambda>s. p_state (procs s ! i))) (\<lambda>st.
     thn (whenM (st = RUNNABLE) (
       thn (proc_upd i (\<lambda>q. q\<lparr>p_state := RUNNING\<rparr>)) (
       thn (modify (mycpu_upd (\<lambda>c. c\<lparr>c_proc := Some i\<rparr>))) (
       thn swtch
           (modify (mycpu_upd (\<lambda>c. c\<lparr>c_proc := None\<rparr>))))))) (
     thn (release (LkProc i))
         (scheduler_pass is (found \<or> st = RUNNABLE)))))"

text \<open>The endless loop of \<open>scheduler\<close>, \<open>n\<close> rounds of it.\<close>

fun scheduler_rounds :: "nat \<Rightarrow> ('z procst_scheme, unit) kmon" where
  "scheduler_rounds 0 = ret ()"
| "scheduler_rounds (Suc n) =
     thn intr_on (
     bnd (scheduler_pass [0..<NPROC] False) (\<lambda>found.
     thn (whenM (\<not> found) intr_on)
         (scheduler_rounds n)))"

definition scheduler :: "nat \<Rightarrow> ('z procst_scheme, unit) kmon" where
  "scheduler n =
     thn (modify (mycpu_upd (\<lambda>c. c\<lparr>c_proc := None\<rparr>))) (scheduler_rounds n)"

subsection \<open>Killing\<close>

fun kill_scan :: "nat list \<Rightarrow> int \<Rightarrow> ('z procst_scheme, int) kmon" where
  "kill_scan [] pid = ret (-1)"
| "kill_scan (i # is) pid =
     thn (acquire (LkProc i)) (
     bnd (gets (\<lambda>s. procs s ! i)) (\<lambda>p.
     if p_pid p = pid then
       thn (proc_upd i (\<lambda>q. q\<lparr>p_killed := 1\<rparr>)) (
       thn (whenM (p_state p = SLEEPING) (proc_upd i (\<lambda>q. q\<lparr>p_state := RUNNABLE\<rparr>))) (
       thn (release (LkProc i)) (ret 0)))
     else thn (release (LkProc i)) (kill_scan is pid)))"

definition kill :: "int \<Rightarrow> ('z procst_scheme, int) kmon" where
  "kill pid = kill_scan [0..<NPROC] pid"

definition setkilled :: "nat \<Rightarrow> ('z procst_scheme, unit) kmon" where
  "setkilled p =
     thn (acquire (LkProc p)) (
     thn (proc_upd p (\<lambda>q. q\<lparr>p_killed := 1\<rparr>))
         (release (LkProc p)))"

definition killed :: "nat \<Rightarrow> ('z procst_scheme, int) kmon" where
  "killed p =
     thn (acquire (LkProc p)) (
     bnd (gets (\<lambda>s. p_killed (procs s ! p))) (\<lambda>k.
     thn (release (LkProc p)) (ret k)))"

subsection \<open>Copies to user or kernel addresses\<close>

definition either_copyout :: "bool \<Rightarrow> u64 \<Rightarrow> u64 \<Rightarrow> u64 \<Rightarrow> ('z procst_scheme, int) kmon" where
  "either_copyout user_dst dst src len =
     bnd myproc (\<lambda>p.
     if user_dst then
       (case p of None \<Rightarrow> fault | Some i \<Rightarrow>
         bnd (gets (\<lambda>s. p_pagetable (procs s ! i))) (\<lambda>pt. copyout pt dst src len))
     else thn (modify (\<lambda>s. s\<lparr>mem := memmove (mem s) dst src (unat len)\<rparr>)) (ret 0))"

definition either_copyin :: "u64 \<Rightarrow> bool \<Rightarrow> u64 \<Rightarrow> u64 \<Rightarrow> ('z procst_scheme, int) kmon" where
  "either_copyin dst user_src src len =
     bnd myproc (\<lambda>p.
     if user_src then
       (case p of None \<Rightarrow> fault | Some i \<Rightarrow>
         bnd (gets (\<lambda>s. p_pagetable (procs s ! i))) (\<lambda>pt. copyin pt dst src len))
     else thn (modify (\<lambda>s. s\<lparr>mem := memmove (mem s) dst src (unat len)\<rparr>)) (ret 0))"

text \<open>
  The same when the kernel side is an object outside \<open>mem\<close>. A destination is a user address, a
  kernel address, or an object that the caller fills with the delivered bytes; a source is a user
  address, a kernel address or the bytes of an object.
\<close>

datatype kdst = DUser u64 | DKern u64 | DObj

datatype ksrc = SUser u64 | SKern u64 | SObj "u8 list"

definition either_copyout_obj :: "kdst \<Rightarrow> u8 list \<Rightarrow> ('z procst_scheme, int) kmon" where
  "either_copyout_obj d bs =
     bnd myproc (\<lambda>p.
     case d of
       DUser dst \<Rightarrow> (case p of None \<Rightarrow> fault | Some i \<Rightarrow>
         bnd (gets (\<lambda>s. p_pagetable (procs s ! i))) (\<lambda>pt. copyout_obj pt dst bs))
     | DKern dst \<Rightarrow> thn (modify (\<lambda>s. s\<lparr>mem := mem_write (mem s) dst bs\<rparr>)) (ret 0)
     | DObj \<Rightarrow> ret 0)"

definition either_copyin_obj :: "ksrc \<Rightarrow> nat \<Rightarrow> ('z procst_scheme, int \<times> u8 list) kmon" where
  "either_copyin_obj src n =
     bnd myproc (\<lambda>p.
     case src of
       SUser va \<Rightarrow> (case p of None \<Rightarrow> fault | Some i \<Rightarrow>
         bnd (gets (\<lambda>s. p_pagetable (procs s ! i))) (\<lambda>pt. copyin_obj pt va n))
     | SKern a \<Rightarrow> bnd (gets (\<lambda>s. mem_read (mem s) a n)) (\<lambda>bs. ret (0, bs))
     | SObj bs \<Rightarrow> ret (0, take n bs))"

fun dst_add :: "kdst \<Rightarrow> nat \<Rightarrow> kdst" where
  "dst_add (DUser a) n = DUser (a + of_nat n)"
| "dst_add (DKern a) n = DKern (a + of_nat n)"
| "dst_add DObj n = DObj"

fun src_add :: "ksrc \<Rightarrow> nat \<Rightarrow> ksrc" where
  "src_add (SUser a) n = SUser (a + of_nat n)"
| "src_add (SKern a) n = SKern (a + of_nat n)"
| "src_add (SObj bs) n = SObj (drop n bs)"

definition procinit :: "('z procst_scheme, unit) kmon" where
  "procinit =
     thn (initlock LkPid ''nextpid'') (
     thn (initlock LkWait ''wait_lock'')
         (for_each [0..<NPROC] (\<lambda>i.
            thn (initlock (LkProc i) ''proc'') (
            thn (proc_upd i (\<lambda>q. q\<lparr>p_state := UNUSED\<rparr>))
                (proc_upd i (\<lambda>q. q\<lparr>p_kstack := KSTACK i\<rparr>))))))"

subsection \<open>Running on a quiet CPU\<close>

definition cur :: "'z mach_scheme \<Rightarrow> nat option" where
  "cur s = c_proc (cpus s (hart s))"

lemma cur_frame [simp]:
  "cur (acquired lk s) = cur s" "cur (mem_update f s') = cur s'" "cur (freelist_update g s') = cur s'"
  "cur (procs_update h s'') = cur s''" "cur (nextpid_update i s'') = cur s''" "cur (ticks_update j s'') = cur s''"
  by (simp_all add: cur_def acquired_def)

named_theorems proc_simps \<open>running the process operations on a quiet CPU\<close>

lemma myproc_quiet [proc_simps]: "cpu_quiet s \<Longrightarrow> myproc s = Done (cur s) s"
proof -
  assume q: "cpu_quiet s"
  obtain t where t: "push_off s = Done () t" using push_off_quiet [OF q] by blast
  have c: "c_proc (mycpu t) = cur s" using t push_off_quiet [OF q] by (auto simp: cur_def mach_defs)
  show ?thesis
    using t c pop_push_quiet [OF q t] by (simp add: myproc_def kmon_simps bnd_run)
qed

lemma curproc_quiet [proc_simps]: "cpu_quiet s \<Longrightarrow> cur s = Some p \<Longrightarrow> curproc s = Done p s"
  by (simp add: curproc_def kmon_simps bnd_run myproc_quiet)

definition procs_free :: "'z mach_scheme \<Rightarrow> bool" where
  "procs_free s \<longleftrightarrow> (\<forall>i. lk_free (LkProc i) s)"

lemma procs_freeD [simp]: "procs_free s \<Longrightarrow> lk_free (LkProc i) s"
  by (simp add: procs_free_def)

lemma procs_free_frame [simp]:
  "(\<And>i. lk \<noteq> LkProc i) \<Longrightarrow> procs_free (acquired lk s) = procs_free s"
  "procs_free (mem_update f s') = procs_free s'" "procs_free (freelist_update g s') = procs_free s'"
  "procs_free (procs_update h s'') = procs_free s''" "procs_free (nextpid_update i s'') = procs_free s''"
  "procs_free (ticks_update j s'') = procs_free s''"
  by (simp_all add: procs_free_def lock_simps) metis

text \<open>What \<open>wakeup\<close> does to the table.\<close>

definition wake :: "chan \<Rightarrow> nat option \<Rightarrow> nat \<Rightarrow> proc \<Rightarrow> proc" where
  "wake ch me i p = (if me \<noteq> Some i \<and> p_state p = SLEEPING \<and> p_chan p = ch
     then p\<lparr>p_state := RUNNABLE\<rparr> else p)"

definition wake_all :: "chan \<Rightarrow> nat option \<Rightarrow> proc list \<Rightarrow> proc list" where
  "wake_all ch me ps = map (\<lambda>i. wake ch me i (ps ! i)) [0..<length ps]"

lemma length_wake_all [simp]: "length (wake_all ch me ps) = length ps"
  by (simp add: wake_all_def)

lemma nth_wake_all [simp]: "i < length ps \<Longrightarrow> wake_all ch me ps ! i = wake ch me i (ps ! i)"
  by (simp add: wake_all_def)

lemma wakeup_quiet:
  assumes "cpu_quiet s" "procs_free s" "length (procs s) = NPROC"
  shows "wakeup ch s = Done () (s\<lparr>procs := wake_all ch (cur s) (procs s)\<rparr>)"
proof -
  let ?W = "\<lambda>k. take k (wake_all ch (cur s) (procs s)) @ drop k (procs s)"
  let ?I = "\<lambda>k u. u = s\<lparr>procs := ?W k\<rparr>"
  let ?body = "\<lambda>i. bnd myproc (\<lambda>me.
       whenM (me \<noteq> Some i) (
         thn (acquire (LkProc i)) (
         bnd (gets (\<lambda>s. procs s ! i)) (\<lambda>p.
         thn (whenM (p_state p = SLEEPING \<and> p_chan p = ch)
               (proc_upd i (\<lambda>q. q\<lparr>p_state := RUNNABLE\<rparr>)))
             (release (LkProc i))))))"
  have "wp (for_each [0..<NPROC] ?body) (\<lambda>_. ?I (length [0..<NPROC])) s"
  proof (rule wp_for_each)
    fix k u assume k: "k < length [0..<NPROC]" and u: "?I k u"
    have kl: "k < length (procs s)" using k assms(3) by simp
    have at: "?W k ! k = procs s ! k" using kl by (simp add: nth_append)
    have nx: "(?W k)[k := wake ch (cur s) k (procs s ! k)] = ?W (Suc k)"
      using kl by (simp add: take_Suc_conv_app_nth list_update_append Cons_nth_drop_Suc [symmetric])
    have id: "(?W k)[k := procs s ! k] = ?W k" using at by (metis list_update_id)
    show "wp (?body ([0..<NPROC] ! k)) (\<lambda>_. ?I (Suc k)) u"
      using k assms(1,2) at nx id unfolding u
      by (auto simp: wp_Done kmon_simps bnd_run proc_simps lock_simps proc_upd_def wake_def)
  qed (simp add: assms(3))
  then show ?thesis
    using assms(3) by (auto simp: wakeup_def wp_Done)
qed

definition no_sleeper :: "chan \<Rightarrow> 'z procst_scheme \<Rightarrow> bool" where
  "no_sleeper ch s \<longleftrightarrow> (\<forall>p \<in> set (procs s). \<not> (p_state p = SLEEPING \<and> p_chan p = ch))"

lemma wakeup_none [proc_simps]:
  assumes "cpu_quiet s" "procs_free s" "length (procs s) = NPROC" "no_sleeper ch s"
  shows "wakeup ch s = Done () s"
proof -
  have "wake_all ch (cur s) (procs s) = procs s"
    using assms(4) by (intro nth_equalityI) (auto simp: wake_def no_sleeper_def)
  then show ?thesis using wakeup_quiet [OF assms(1-3)] by simp
qed

subsection \<open>Sleeping\<close>

text \<open>The interrupt flag is a property of the kernel thread: it follows the process to its next CPU.\<close>

definition thread_intr :: "bool \<Rightarrow> 'z mach_scheme \<Rightarrow> 'z mach_scheme" where
  "thread_intr i t = t\<lparr>sie := (sie t)(hart t := i),
     cpus := (cpus t)(hart t := (cpus t (hart t))\<lparr>c_intena := i\<rparr>)\<rparr>"

lemma thread_intr_frame [simp]:
  "lk_free lk (thread_intr i t) = lk_free lk t" "hart (thread_intr i t) = hart t"
  by (simp_all add: lk_free_def thread_intr_def)

lemma thread_intr_quiet: "c_noff (mycpu t) = 0 \<Longrightarrow> cpu_quiet (thread_intr i t)"
  by (simp add: thread_intr_def cpu_quiet_def mach_defs)

lemma acquired_intena:
  assumes "c_noff (mycpu t) = 0"
  shows "mycpu_upd (\<lambda>c. c\<lparr>c_intena := i\<rparr>) (acquired lk t) = acquired lk (thread_intr i t)"
  using assms
  by (intro mach.equality) (simp_all add: acquired_def thread_intr_def mach_defs fun_eq_iff cpu.equality)
lemma sched_switch:
  assumes "cpu_quiet t" "c_noff (mycpu t) = 0" "lk_free (LkProc p) t" "cur t = Some p"
    and "p_state (procs t ! p) \<noteq> RUNNING"
  shows "sched (acquired (LkProc p) t) = Sched (acquired (LkProc p) t)
    (\<lambda>u. Done () (mycpu_upd (\<lambda>c. c\<lparr>c_intena := c_intena (mycpu t)\<rparr>) u))"
proof -
  let ?u = "acquired (LkProc p) t"
  have "curproc ?u = Done p ?u" using assms by (intro curproc_quiet) (auto simp: lock_simps)
  moreover have "holding (LkProc p) ?u" using assms(3) by (simp add: holding_def acquired_def mach_defs)
  moreover have "c_noff (mycpu ?u) = 1" "\<not> sie ?u (hart ?u)" "c_intena (mycpu ?u) = c_intena (mycpu t)"
    using assms(2) by (simp_all add: acquired_def mach_defs)
  ultimately show ?thesis
    using assms(5) by (simp add: sched_def kmon_simps bnd_run intr_get_def modify_def [abs_def])
qed

lemma bnd_Done_fun: "bnd (\<lambda>v. Done (g v) (h v)) f s = f (g s) (h s)"
  by (simp add: bnd_def)

text \<open>
  \<open>sleep\<close> switches away with the lock already released, the process marked as sleeping on the
  channel and its own lock still held; when it is resumed it clears the channel and takes the
  lock again.
\<close>

lemma sleep_switch:
  assumes s: "cpu_quiet s" "c_noff (mycpu s) = 0" "lk_free (LkProc p) s" "lk_free lk s" "lk \<noteq> LkProc p"
    and p: "cur s = Some p" "p < length (procs s)"
  shows "\<exists>k. sleep ch lk (acquired lk s) =
      Sched (acquired (LkProc p) (s\<lparr>procs := (procs s)[p := (procs s ! p)\<lparr>p_chan := ch, p_state := SLEEPING\<rparr>]\<rparr>)) k \<and>
    (\<forall>t. cpu_quiet t \<longrightarrow> c_noff (mycpu t) = 0 \<longrightarrow> lk_free lk t \<longrightarrow> lk_free (LkProc p) t \<longrightarrow>
       k (acquired (LkProc p) t) = Done () (acquired lk (thread_intr (sie s (hart s))
         (t\<lparr>procs := (procs t)[p := (procs t ! p)\<lparr>p_chan := NoChan\<rparr>]\<rparr>))))"
proof -
  let ?u = "s\<lparr>procs := (procs s)[p := (procs s ! p)\<lparr>p_chan := ch, p_state := SLEEPING\<rparr>]\<rparr>"
  have i: "c_intena (mycpu ?u) = sie s (hart s)" using s(1,2) by (simp add: cpu_quiet_def mach_defs)
  have "sched (acquired (LkProc p) ?u) = Sched (acquired (LkProc p) ?u)
    (\<lambda>v. Done () (mycpu_upd (\<lambda>c. c\<lparr>c_intena := sie s (hart s)\<rparr>) v))"
    using sched_switch [of ?u p] s p unfolding i by (simp add: cur_def mach_defs)
  then have "sleep ch lk (acquired lk s) = Sched (acquired (LkProc p) ?u)
      (bnd (\<lambda>v. Done () (mycpu_upd (\<lambda>c. c\<lparr>c_intena := sie s (hart s)\<rparr>) v))
        (\<lambda>_. thn (proc_upd p (\<lambda>q. q\<lparr>p_chan := NoChan\<rparr>)) (thn (release (LkProc p)) (acquire lk))))"
    using s p
    by (simp add: sleep_def kmon_simps bnd_run proc_simps lock_simps proc_upd_def
        acquired_commute [of "LkProc p" lk])
  moreover have "bnd (\<lambda>v. Done () (mycpu_upd (\<lambda>c. c\<lparr>c_intena := sie s (hart s)\<rparr>) v))
        (\<lambda>_. thn (proc_upd p (\<lambda>q. q\<lparr>p_chan := NoChan\<rparr>)) (thn (release (LkProc p)) (acquire lk)))
        (acquired (LkProc p) t) = Done () (acquired lk (thread_intr (sie s (hart s))
         (t\<lparr>procs := (procs t)[p := (procs t ! p)\<lparr>p_chan := NoChan\<rparr>]\<rparr>)))"
    if "cpu_quiet t" "c_noff (mycpu t) = 0" "lk_free lk t" "lk_free (LkProc p) t" for t :: "'z procst_scheme"
  proof -
    let ?v = "thread_intr (sie s (hart s)) t"
    have "c_noff (mycpu (t\<lparr>procs := x\<rparr>)) = 0" for x using that(2) by (simp add: mach_defs)
    then have q: "cpu_quiet (thread_intr i (t\<lparr>procs := x\<rparr>))" for x i by (rule thread_intr_quiet)
    have pu: "procs ?v = procs t" "procs_update f ?v = thread_intr (sie s (hart s)) (procs_update f t)" for f
      by (simp_all add: thread_intr_def)
    show ?thesis
      using that q by (simp add: bnd_Done_fun acquired_intena kmon_simps proc_upd_def pu lock_simps bnd_run)
  qed
  ultimately show ?thesis by blast
qed

subsection \<open>A process\<close>

definition idle_context :: kcontext where
  "idle_context = \<lparr>ctx_ra = 0, ctx_sp = 0, ctx_s0 = 0, ctx_s1 = 0, ctx_s2 = 0, ctx_s3 = 0, ctx_s4 = 0,
     ctx_s5 = 0, ctx_s6 = 0, ctx_s7 = 0, ctx_s8 = 0, ctx_s9 = 0, ctx_s10 = 0, ctx_s11 = 0\<rparr>"

definition demo_proc :: proc where
  "demo_proc = \<lparr>p_state = RUNNING, p_chan = NoChan, p_killed = 0, p_xstate = 0, p_pid = 1, p_parent = None,
     p_kstack = 0, p_sz = 4096, p_pagetable = 0x80022000, p_trapframe = 0, p_context = idle_context,
     p_ofile = replicate NOFILE None, p_cwd = None, p_name = replicate 16 0\<rparr>"

end
