(* ===== verification/Ring.thy ===== *)
theory Ring
  imports Kernel_Prelude
begin

text \<open>
  Circular buffers with free-running counters, as the pipe, the UART and the console use them: an
  array of \<open>N\<close> cells indexed by \<open>i % N\<close>, a read and a write counter that are never reset and wrap
  around at the width of their word type. The locale holds what its clients rely on; it needs only
  that \<open>N\<close> divides the range of the counters.
\<close>

definition ring_list :: "nat \<Rightarrow> 'a list \<Rightarrow> 'w::len word \<Rightarrow> 'w word \<Rightarrow> 'a list" where
  "ring_list N buf r w = map (\<lambda>i. buf ! (unat (r + of_nat i) mod N)) [0..<unat (w - r)]"

lemma length_ring_list [simp]: "length (ring_list N buf r w) = unat (w - r)"
  by (simp add: ring_list_def)

lemma ring_list_empty [simp]: "ring_list N buf r r = []"
  by (simp add: ring_list_def)

lemma unat_minus_Suc: "w \<noteq> r \<Longrightarrow> unat (w - r) = Suc (unat (w - (r + 1)))"
  for w r :: "'w::len word"
proof -
  assume "w \<noteq> r"
  then have "w - r \<noteq> 0" by simp
  then have "unat (w - r - 1) = unat (w - r) - 1" "0 < unat (w - r)"
    by (auto simp: unat_minus_one unat_gt_0)
  then show ?thesis by (simp add: diff_diff_eq)
qed

lemma unat_plus_Suc: "unat (w - r) < n \<Longrightarrow> n < 2 ^ LENGTH('w) \<Longrightarrow> unat (w + 1 - r) = Suc (unat (w - r))"
  for w r :: "'w::len word"
proof -
  assume a: "unat (w - r) < n" "n < 2 ^ LENGTH('w)"
  have "w + 1 - r = (w - r) + 1" by simp
  moreover have "unat ((w - r) + 1) = unat (w - r) + 1"
    using a by (simp add: unat_word_ariths)
  ultimately show ?thesis by (simp only: Suc_eq_plus1)
qed

locale ring =
  fixes N :: nat and width :: "'w::len itself"
  assumes N_pos: "0 < N" and N_dvd: "N dvd 2 ^ LENGTH('w)" and N_less: "N < 2 ^ LENGTH('w)"
begin

lemma index: "unat (r + of_nat i) mod N = (unat r + i) mod N" for r :: "'w word"
proof -
  have "unat (r + of_nat i) = (unat r + i) mod 2 ^ LENGTH('w)"
    by (simp add: unat_word_ariths unat_of_nat mod_add_right_eq)
  then show ?thesis by (simp add: mod_mod_cancel [OF N_dvd])
qed

lemma ring_nth: "i < unat (w - r) \<Longrightarrow> ring_list N buf r w ! i = buf ! ((unat r + i) mod N)" for r w :: "'w word"
  by (simp add: ring_list_def index)

lemma get:
  fixes r w :: "'w word"
  assumes "w \<noteq> r"
  shows "ring_list N buf r w = buf ! (unat r mod N) # ring_list N buf (r + 1) w"
proof (rule nth_equalityI)
  show "length (ring_list N buf r w) = length (buf ! (unat r mod N) # ring_list N buf (r + 1) w)"
    using unat_minus_Suc [OF assms] by simp
  fix i assume "i < length (ring_list N buf r w)"
  then have i: "i < unat (w - r)" by simp
  have "unat (r + 1) mod N = Suc (unat r) mod N" using index [of r 1] by simp
  then have "(unat (r + 1) + k) mod N = (unat r + Suc k) mod N" for k by (metis add_Suc add_Suc_right mod_add_left_eq)
  then show "ring_list N buf r w ! i = (buf ! (unat r mod N) # ring_list N buf (r + 1) w) ! i"
    using i unat_minus_Suc [OF assms] by (cases i) (simp_all add: ring_nth)
qed

lemma put:
  fixes r w :: "'w word"
  assumes "length buf = N" "unat (w - r) < N"
  shows "ring_list N (buf[unat w mod N := c]) r (w + 1) = ring_list N buf r w @ [c]"
proof (rule nth_equalityI)
  have len: "unat (w + 1 - r) = Suc (unat (w - r))" using unat_plus_Suc [OF assms(2) N_less] .
  then show "length (ring_list N (buf[unat w mod N := c]) r (w + 1)) = length (ring_list N buf r w @ [c])" by simp
  fix i assume "i < length (ring_list N (buf[unat w mod N := c]) r (w + 1))"
  then have i: "i < unat (w + 1 - r)" "i \<le> unat (w - r)" using len by simp_all
  have w: "unat w mod N = (unat r + unat (w - r)) mod N" using index [of r "unat (w - r)"] by simp
  have eq: "(unat r + i) mod N = unat w mod N \<longleftrightarrow> i = unat (w - r)"
  proof
    assume "(unat r + i) mod N = unat w mod N"
    then have "N dvd unat r + unat (w - r) - (unat r + i)"
      using i(2) unfolding w by (metis add_left_mono mod_eq_dvd_iff_nat)
    then have "N dvd unat (w - r) - i" by simp
    moreover have "unat (w - r) - i < N" using assms(2) by simp
    ultimately have "unat (w - r) - i = 0" using nat_dvd_not_less by blast
    then show "i = unat (w - r)" using i(2) by simp
  qed (simp add: w)
  have "unat w mod N < length buf" using assms(1) N_pos by simp
  then have "buf[unat w mod N := c] ! ((unat r + i) mod N) = (if i = unat (w - r) then c else buf ! ((unat r + i) mod N))"
    unfolding nth_upd using eq by auto
  then show "ring_list N (buf[unat w mod N := c]) r (w + 1) ! i = (ring_list N buf r w @ [c]) ! i"
    unfolding ring_nth [OF i(1)] using i(2) by (cases "i = unat (w - r)") (simp_all add: nth_append ring_nth)
qed

lemma prefix:
  fixes r w e :: "'w word"
  assumes "unat (w - r) \<le> unat (e - r)"
  shows "take (unat (w - r)) (ring_list N buf r e) = ring_list N buf r w"
  using assms by (intro nth_equalityI) (simp_all add: ring_nth)

lemma suffix:
  fixes r w e :: "'w word"
  assumes "unat (w - r) \<le> unat (e - r)"
  shows "drop (unat (w - r)) (ring_list N buf r e) = ring_list N buf w e"
proof (rule nth_equalityI)
  have le: "w - r \<le> e - r" using assms by (simp add: word_le_nat_alt)
  have "e - w = (e - r) - (w - r)" by simp
  then have len: "unat (e - w) = unat (e - r) - unat (w - r)" using unat_sub [OF le] by simp
  then show "length (drop (unat (w - r)) (ring_list N buf r e)) = length (ring_list N buf w e)" by simp
  fix i assume "i < length (drop (unat (w - r)) (ring_list N buf r e))"
  then have i: "i < unat (e - w)" "unat (w - r) + i < unat (e - r)" using len by simp_all
  have "unat w mod N = (unat r + unat (w - r)) mod N" using index [of r "unat (w - r)"] by simp
  then have "(unat w + i) mod N = (unat r + (unat (w - r) + i)) mod N" by (metis add.assoc mod_add_left_eq)
  then show "drop (unat (w - r)) (ring_list N buf r e) ! i = ring_list N buf w e ! i"
    using i by (simp add: ring_nth)
qed

lemma split:
  fixes r w e :: "'w word"
  assumes "unat (w - r) \<le> unat (e - r)"
  shows "ring_list N buf r e = ring_list N buf r w @ ring_list N buf w e"
  using append_take_drop_id [of "unat (w - r)" "ring_list N buf r e"] unfolding prefix [OF assms] suffix [OF assms] by simp

lemma erase:
  fixes r w :: "'w word"
  assumes "w \<noteq> r"
  shows "ring_list N buf r (w - 1) = butlast (ring_list N buf r w)"
proof -
  have "unat (w - r - 1) = unat (w - r) - 1" using assms by (simp add: unat_minus_one)
  then have len: "unat (w - 1 - r) = unat (w - r) - 1" by (simp add: algebra_simps)
  show ?thesis
    unfolding butlast_conv_take length_ring_list len [symmetric] by (rule prefix [symmetric]) (simp add: len)
qed

lemma put_other:
  fixes r w e :: "'w word"
  assumes "length buf = N" "unat (w - r) \<le> unat (e - r)" "unat (e - r) < N"
  shows "ring_list N (buf[unat e mod N := c]) r w = ring_list N buf r w"
    "ring_list N (buf[unat e mod N := c]) w (e + 1) = ring_list N buf w e @ [c]"
proof -
  have len: "unat (e + 1 - r) = Suc (unat (e - r))" using unat_plus_Suc [OF assms(3) N_less] .
  then have le: "unat (w - r) \<le> unat (e + 1 - r)" using assms(2) by simp
  note put [OF assms(1,3), of c]
  then show "ring_list N (buf[unat e mod N := c]) r w = ring_list N buf r w"
    using prefix [OF le, of "buf[unat e mod N := c]"] prefix [OF assms(2), of buf] assms(2) by simp
  show "ring_list N (buf[unat e mod N := c]) w (e + 1) = ring_list N buf w e @ [c]"
    using suffix [OF le, of "buf[unat e mod N := c]"] suffix [OF assms(2), of buf] put [OF assms(1,3), of c] assms(2) by simp
qed

lemma count_le:
  fixes r w :: "'w word"
  assumes "unat (w - r) \<le> N"
  shows "w = r + of_nat N \<longleftrightarrow> unat (w - r) = N"
proof -
  have "w = r + of_nat N \<longleftrightarrow> w - r = of_nat N" by (auto simp: algebra_simps)
  then show ?thesis using N_less by (simp add: word_unat_eq_iff unat_of_nat)
qed

end

end
