(* ===== verification/Uart.thy ===== *)
theory Uart
  imports Proc_Core Ring
begin

text \<open>
  \<open>kernel/uart.c\<close>: the driver of the 16550a UART. The device is the environment: \<open>uart_in n reg\<close> is
  what the \<open>n\<close>-th read of a device register returns, an arbitrary function, and \<open>uart_out\<close> is the
  sequence of writes the device has received. The interrupt handler \<open>uartintr\<close> is in \<open>Console\<close>.
\<close>

subsection \<open>State\<close>

record uartst = procst +
  uart_tx_buf :: "u8 list"
  uart_tx_w :: u64
  uart_tx_r :: u64
  panicked :: bool
  pr_locking :: bool
  uart_in :: "nat \<Rightarrow> nat \<Rightarrow> u8"
  uart_reads :: nat
  uart_out :: "(nat \<times> u8) list"

definition RHR :: nat where "RHR = 0"
definition THR :: nat where "THR = 0"
definition IER :: nat where "IER = 1"
definition IER_RX_ENABLE :: u8 where "IER_RX_ENABLE = push_bit 0 1"
definition IER_TX_ENABLE :: u8 where "IER_TX_ENABLE = push_bit 1 1"
definition FCR :: nat where "FCR = 2"
definition FCR_FIFO_ENABLE :: u8 where "FCR_FIFO_ENABLE = push_bit 0 1"
definition FCR_FIFO_CLEAR :: u8 where "FCR_FIFO_CLEAR = push_bit 1 3"
definition ISR :: nat where "ISR = 2"
definition LCR :: nat where "LCR = 3"
definition LCR_EIGHT_BITS :: u8 where "LCR_EIGHT_BITS = push_bit 0 3"
definition LCR_BAUD_LATCH :: u8 where "LCR_BAUD_LATCH = push_bit 7 1"
definition LSR :: nat where "LSR = 5"
definition LSR_RX_READY :: u8 where "LSR_RX_READY = push_bit 0 1"
definition LSR_TX_IDLE :: u8 where "LSR_TX_IDLE = push_bit 5 1"
definition UART_TX_BUF_SIZE :: nat where "UART_TX_BUF_SIZE = 32"

definition ReadReg :: "nat \<Rightarrow> ('z uartst_scheme, u8) kmon" where
  "ReadReg reg =
     bnd (gets (\<lambda>s. uart_in s (uart_reads s) reg)) (\<lambda>v.
     thn (modify (\<lambda>s. s\<lparr>uart_reads := uart_reads s + 1\<rparr>)) (ret v))"

definition WriteReg :: "nat \<Rightarrow> u8 \<Rightarrow> ('z uartst_scheme, unit) kmon" where
  "WriteReg reg v = modify (\<lambda>s. s\<lparr>uart_out := uart_out s @ [(reg, v)]\<rparr>)"

subsection \<open>Operations\<close>

definition uartinit :: "('z uartst_scheme, unit) kmon" where
  "uartinit =
     thn (WriteReg IER 0x00) (
     thn (WriteReg LCR LCR_BAUD_LATCH) (
     thn (WriteReg 0 0x03) (
     thn (WriteReg 1 0x00) (
     thn (WriteReg LCR LCR_EIGHT_BITS) (
     thn (WriteReg FCR (FCR_FIFO_ENABLE OR FCR_FIFO_CLEAR)) (
     thn (WriteReg IER (IER_TX_ENABLE OR IER_RX_ENABLE))
         (initlock LkUartTx ''uart'')))))))"

text \<open>
  The loop of \<open>uartstart\<close> advances the read counter in every round that does not return, so one
  round more than there are queued characters is enough.
\<close>

fun uartstart_loop :: "nat \<Rightarrow> ('z uartst_scheme, unit) kmon" where
  "uartstart_loop 0 = fault"
| "uartstart_loop (Suc n) =
     bnd (gets (\<lambda>s. uart_tx_w s = uart_tx_r s)) (\<lambda>empty.
     if empty then bnd (ReadReg ISR) (\<lambda>_. ret ()) else
     bnd (ReadReg LSR) (\<lambda>lsr.
     if lsr AND LSR_TX_IDLE = 0 then ret () else
     bnd (gets (\<lambda>s. uart_tx_buf s ! (unat (uart_tx_r s) mod UART_TX_BUF_SIZE))) (\<lambda>c.
     thn (modify (\<lambda>s. s\<lparr>uart_tx_r := uart_tx_r s + 1\<rparr>)) (
     thn (wakeup ChUartTx) (
     thn (WriteReg THR c)
         (uartstart_loop n))))))"

definition uartstart :: "('z uartst_scheme, unit) kmon" where
  "uartstart = bnd (gets (\<lambda>s. unat (uart_tx_w s - uart_tx_r s))) (\<lambda>n. uartstart_loop (Suc n))"

fun uartputc_wait :: "nat \<Rightarrow> ('z uartst_scheme, unit) kmon" where
  "uartputc_wait 0 =
     bnd (gets (\<lambda>s. uart_tx_w s = uart_tx_r s + of_nat UART_TX_BUF_SIZE)) (\<lambda>full. if full then fault else ret ())"
| "uartputc_wait (Suc n) =
     bnd (gets (\<lambda>s. uart_tx_w s = uart_tx_r s + of_nat UART_TX_BUF_SIZE)) (\<lambda>full.
     if full then thn (sleep ChUartTx LkUartTx) (uartputc_wait n) else ret ())"

definition uartputc :: "u32 \<Rightarrow> ('z uartst_scheme, unit) kmon" where
  "uartputc c =
     thn (acquire LkUartTx) (
     bnd (gets panicked) (\<lambda>p.
     if p then spin else
     bnd (gets patience) (\<lambda>n.
     thn (uartputc_wait n) (
     thn (modify (\<lambda>s. s\<lparr>uart_tx_buf :=
            (uart_tx_buf s)[unat (uart_tx_w s) mod UART_TX_BUF_SIZE := ucast c]\<rparr>)) (
     thn (modify (\<lambda>s. s\<lparr>uart_tx_w := uart_tx_w s + 1\<rparr>)) (
     thn uartstart
         (release LkUartTx)))))))"

text \<open>Busy waiting for the device: after \<open>patience\<close> reads that say it is busy the hart spins.\<close>

fun uart_wait_idle :: "nat \<Rightarrow> ('z uartst_scheme, unit) kmon" where
  "uart_wait_idle 0 = spin"
| "uart_wait_idle (Suc n) =
     bnd (ReadReg LSR) (\<lambda>lsr. if lsr AND LSR_TX_IDLE = 0 then uart_wait_idle n else ret ())"

definition uartputc_sync :: "u32 \<Rightarrow> ('z uartst_scheme, unit) kmon" where
  "uartputc_sync c =
     thn push_off (
     bnd (gets panicked) (\<lambda>p.
     if p then spin else
     bnd (gets patience) (\<lambda>n.
     thn (uart_wait_idle (Suc n)) (
     thn (WriteReg THR (ucast c))
         pop_off))))"

definition uartgetc :: "('z uartst_scheme, int) kmon" where
  "uartgetc =
     bnd (ReadReg LSR) (\<lambda>lsr.
     if lsr AND 0x01 \<noteq> 0 then bnd (ReadReg RHR) (\<lambda>c. ret (uint c)) else ret (-1))"

lemma uartst_acquired [simp]:
  "uart_tx_buf (acquired lk s) = uart_tx_buf s" "uart_tx_w (acquired lk s) = uart_tx_w s"
  "uart_tx_r (acquired lk s) = uart_tx_r s" "panicked (acquired lk s) = panicked s"
  "pr_locking (acquired lk s) = pr_locking s" "uart_in (acquired lk s) = uart_in s"
  "uart_reads (acquired lk s) = uart_reads s" "uart_out (acquired lk s) = uart_out s"
  "uart_tx_buf_update f0 (acquired lk s) = acquired lk (uart_tx_buf_update f0 s)"
  "uart_tx_w_update f1 (acquired lk s) = acquired lk (uart_tx_w_update f1 s)"
  "uart_tx_r_update f2 (acquired lk s) = acquired lk (uart_tx_r_update f2 s)"
  "uart_reads_update f3 (acquired lk s) = acquired lk (uart_reads_update f3 s)"
  "uart_out_update f4 (acquired lk s) = acquired lk (uart_out_update f4 s)"
  by (simp_all add: acquired_def)

lemma uartst_frame [simp]:
  "cpu_quiet (uart_tx_buf_update f0 s) = cpu_quiet s" "cpu_quiet (uart_tx_w_update f1 s) = cpu_quiet s"
  "cpu_quiet (uart_tx_r_update f2 s) = cpu_quiet s" "cpu_quiet (uart_reads_update f3 s) = cpu_quiet s"
  "cpu_quiet (uart_out_update f4 s) = cpu_quiet s" "lk_free lk (uart_tx_buf_update f0 s) = lk_free lk s"
  "lk_free lk (uart_tx_w_update f1 s) = lk_free lk s" "lk_free lk (uart_tx_r_update f2 s) = lk_free lk s"
  "lk_free lk (uart_reads_update f3 s) = lk_free lk s" "lk_free lk (uart_out_update f4 s) = lk_free lk s"
  "cur (uart_tx_buf_update f0 s) = cur s" "cur (uart_tx_w_update f1 s) = cur s" "cur (uart_tx_r_update f2 s) = cur s"
  "cur (uart_reads_update f3 s) = cur s" "cur (uart_out_update f4 s) = cur s"
  "procs_free (uart_tx_buf_update f0 s) = procs_free s" "procs_free (uart_tx_w_update f1 s) = procs_free s"
  "procs_free (uart_tx_r_update f2 s) = procs_free s" "procs_free (uart_reads_update f3 s) = procs_free s"
  "procs_free (uart_out_update f4 s) = procs_free s" "no_sleeper ch (uart_tx_buf_update f0 s) = no_sleeper ch s"
  "no_sleeper ch (uart_tx_w_update f1 s) = no_sleeper ch s" "no_sleeper ch (uart_tx_r_update f2 s) = no_sleeper ch s"
  "no_sleeper ch (uart_reads_update f3 s) = no_sleeper ch s" "no_sleeper ch (uart_out_update f4 s) = no_sleeper ch s"
  by (simp_all add: cpu_quiet_def lk_free_def cur_def mach_defs procs_free_def no_sleeper_def)

subsection \<open>The transmit queue\<close>

interpretation uart_ring: ring UART_TX_BUF_SIZE "TYPE(64)"
  by unfold_locales (simp_all add: UART_TX_BUF_SIZE_def)

definition txq :: "'z uartst_scheme \<Rightarrow> u8 list" where
  "txq s = ring_list UART_TX_BUF_SIZE (uart_tx_buf s) (uart_tx_r s) (uart_tx_w s)"

text \<open>The driver between two of its operations: its lock is free and its queue fits the buffer.\<close>

definition uart_ok :: "'z uartst_scheme \<Rightarrow> bool" where
  "uart_ok s \<longleftrightarrow> cpu_quiet s \<and> procs_free s \<and> lk_free LkUartTx s \<and> length (procs s) = NPROC \<and>
     length (uart_tx_buf s) = UART_TX_BUF_SIZE \<and> length (txq s) \<le> UART_TX_BUF_SIZE"

text \<open>
  How many of \<open>n\<close> queued characters the device takes: one for each of its coming answers about the
  transmit holding register, up to the first that says the register is full.
\<close>

definition tx_idle :: "'z uartst_scheme \<Rightarrow> nat \<Rightarrow> bool" where
  "tx_idle s i \<longleftrightarrow> uart_in s i LSR AND LSR_TX_IDLE \<noteq> 0"

definition tx_taken :: "'z uartst_scheme \<Rightarrow> nat \<Rightarrow> nat" where
  "tx_taken s n = length (takeWhile (tx_idle s) [uart_reads s..<uart_reads s + n])"

lemma tx_taken_0 [simp]: "tx_taken s 0 = 0"
  by (simp add: tx_taken_def)

lemma tx_taken_Suc: "tx_taken s (Suc n) = (if tx_idle s (uart_reads s) then Suc (tx_taken (s\<lparr>uart_reads := uart_reads s + 1\<rparr>) n) else 0)"
proof -
  have "[uart_reads s..<uart_reads s + Suc n] = uart_reads s # [uart_reads s + 1..<uart_reads s + 1 + n]"
    by (simp add: upt_conv_Cons del: upt_Suc)
  then show ?thesis by (simp add: tx_taken_def tx_idle_def [abs_def] del: upt_Suc)
qed

lemma tx_taken_cong: "uart_in s = uart_in t \<Longrightarrow> uart_reads s = uart_reads t \<Longrightarrow> tx_taken s n = tx_taken t n"
  by (simp add: tx_taken_def tx_idle_def [abs_def])

text \<open>What \<open>uartstart\<close> may change.\<close>

definition uart_frame :: "'z uartst_scheme \<Rightarrow> 'z uartst_scheme \<Rightarrow> bool" where
  "uart_frame s t \<longleftrightarrow> t = s\<lparr>procs := procs t, uart_tx_r := uart_tx_r t, uart_reads := uart_reads t, uart_out := uart_out t\<rparr>"

lemma uart_frame_trans:
  assumes "uart_frame s t" "uart_frame t u"
  shows "uart_frame s u"
proof -
  have t: "t = s\<lparr>procs := procs t, uart_tx_r := uart_tx_r t, uart_reads := uart_reads t, uart_out := uart_out t\<rparr>"
    and u: "u = t\<lparr>procs := procs u, uart_tx_r := uart_tx_r u, uart_reads := uart_reads u, uart_out := uart_out u\<rparr>"
    using assms by (simp_all add: uart_frame_def)
  show ?thesis unfolding uart_frame_def by (subst u, subst t) simp
qed

lemma uartstart_loop_abs:
  assumes "uart_ok s" "length (txq s) < n"
  shows "\<exists>t. uartstart_loop n (acquired LkUartTx s) = Done () (acquired LkUartTx t) \<and> uart_ok t \<and>
    txq t = drop (tx_taken s (length (txq s))) (txq s) \<and>
    uart_out t = uart_out s @ map (\<lambda>c. (THR, c)) (take (tx_taken s (length (txq s))) (txq s)) \<and> uart_frame s t"
  using assms
proof (induction n arbitrary: s)
  case 0
  then show ?case by simp
next
  case (Suc n)
  let ?u = "acquired LkUartTx s"
  have ok: "cpu_quiet s" "procs_free s" "lk_free LkUartTx s" "length (procs s) = NPROC"
    using Suc.prems(1) by (simp_all add: uart_ok_def)
  consider "uart_tx_w s = uart_tx_r s" | "uart_tx_w s \<noteq> uart_tx_r s" "uart_in s (uart_reads s) LSR AND LSR_TX_IDLE = 0"
    | "uart_tx_w s \<noteq> uart_tx_r s" "uart_in s (uart_reads s) LSR AND LSR_TX_IDLE \<noteq> 0" by blast
  then show ?case
  proof cases
    case 1
    then have "uartstart_loop (Suc n) ?u = Done () (acquired LkUartTx (s\<lparr>uart_reads := uart_reads s + 1\<rparr>))"
      by (simp add: kmon_simps ReadReg_def)
    moreover have "uart_frame s (s\<lparr>uart_reads := uart_reads s + 1\<rparr>)" by (simp add: uart_frame_def)
    ultimately show ?thesis
      using Suc.prems(1) 1 by (intro exI [of _ "s\<lparr>uart_reads := uart_reads s + 1\<rparr>"]) (simp add: uart_ok_def txq_def ring_list_def)
  next
    case 2
    then have "uartstart_loop (Suc n) ?u = Done () (acquired LkUartTx (s\<lparr>uart_reads := uart_reads s + 1\<rparr>))"
      by (simp add: kmon_simps ReadReg_def)
    moreover have "uart_frame s (s\<lparr>uart_reads := uart_reads s + 1\<rparr>)" by (simp add: uart_frame_def)
    moreover have "tx_taken s m = 0" for m
      using 2(2) by (cases m) (simp_all add: tx_taken_Suc tx_idle_def)
    ultimately show ?thesis
      using Suc.prems(1) by (intro exI [of _ "s\<lparr>uart_reads := uart_reads s + 1\<rparr>"]) (simp add: uart_ok_def txq_def)
  next
    case 3
    let ?c = "uart_tx_buf s ! (unat (uart_tx_r s) mod UART_TX_BUF_SIZE)"
    define s1 where "s1 = s\<lparr>uart_reads := uart_reads s + 1, uart_tx_r := uart_tx_r s + 1,
      procs := wake_all ChUartTx (cur s) (procs s), uart_out := uart_out s @ [(THR, ?c)]\<rparr>"
    have q: "txq s = ?c # txq s1"
      using uart_ring.get [OF 3(1), of "uart_tx_buf s"] by (simp add: txq_def s1_def)
    have step: "uartstart_loop (Suc n) ?u = uartstart_loop n (acquired LkUartTx s1)"
      using 3 wakeup_quiet [of "acquired LkUartTx (s\<lparr>uart_reads := uart_reads s + 1, uart_tx_r := uart_tx_r s + 1\<rparr>)" ChUartTx] ok
      by (simp add: kmon_simps bnd_run ReadReg_def WriteReg_def lock_simps s1_def)
    have "uart_ok s1" using Suc.prems(1) q by (simp add: uart_ok_def) (simp add: s1_def)
    then obtain t where t: "uartstart_loop n (acquired LkUartTx s1) = Done () (acquired LkUartTx t)" "uart_ok t"
        "txq t = drop (tx_taken s1 (length (txq s1))) (txq s1)"
        "uart_out t = uart_out s1 @ map (\<lambda>c. (THR, c)) (take (tx_taken s1 (length (txq s1))) (txq s1))" "uart_frame s1 t"
      using Suc.IH [of s1] Suc.prems(2) q by auto
    have "uart_frame s s1" by (simp add: uart_frame_def s1_def)
    then have "uart_frame s t" using uart_frame_trans t(5) by blast
    moreover have "uart_out s1 = uart_out s @ [(THR, ?c)]" by (simp add: s1_def)
    moreover have "tx_taken s (length (txq s)) = Suc (tx_taken s1 (length (txq s1)))"
      using 3(2) tx_taken_cong [of "s\<lparr>uart_reads := uart_reads s + 1\<rparr>" s1] by (simp add: q tx_taken_Suc tx_idle_def s1_def)
    ultimately show ?thesis
      using step t(1-4) q by (intro exI [of _ t]) simp
  qed
qed

lemma uartputc_wait_room:
  "uart_tx_w s \<noteq> uart_tx_r s + of_nat UART_TX_BUF_SIZE \<Longrightarrow> uartputc_wait n s = Done () s"
  by (cases n) (simp_all add: kmon_simps)

lemma uart_frame_panicked: "uart_frame s t \<Longrightarrow> panicked t = panicked s"
proof -
  assume "uart_frame s t"
  then have t: "t = s\<lparr>procs := procs t, uart_tx_r := uart_tx_r t, uart_reads := uart_reads t, uart_out := uart_out t\<rparr>"
    by (simp add: uart_frame_def)
  show ?thesis by (subst t) simp
qed

lemma uartputc_abs:
  assumes s: "uart_ok s" "\<not> panicked s" "length (txq s) < UART_TX_BUF_SIZE"
  shows "\<exists>t. uartputc c s = Done () t \<and> uart_ok t \<and> panicked t = panicked s \<and>
    txq t = drop (tx_taken s (Suc (length (txq s)))) (txq s @ [ucast c]) \<and>
    uart_out t = uart_out s @ map (\<lambda>c. (THR, c)) (take (tx_taken s (Suc (length (txq s)))) (txq s @ [ucast c]))"
proof -
  have ok: "cpu_quiet s" "procs_free s" "lk_free LkUartTx s" using s(1) by (simp_all add: uart_ok_def)
  have lq: "length (txq s) = unat (uart_tx_w s - uart_tx_r s)" by (simp add: txq_def)
  then have room: "uart_tx_w s \<noteq> uart_tx_r s + of_nat UART_TX_BUF_SIZE"
    using uart_ring.count_le [of "uart_tx_w s" "uart_tx_r s"] s(3) by simp
  define s1 where "s1 = s\<lparr>uart_tx_buf := (uart_tx_buf s)[unat (uart_tx_w s) mod UART_TX_BUF_SIZE := ucast c],
    uart_tx_w := uart_tx_w s + 1\<rparr>"
  have q1: "txq s1 = txq s @ [ucast c]"
    using uart_ring.put [of "uart_tx_buf s" "uart_tx_w s" "uart_tx_r s" "ucast c"] s lq
    by (simp add: txq_def s1_def uart_ok_def)
  have ok1: "uart_ok s1" using s(1,3) q1 by (simp add: uart_ok_def) (simp add: s1_def)
  have lq1: "unat (uart_tx_w s1 - uart_tx_r s1) = length (txq s1)" by (simp add: txq_def)
  have k1: "tx_taken s1 (length (txq s1)) = tx_taken s (Suc (length (txq s)))"
    using tx_taken_cong [of s1 s] unfolding q1 by (simp add: s1_def)
  obtain t where t: "uartstart_loop (Suc (length (txq s1))) (acquired LkUartTx s1) = Done () (acquired LkUartTx t)"
      "uart_ok t" "txq t = drop (tx_taken s1 (length (txq s1))) (txq s1)"
      "uart_out t = uart_out s1 @ map (\<lambda>c. (THR, c)) (take (tx_taken s1 (length (txq s1))) (txq s1))" "uart_frame s1 t"
    using uartstart_loop_abs [OF ok1, of "Suc (length (txq s1))"] by auto
  have "uartstart (acquired LkUartTx s1) = Done () (acquired LkUartTx t)"
    using t(1) lq1 by (simp add: uartstart_def kmon_simps del: uartstart_loop.simps)
  then have "uartputc c s = release LkUartTx (acquired LkUartTx t)"
    using ok s(2) uartputc_wait_room [of "acquired LkUartTx s"] room
    by (simp add: uartputc_def kmon_simps bnd_run lock_simps s1_def)
  then have "uartputc c s = Done () t"
    using t(2) by (simp add: uart_ok_def lock_simps)
  moreover have "panicked t = panicked s1"
    using uart_frame_panicked [OF t(5)] .
  moreover have "uart_out s1 = uart_out s" "panicked s1 = panicked s" by (simp_all add: s1_def)
  ultimately show ?thesis using t(2-4) unfolding k1 unfolding q1 by auto
qed

subsection \<open>Properties\<close>

text \<open>
  C9. Output is first-in first-out, loses nothing and is sent as soon as the device takes it. With
  room in the transmit buffer, \<open>uartputc\<close> returns without sleeping. Of the characters queued before
  followed by the new one it has sent, in order, exactly as many as the device answers in a row that
  its transmit register is idle, one for each answer, and exactly the others are queued, whatever
  the device answers and however the 64-bit counters have wrapped.
\<close>

theorem uartputc_fifo:
  assumes "uart_ok s" "\<not> panicked s" "length (txq s) < UART_TX_BUF_SIZE"
  shows "\<exists>t. uartputc c s = Done () t \<and> uart_ok t \<and> panicked t = panicked s \<and>
    txq t = drop (tx_taken s (Suc (length (txq s)))) (txq s @ [ucast c]) \<and>
    uart_out t = uart_out s @ map (\<lambda>c. (THR, c)) (take (tx_taken s (Suc (length (txq s)))) (txq s @ [ucast c]))"
  by (rule uartputc_abs [OF assms])

definition demo_uart :: uartst where
  "demo_uart = \<lparr>patience = 0, hart = 0, sie = (\<lambda>_. False),
     cpus = (\<lambda>_. \<lparr>c_proc = Some 0, c_noff = 0, c_intena = False\<rparr>),
     splk = (\<lambda>_. \<lparr>sl_locked = False, sl_name = [], sl_cpu = None\<rparr>),
     mem = demo_mem, freelist = 0, k_end = 0x80021000,
     kernel_pagetable = 0, k_etext = 0, k_trampoline = 0, satp = (\<lambda>_. 0),
     procs = demo_proc # replicate 63 (demo_proc\<lparr>p_state := UNUSED, p_pid := 0\<rparr>),
     nextpid = 2, initproc = Some 0, ticks = 0,
     uart_tx_buf = replicate 31 0 @ [97], uart_tx_w = 0, uart_tx_r = 0xFFFFFFFFFFFFFFFF, panicked = False, pr_locking = True,
     uart_in = (\<lambda>n reg. if n = 0 then 0x20 else 0), uart_reads = 0, uart_out = []\<rparr>"

theorem uartputc_fifo_witness:
  "txq demo_uart = [97] \<and>
   (\<exists>t. uartputc 98 demo_uart = Done () t \<and> uart_out t = [(THR, 97)] \<and> txq t = [98])"
proof -
  have q: "txq demo_uart = [97]"
    by (simp add: txq_def demo_uart_def ring_list_def UART_TX_BUF_SIZE_def nth_append)
  have "uart_ok demo_uart"
    using q by (simp add: uart_ok_def) (simp add: demo_uart_def cpu_quiet_def procs_free_def lk_free_def mach_defs
        NPROC_def UART_TX_BUF_SIZE_def)
  moreover have "\<not> panicked demo_uart" "uart_out demo_uart = []" by (simp_all add: demo_uart_def)
  moreover have "tx_taken demo_uart (Suc (Suc 0)) = 1"
    by (simp add: tx_taken_Suc tx_idle_def demo_uart_def LSR_TX_IDLE_def)
  ultimately show ?thesis
    using uartputc_fifo [of demo_uart 98] q by (auto simp: UART_TX_BUF_SIZE_def)
qed

end
