(* ===== verification/Printf.thy ===== *)
theory Printf
  imports Uart
begin

text \<open>
  \<open>kernel/printf.c\<close> and the output half of \<open>kernel/console.c\<close>: \<open>consputc\<close>, \<open>printint\<close>, \<open>printptr\<close>,
  \<open>printf\<close>, and what \<open>panic\<close> does before it stops the machine. Format strings are byte sequences
  without their NUL; an argument is the 64-bit value in its register or a string.
  Storing beyond the sixteen characters of the local buffer of \<open>printint\<close> is a \<open>Fault\<close>.
\<close>

subsection \<open>Characters\<close>

definition asc :: "char \<Rightarrow> u8" where
  "asc c = of_char c"

definition BACKSPACE :: u32 where "BACKSPACE = 0x100"

definition consputc :: "u32 \<Rightarrow> ('z uartst_scheme, unit) kmon" where
  "consputc c =
     (if c = BACKSPACE
      then thn (uartputc_sync 8) (thn (uartputc_sync (ucast (asc CHR '' ''))) (uartputc_sync 8))
      else uartputc_sync c)"

subsection \<open>Numbers\<close>

definition digits :: "u8 list" where
  "digits = map asc ''0123456789abcdef''"

text \<open>The digits that the first loop of \<open>printint\<close> stores in its buffer, least significant first.\<close>

function int_digits :: "nat \<Rightarrow> nat \<Rightarrow> u8 list" where
  "int_digits base x =
     digits ! (x mod base) # (if base < 2 \<or> x div base = 0 then [] else int_digits base (x div base))"
  by pat_completeness auto
termination
proof (relation "measure snd")
  fix base x :: nat
  assume "\<not> (base < 2 \<or> x div base = 0)"
  then show "((base, x div base), (base, x)) \<in> measure snd"
    by (cases "x = 0") (simp_all add: div_less_dividend)
qed simp

declare int_digits.simps [simp del]

definition printint_buf :: "u64 \<Rightarrow> nat \<Rightarrow> bool \<Rightarrow> u8 list" where
  "printint_buf xx base sign =
     (let neg = (sign \<and> sint xx < 0);
          x = (if neg then - xx else xx)
      in int_digits base (unat x) @ (if neg then [asc CHR ''-''] else []))"

definition printint :: "u64 \<Rightarrow> nat \<Rightarrow> bool \<Rightarrow> ('z uartst_scheme, unit) kmon" where
  "printint xx base sign =
     (let buf = printint_buf xx base sign
      in if length buf > 16 then fault
         else for_each (rev buf) (\<lambda>c. consputc (ucast c)))"

definition printptr :: "u64 \<Rightarrow> ('z uartst_scheme, unit) kmon" where
  "printptr x =
     thn (consputc (ucast (asc CHR ''0''))) (
     thn (consputc (ucast (asc CHR ''x'')))
         (for_each [0..<16] (\<lambda>i. consputc (ucast (digits ! unat (drop_bit 60 (push_bit (4 * i) x)))))))"

subsection \<open>printf\<close>

datatype parg = ANum u64 | AStr "u8 list option"

fun va_int :: "parg list \<Rightarrow> ('z uartst_scheme, u64 \<times> parg list) kmon" where
  "va_int (ANum x # as) = ret (scast (ucast x :: u32), as)"
| "va_int _ = fault"

fun va_u64 :: "parg list \<Rightarrow> ('z uartst_scheme, u64 \<times> parg list) kmon" where
  "va_u64 (ANum x # as) = ret (x, as)"
| "va_u64 _ = fault"

fun va_str :: "parg list \<Rightarrow> ('z uartst_scheme, u8 list \<times> parg list) kmon" where
  "va_str (AStr (Some s) # as) = ret (s, as)"
| "va_str (AStr None # as) = ret (map asc ''(null)'', as)"
| "va_str _ = fault"

definition char_at :: "u8 list \<Rightarrow> nat \<Rightarrow> u8" where
  "char_at s i = (if i < length s then s ! i else 0)"

text \<open>
  One conversion after a percent sign: how many characters of the format it takes and the arguments
  that are left, or \<open>None\<close> when the format ends.
\<close>

definition printf_conv :: "u8 \<Rightarrow> u8 \<Rightarrow> u8 \<Rightarrow> parg list \<Rightarrow> ('z uartst_scheme, (nat \<times> parg list) option) kmon" where
  "printf_conv c0 c1 c2 as =
     (let d = asc CHR ''d''; l = asc CHR ''l''; u = asc CHR ''u''; x = asc CHR ''x''
      in if c0 = d then bnd (va_int as) (\<lambda>(v, as). thn (printint v 10 True) (ret (Some (1, as))))
         else if c0 = l \<and> c1 = d then bnd (va_u64 as) (\<lambda>(v, as). thn (printint v 10 True) (ret (Some (2, as))))
         else if c0 = l \<and> c1 = l \<and> c2 = d then bnd (va_u64 as) (\<lambda>(v, as). thn (printint v 10 True) (ret (Some (3, as))))
         else if c0 = u then bnd (va_int as) (\<lambda>(v, as). thn (printint v 10 False) (ret (Some (1, as))))
         else if c0 = l \<and> c1 = u then bnd (va_u64 as) (\<lambda>(v, as). thn (printint v 10 False) (ret (Some (2, as))))
         else if c0 = l \<and> c1 = l \<and> c2 = u then bnd (va_u64 as) (\<lambda>(v, as). thn (printint v 10 False) (ret (Some (3, as))))
         else if c0 = x then bnd (va_int as) (\<lambda>(v, as). thn (printint v 16 False) (ret (Some (1, as))))
         else if c0 = l \<and> c1 = x then bnd (va_u64 as) (\<lambda>(v, as). thn (printint v 16 False) (ret (Some (2, as))))
         else if c0 = l \<and> c1 = l \<and> c2 = x then bnd (va_u64 as) (\<lambda>(v, as). thn (printint v 16 False) (ret (Some (3, as))))
         else if c0 = asc CHR ''p'' then bnd (va_u64 as) (\<lambda>(v, as). thn (printptr v) (ret (Some (1, as))))
         else if c0 = asc CHR ''s'' then
           bnd (va_str as) (\<lambda>(s, as).
           thn (for_each (takeWhile (\<lambda>c. c \<noteq> 0) s) (\<lambda>c. consputc (ucast c))) (ret (Some (1, as))))
         else if c0 = asc CHR ''%'' then thn (consputc (ucast (asc CHR ''%''))) (ret (Some (1, as)))
         else if c0 = 0 then ret None
         else thn (consputc (ucast (asc CHR ''%''))) (thn (consputc (ucast c0)) (ret (Some (1, as)))))"

function printf_loop :: "u8 list \<Rightarrow> parg list \<Rightarrow> ('z uartst_scheme, unit) kmon" where
  "printf_loop [] as = ret ()"
| "printf_loop (cx # fmt) as =
     (if cx = 0 then ret () else
      if cx \<noteq> asc CHR ''%'' then thn (consputc (ucast cx)) (printf_loop fmt as) else
      let c0 = char_at fmt 0;
          c1 = (if c0 \<noteq> 0 then char_at fmt 1 else 0);
          c2 = (if c1 \<noteq> 0 then char_at fmt 2 else 0)
      in bnd (printf_conv c0 c1 c2 as) (\<lambda>r.
         case r of None \<Rightarrow> ret () | Some (n, as) \<Rightarrow> printf_loop (drop n fmt) as))"
  by pat_completeness auto
termination by (relation "measure (\<lambda>(fmt, as). length fmt)") (auto simp: less_Suc_eq_le)

declare printf_loop.simps [simp del]

definition printf :: "string \<Rightarrow> parg list \<Rightarrow> ('z uartst_scheme, unit) kmon" where
  "printf fmt as =
     bnd (gets pr_locking) (\<lambda>locking.
     thn (whenM locking (acquire LkPr)) (
     thn (printf_loop (map asc fmt) as)
         (whenM locking (release LkPr))))"

text \<open>The body of \<open>panic\<close>; elsewhere a call of \<open>panic\<close> is the outcome \<open>Panic\<close>.\<close>

definition panic_body :: "string \<Rightarrow> ('z uartst_scheme, unit) kmon" where
  "panic_body msg =
     thn (modify (\<lambda>s. s\<lparr>pr_locking := False\<rparr>)) (
     thn (printf ''panic: '' []) (
     thn (printf (''%s'' @ [CHR 0x0A]) [AStr (Some (map asc msg))]) (
     thn (modify (\<lambda>s. s\<lparr>panicked := True\<rparr>))
         spin)))"

definition printfinit :: "('z uartst_scheme, unit) kmon" where
  "printfinit = thn (initlock LkPr ''pr'') (modify (\<lambda>s. s\<lparr>pr_locking := True\<rparr>))"

subsection \<open>Reading numbers back\<close>

text \<open>
  The decimal numerals: digits \<open>0\<close> to \<open>9\<close> only, at least one of them, no leading zero, and a minus
  sign only in front of a number that is not zero. Anything else is \<open>None\<close>.
\<close>

fun dec_value :: "nat \<Rightarrow> u8 list \<Rightarrow> nat option" where
  "dec_value n [] = Some n"
| "dec_value n (c # cs) = (if 48 \<le> c \<and> c \<le> 57 then dec_value (n * 10 + (unat c - 48)) cs else None)"

fun read_dec_nat :: "u8 list \<Rightarrow> nat option" where
  "read_dec_nat [] = None"
| "read_dec_nat (c # cs) = (if c = 48 \<and> cs \<noteq> [] then None else dec_value 0 (c # cs))"

fun read_dec :: "u8 list \<Rightarrow> int option" where
  "read_dec [] = None"
| "read_dec (c # cs) =
     (if c = asc CHR ''-'' then (case read_dec_nat cs of Some (Suc n) \<Rightarrow> Some (- int (Suc n)) | _ \<Rightarrow> None)
      else map_option int (read_dec_nat (c # cs)))"

lemma digits_eq: "digits = [48, 49, 50, 51, 52, 53, 54, 55, 56, 57, 97, 98, 99, 100, 101, 102]"
  by (simp add: digits_def asc_def)

lemma less_16: "k < 16 \<Longrightarrow> k \<in> {0, 1, 2, 3, 4, 5, 6, 7, 8, 9, 10, 11, 12, 13, 14, 15 :: nat}"
  by (simp only: insert_iff empty_iff) presburger

lemma digits_not_minus: "k < 16 \<Longrightarrow> digits ! k \<noteq> asc CHR ''-''"
  by (drule less_16, elim insertE emptyE; simp add: asc_def digits_eq)

lemma int_digits_set:
  assumes "2 \<le> base" "base \<le> 16"
  shows "set (int_digits base x) \<subseteq> (!) digits ` {..<16}"
  using assms
proof (induction base x rule: int_digits.induct)
  case (1 base x)
  have "x mod base < base" using 1(2) by simp
  then have "x mod base < 16" using 1(3) by linarith
  then show ?case using 1 by (subst int_digits.simps) auto
qed

lemma int_digits_Nil [simp]: "int_digits base x \<noteq> []"
  by (simp add: int_digits.simps [of base x])

lemma less_10: "k < 10 \<Longrightarrow> k \<in> {0, 1, 2, 3, 4, 5, 6, 7, 8, 9 :: nat}"
  by (simp only: insert_iff empty_iff) presburger

lemma dec_digit:
  "k < 10 \<Longrightarrow> 48 \<le> digits ! k \<and> digits ! k \<le> 57 \<and> unat (digits ! k) - 48 = k \<and> (digits ! k = 48 \<longleftrightarrow> k = 0)"
  by (drule less_10, elim insertE emptyE; simp add: digits_eq)

lemma dec_value_append:
  "dec_value n (cs @ ds) = (case dec_value n cs of None \<Rightarrow> None | Some m \<Rightarrow> dec_value m ds)"
  by (induction cs arbitrary: n) auto

lemma int_digits_10:
  "int_digits 10 x = digits ! (x mod 10) # (if x < 10 then [] else int_digits 10 (x div 10))"
  by (subst int_digits.simps) (simp add: div_eq_0_iff)

lemma read_dec_nat_int_digits: "read_dec_nat (rev (int_digits 10 x)) = Some x"
proof -
  have v: "dec_value 0 (rev (int_digits 10 x)) = Some x" for x
  proof (induction x rule: less_induct)
    case (less x)
    then show ?case
      using dec_digit [of "x mod 10"] by (subst int_digits_10) (cases "x < 10"; simp add: dec_value_append)
  qed
  have z: "\<exists>k. last (int_digits 10 x) = digits ! k \<and> k < 10 \<and> (k = 0 \<longrightarrow> x = 0)" for x
  proof (induction x rule: less_induct)
    case (less x)
    show ?case
    proof (cases "x < 10")
      case True
      then show ?thesis by (subst int_digits_10) auto
    next
      case False
      then obtain k where "last (int_digits 10 (x div 10)) = digits ! k" "k < 10" "k = 0 \<longrightarrow> x div 10 = 0"
        using less [of "x div 10"] by auto
      then show ?thesis using False by (subst int_digits_10) (auto simp: div_eq_0_iff)
    qed
  qed
  obtain k where k: "last (int_digits 10 x) = digits ! k" "k < 10" "k = 0 \<longrightarrow> x = 0" using z by blast
  obtain c cs where c: "rev (int_digits 10 x) = c # cs" by (cases "rev (int_digits 10 x)") auto
  then have "c = digits ! k" using k(1) by (metis hd_rev list.sel(1))
  moreover have "cs = []" if "x = 0" using c that by (simp add: int_digits_10 [of 0])
  ultimately have "\<not> (c = 48 \<and> cs \<noteq> [])" using k dec_digit [of k] by auto
  then show ?thesis using v [of x] c by auto
qed

lemma read_dec_int_digits:
  "read_dec (rev (int_digits 10 x)) = Some (int x)"
  "0 < x \<Longrightarrow> read_dec (asc CHR ''-'' # rev (int_digits 10 x)) = Some (- int x)"
proof -
  obtain c cs where c: "rev (int_digits 10 x) = c # cs" by (cases "rev (int_digits 10 x)") auto
  then have "c \<in> set (int_digits 10 x)" by (metis list.set_intros(1) set_rev)
  then obtain k where k: "c = digits ! k" "k < 16" using int_digits_set [of 10 x] by auto
  have "c \<noteq> asc CHR ''-''" unfolding k(1) by (rule digits_not_minus [OF k(2)])
  then show "read_dec (rev (int_digits 10 x)) = Some (int x)"
    using c read_dec_nat_int_digits [of x] by (simp del: read_dec_nat.simps)
  show "read_dec (asc CHR ''-'' # rev (int_digits 10 x)) = Some (- int x)" if "0 < x"
    using read_dec_nat_int_digits [of x] that by (cases x) simp_all
qed

lemma length_int_digits:
  assumes "2 \<le> base"
  shows "length (int_digits base x) \<le> Suc n \<longleftrightarrow> x < base ^ Suc n"
  using assms
proof (induction n arbitrary: x)
  case 0
  then show ?case by (subst int_digits.simps) (auto simp: div_eq_0_iff)
next
  case (Suc n)
  have "length (int_digits base x) \<le> Suc (Suc n) \<longleftrightarrow> x div base = 0 \<or> length (int_digits base (x div base)) \<le> Suc n"
    using Suc.prems by (subst int_digits.simps) simp
  also have "\<dots> \<longleftrightarrow> x div base = 0 \<or> x div base < base ^ Suc n" unfolding Suc.IH [OF Suc.prems, of "x div base"] ..
  also have "\<dots> \<longleftrightarrow> x div base < base ^ Suc n"
  proof -
    have "0 < base ^ Suc n" using Suc.prems by simp
    then show ?thesis by linarith
  qed
  also have "\<dots> \<longleftrightarrow> x < base ^ Suc (Suc n)"
    using Suc.prems div_less_iff_less_mult [of base x "base ^ Suc n"] by (simp add: mult.commute)
  finally show ?case .
qed

lemma printint_buf_dec:
  "read_dec (rev (printint_buf xx 10 sign)) = Some (if sign then sint xx else uint xx)"
proof -
  have s: "- (2 ^ 63) \<le> sint xx" "sint xx < 2 ^ 63"
    using sint_greater_eq [of xx] sint_less [of xx] by simp_all
  have u: "uint xx = sint xx mod 2 ^ 64" unfolding uint_sint take_bit_eq_mod by simp
  have neg: "int (unat (- xx)) = - sint xx" if "sint xx < 0"
  proof -
    have "uint (- xx) = (- uint xx) mod 2 ^ 64" by (simp add: uint_word_ariths)
    also have "\<dots> = (- sint xx) mod 2 ^ 64" unfolding u by (rule mod_minus_eq)
    also have "\<dots> = - sint xx" using that s(1) by (intro mod_pos_pos_trivial) auto
    finally show ?thesis unfolding uint_nat .
  qed
  have pos: "int (unat xx) = sint xx" if "\<not> sint xx < 0"
  proof -
    have "sint xx mod 2 ^ 64 = sint xx" using that s(2) by (intro mod_pos_pos_trivial) auto
    then show ?thesis using u unfolding uint_nat by simp
  qed
  have un: "uint xx = int (unat xx)" by (rule uint_nat)
  show ?thesis
  proof (cases "sign \<and> sint xx < 0")
    case True
    then have n: "int (unat (- xx)) = - sint xx" using neg by simp
    then have "0 < unat (- xx)" using True by linarith
    from read_dec_int_digits(2) [OF this] True n show ?thesis unfolding printint_buf_def Let_def by simp
  next
    case False
    then show ?thesis
      using pos read_dec_int_digits(1) [of "unat xx"] unfolding un printint_buf_def Let_def by auto
  qed
qed

subsection \<open>Running on a ready device\<close>

definition uart_ready :: "'z uartst_scheme \<Rightarrow> bool" where
  "uart_ready s \<longleftrightarrow> cpu_quiet s \<and> \<not> panicked s \<and> (\<forall>n. uart_in s n LSR AND LSR_TX_IDLE \<noteq> 0)"

definition emit :: "u8 list \<Rightarrow> 'z uartst_scheme \<Rightarrow> 'z uartst_scheme" where
  "emit cs s = s\<lparr>uart_reads := uart_reads s + length cs, uart_out := uart_out s @ map (\<lambda>c. (THR, c)) cs\<rparr>"

lemma emit_simps [simp]:
  "emit [] s = s" "emit cs (emit ds s) = emit (ds @ cs) s" "uart_ready (emit cs s) = uart_ready s"
  "uart_out (emit cs s) = uart_out s @ map (\<lambda>c. (THR, c)) cs" "panicked (emit cs s) = panicked s"
  "pr_locking (emit cs s) = pr_locking s" "emit cs (acquired lk s) = acquired lk (emit cs s)"
  "cpu_quiet (emit cs s) = cpu_quiet s" "lk_free lk (emit cs s) = lk_free lk s"
  by (simp_all add: emit_def uart_ready_def add.assoc)

lemma uart_ready_acquired: "uart_ready s \<Longrightarrow> uart_ready (acquired lk s)"
  by (simp add: uart_ready_def lock_simps)

lemma uartputc_sync_ready:
  assumes "uart_ready s"
  shows "uartputc_sync c s = Done () (emit [ucast c] s)"
proof -
  have q: "cpu_quiet s" "cpu_quiet (emit [ucast c] s)" using assms by (simp_all add: uart_ready_def)
  define t where "t = s\<lparr>sie := (sie s)(hart s := False),
     cpus := (cpus s)(hart s := (cpus s (hart s))\<lparr>c_noff := c_noff (cpus s (hart s)) + 1\<rparr>)\<rparr>"
  have t: "push_off s = Done () t" using push_off_quiet [OF q(1)] by (simp add: t_def)
  have te: "push_off (emit [ucast c] s) = Done () (emit [ucast c] t)"
    using push_off_quiet [OF q(2)] by (simp add: emit_def t_def)
  have "uart_in t = uart_in s" "panicked t = panicked s" by (simp_all add: t_def)
  then have "uartputc_sync c s = pop_off (emit [ucast c] t)"
    using t assms
    by (simp add: uartputc_sync_def kmon_simps bnd_run ReadReg_def WriteReg_def uart_ready_def emit_def)
  then show ?thesis using pop_push_quiet [OF q(2) te] by simp
qed

lemma consputc_ready: "uart_ready s \<Longrightarrow> consputc (ucast (c :: u8)) s = Done () (emit [c] s)"
proof -
  assume r: "uart_ready s"
  have "unat c < 256" by (rule order_less_le_trans [OF unsigned_less]) simp
  then have "unat (ucast c :: u32) < 256" by (simp add: unsigned_ucast_eq take_bit_nat_eq_self)
  then have "(ucast c :: u32) \<noteq> BACKSPACE" by (auto simp: BACKSPACE_def)
  moreover have "ucast (ucast c :: u32) = c" by (rule bit_word_eqI) (simp add: bit_simps)
  ultimately show ?thesis using uartputc_sync_ready [OF r] by (simp add: consputc_def)
qed

lemma put_chars_ready: "uart_ready s \<Longrightarrow> for_each cs (\<lambda>c. consputc (ucast (c :: u8))) s = Done () (emit cs s)"
  by (induction cs arbitrary: s) (simp_all add: kmon_simps bnd_run consputc_ready)

lemma printint_ready:
  assumes "uart_ready s"
  shows "printint xx base sign s =
    (if length (printint_buf xx base sign) > 16 then Fault else Done () (emit (rev (printint_buf xx base sign)) s))"
  using put_chars_ready [OF assms] by (simp add: printint_def Let_def fault_def)

subsection \<open>Properties\<close>

lemma printint_buf_length:
  "length (printint_buf xx 10 sign) \<le> 16 \<longleftrightarrow>
     (if sign \<and> sint xx < 0 then unat (- xx) < 10 ^ 15 else unat xx < 10 ^ 16)"
  using length_int_digits [of 10 _ 14] length_int_digits [of 10 _ 15]
  by (auto simp: printint_buf_def Let_def)

lemma sint_scast: "sint (scast (v :: u32) :: u64) = sint v"
proof -
  have "- (2 ^ 63) \<le> sint v" "sint v < 2 ^ 63" using sint_greater_eq [of v] sint_less [of v] by simp_all
  then show ?thesis by (simp add: signed_scast_eq signed_take_bit_int_eq_self)
qed
lemma printint_d_fits: "length (printint_buf (scast (v :: u32)) 10 True) \<le> 16"
proof -
  have s: "- (2 ^ 31) \<le> sint v" "sint v < 2 ^ 31" using sint_greater_eq [of v] sint_less [of v] by simp_all
  define x :: u64 where "x = scast v"
  have x: "sint x = sint v" unfolding x_def by (rule sint_scast)
  have u: "uint x = sint x mod 2 ^ 64" unfolding uint_sint take_bit_eq_mod by simp
  show ?thesis
  proof (cases "sint x < 0")
    case True
    have "uint (- x) = (- uint x) mod 2 ^ 64" by (simp add: uint_word_ariths)
    also have "\<dots> = (- sint x) mod 2 ^ 64" unfolding u by (rule mod_minus_eq)
    also have "\<dots> = - sint x" using True s(1) x by (intro mod_pos_pos_trivial) auto
    finally have "int (unat (- x)) = - sint v" unfolding uint_nat x .
    then have "int (unat (- x)) < 10 ^ 15" using s(1) by simp
    then have "unat (- x) < 10 ^ 15" unfolding of_nat_less_numeral_power_cancel_iff .
    then show ?thesis using True printint_buf_length [of x True] by (simp add: x_def)
  next
    case False
    then have "sint x mod 2 ^ 64 = sint x" using s(2) x by (intro mod_pos_pos_trivial) auto
    then have "int (unat x) = sint v" using u x unfolding uint_nat by simp
    then have "int (unat x) < 10 ^ 16" using s(2) by simp
    then have "unat x < 10 ^ 16" unfolding of_nat_less_numeral_power_cancel_iff .
    then show ?thesis using False printint_buf_length [of x True] by (simp add: x_def)
  qed
qed

definition demo_printf :: uartst where
  "demo_printf = demo_uart\<lparr>uart_in := (\<lambda>_ _. 0x20)\<rparr>"

lemma demo_printf_ready: "uart_ready demo_printf" "lk_free LkPr demo_printf"
  by (simp_all add: uart_ready_def demo_printf_def demo_uart_def cpu_quiet_def lk_free_def mach_defs LSR_TX_IDLE_def)

text \<open>
  C10. \<open>printf\<close> of \<open>%d\<close> prints the argument: on a ready device it sends the decimal
  numeral of the signed 32-bit value, for every value (at least one digit, no leading zero, a minus
  sign exactly for the negative ones), and changes nothing else.
\<close>

theorem printf_d_roundtrip:
  assumes "uart_ready s" "lk_free LkPr s"
  shows "\<exists>cs. printf ''%d'' [ANum x] s = Done () (emit cs s) \<and> read_dec cs = Some (sint (ucast x :: u32))"
proof -
  let ?b = "printint_buf (scast (ucast x :: u32)) 10 True"
  have q: "cpu_quiet s" using assms(1) by (simp add: uart_ready_def)
  have run: "printf_loop (map asc ''%d'') [ANum x] t = Done () (emit (rev ?b) t)" if "uart_ready t" for t :: "'a uartst_scheme"
    using printint_ready [OF that, of "scast (ucast x :: u32)" 10 True] printint_d_fits [of "ucast x"]
    by (simp add: printf_loop.simps asc_def char_at_def printf_conv_def Let_def kmon_simps bnd_run)
  have "printf ''%d'' [ANum x] s = Done () (emit (rev ?b) s)"
    using run [OF assms(1)] run [OF uart_ready_acquired [OF assms(1), of LkPr]] q assms(2)
    by (simp add: printf_def kmon_simps bnd_run lock_simps del: list.map)
  moreover have "read_dec (rev ?b) = Some (sint (ucast x :: u32))"
    using printint_buf_dec [of "scast (ucast x :: u32)" True] by (simp add: sint_scast)
  ultimately show ?thesis by blast
qed

theorem printf_d_roundtrip_witness:
  "\<exists>cs. printf ''%d'' [ANum 0xFFFFFFFF] demo_printf = Done () (emit cs demo_printf) \<and> read_dec cs = Some (-1)"
  using printf_d_roundtrip [OF demo_printf_ready, where x = "0xFFFFFFFF"] by simp



end
