(* ===== verification/Console.thy ===== *)
theory Console
  imports Printf
begin

text \<open>
  \<open>kernel/console.c\<close>: the console input buffer with its line editing, reads and writes of the
  console device, \<open>procdump\<close> of \<open>kernel/proc.c\<close> which the console calls, and the UART interrupt
  handler. The three counters of the input buffer are free-running 32-bit words.
\<close>

subsection \<open>State\<close>

text \<open>The entries of the device switch: the only functions stored there are those of the console.\<close>

datatype devfn = NoFn | ConsoleRead | ConsoleWrite

definition INPUT_BUF_SIZE :: nat where "INPUT_BUF_SIZE = 128"
definition CONSOLE :: nat where "CONSOLE = 1"

definition Ctrl :: "char \<Rightarrow> u32" where
  "Ctrl x = ucast (asc x - asc CHR ''@'')"

record consst = uartst +
  cons_buf :: "u8 list"
  cons_r :: u32
  cons_w :: u32
  cons_e :: u32
  devsw_read :: "nat \<Rightarrow> devfn"
  devsw_write :: "nat \<Rightarrow> devfn"

definition newline :: u8 where "newline = 10"
definition carriage_return :: u8 where "carriage_return = 13"

subsection \<open>Operations\<close>

fun state_name :: "procstate \<Rightarrow> string" where
  "state_name UNUSED = ''unused''"
| "state_name USED = ''used''"
| "state_name SLEEPING = ''sleep ''"
| "state_name RUNNABLE = ''runble''"
| "state_name RUNNING = ''run   ''"
| "state_name ZOMBIE = ''zombie''"

definition procdump :: "('z uartst_scheme, unit) kmon" where
  "procdump =
     thn (printf [CHR 0x0A] [])
         (for_each [0..<NPROC] (\<lambda>i.
            bnd (gets (\<lambda>s. procs s ! i)) (\<lambda>p.
            whenM (p_state p \<noteq> UNUSED) (
              thn (printf ''%d %s %s'' [ANum (of_int (p_pid p)),
                     AStr (Some (map asc (state_name (p_state p)))), AStr (Some (p_name p))])
                  (printf [CHR 0x0A] [])))))"

fun consolewrite_loop :: "nat \<Rightarrow> nat \<Rightarrow> ksrc \<Rightarrow> ('z consst_scheme, int) kmon" where
  "consolewrite_loop 0 i src = ret (int i)"
| "consolewrite_loop (Suc m) i src =
     bnd (either_copyin_obj (src_add src i) 1) (\<lambda>(r, bs).
     if r = -1 then ret (int i) else
     thn (uartputc (ucast (hd bs))) (consolewrite_loop m (Suc i) src))"

definition consolewrite :: "ksrc \<Rightarrow> int \<Rightarrow> ('z consst_scheme, int) kmon" where
  "consolewrite src n = consolewrite_loop (nat n) 0 src"

text \<open>Wait until the interrupt handler has completed a line; \<open>False\<close> when the process was killed.\<close>

fun consoleread_wait :: "nat \<Rightarrow> ('z consst_scheme, bool) kmon" where
  "consoleread_wait 0 = bnd (gets (\<lambda>s. cons_r s = cons_w s)) (\<lambda>empty. if empty then fault else ret True)"
| "consoleread_wait (Suc m) =
     bnd (gets (\<lambda>s. cons_r s = cons_w s)) (\<lambda>empty.
     if \<not> empty then ret True else
     bnd curproc (\<lambda>p.
     bnd (killed p) (\<lambda>k.
     if k \<noteq> 0 then thn (release LkCons) (ret False)
     else thn (sleep ChConsR LkCons) (consoleread_wait m))))"

text \<open>The outer loop with \<open>n\<close> bytes left: \<open>None\<close> when killed, else the bytes left at its end.\<close>

fun consoleread_loop :: "nat \<Rightarrow> nat \<Rightarrow> kdst \<Rightarrow> ('z consst_scheme, nat option) kmon" where
  "consoleread_loop target 0 dst = ret (Some 0)"
| "consoleread_loop target (Suc m) dst =
     bnd (gets patience) (\<lambda>k.
     bnd (consoleread_wait k) (\<lambda>go.
     if \<not> go then ret None else
     bnd (gets (\<lambda>s. cons_buf s ! (unat (cons_r s) mod INPUT_BUF_SIZE))) (\<lambda>c.
     thn (modify (\<lambda>s. s\<lparr>cons_r := cons_r s + 1\<rparr>)) (
     if ucast c = Ctrl CHR ''D'' then
       thn (whenM (Suc m < target) (modify (\<lambda>s. s\<lparr>cons_r := cons_r s - 1\<rparr>))) (ret (Some (Suc m)))
     else
       bnd (either_copyout_obj dst [c]) (\<lambda>r.
       if r = -1 then ret (Some (Suc m))
       else if c = newline then ret (Some m)
       else consoleread_loop target m (dst_add dst 1))))))"

definition consoleread :: "kdst \<Rightarrow> int \<Rightarrow> ('z consst_scheme, int) kmon" where
  "consoleread dst n =
     thn (acquire LkCons) (
     bnd (consoleread_loop (nat n) (nat n) dst) (\<lambda>left.
     case left of
       None \<Rightarrow> ret (-1)
     | Some m \<Rightarrow> thn (release LkCons) (ret (n - (if n > 0 then int m else n)))))"

text \<open>
  The loop of control-U; every round takes one character off the edited line, so one round more
  than its length is enough.
\<close>

fun kill_line :: "nat \<Rightarrow> ('z consst_scheme, unit) kmon" where
  "kill_line 0 = fault"
| "kill_line (Suc m) =
     bnd (gets (\<lambda>s. cons_e s \<noteq> cons_w s \<and> cons_buf s ! (unat (cons_e s - 1) mod INPUT_BUF_SIZE) \<noteq> newline)) (\<lambda>more.
     if \<not> more then ret () else
     thn (modify (\<lambda>s. s\<lparr>cons_e := cons_e s - 1\<rparr>)) (
     thn (consputc BACKSPACE)
         (kill_line m)))"

definition cons_store :: "u32 \<Rightarrow> ('z consst_scheme, unit) kmon" where
  "cons_store c0 =
     bnd (gets (\<lambda>s. c0 \<noteq> 0 \<and> unat (cons_e s - cons_r s) < INPUT_BUF_SIZE)) (\<lambda>room.
     whenM room (
       bnd (ret (if c0 = ucast carriage_return then ucast newline else c0)) (\<lambda>c.
       thn (consputc c) (
       thn (modify (\<lambda>s. s\<lparr>cons_buf := (cons_buf s)[unat (cons_e s) mod INPUT_BUF_SIZE := ucast c]\<rparr>)) (
       thn (modify (\<lambda>s. s\<lparr>cons_e := cons_e s + 1\<rparr>)) (
       bnd (gets (\<lambda>s. c = ucast newline \<or> c = Ctrl CHR ''D'' \<or> unat (cons_e s - cons_r s) = INPUT_BUF_SIZE)) (\<lambda>complete.
       whenM complete (
         thn (modify (\<lambda>s. s\<lparr>cons_w := cons_e s\<rparr>))
             (wakeup ChConsR)))))))))"

definition consoleintr :: "u32 \<Rightarrow> ('z consst_scheme, unit) kmon" where
  "consoleintr c =
     thn (acquire LkCons) (
     thn (if c = Ctrl CHR ''P'' then procdump
          else if c = Ctrl CHR ''U'' then
            bnd (gets (\<lambda>s. unat (cons_e s - cons_w s))) (\<lambda>n. kill_line (Suc n))
          else if c = Ctrl CHR ''H'' \<or> c = 0x7f then
            bnd (gets (\<lambda>s. cons_e s \<noteq> cons_w s)) (\<lambda>any.
            whenM any (
              thn (modify (\<lambda>s. s\<lparr>cons_e := cons_e s - 1\<rparr>))
                  (consputc BACKSPACE)))
          else cons_store c)
         (release LkCons))"

definition consoleinit :: "('z consst_scheme, unit) kmon" where
  "consoleinit =
     thn (initlock LkCons ''cons'') (
     thn uartinit (
     thn (modify (\<lambda>s. s\<lparr>devsw_read := (devsw_read s)(CONSOLE := ConsoleRead)\<rparr>))
         (modify (\<lambda>s. s\<lparr>devsw_write := (devsw_write s)(CONSOLE := ConsoleWrite)\<rparr>))))"

text \<open>The loop over incoming characters ends when the device has none; it may have any number.\<close>

fun uartintr_loop :: "nat \<Rightarrow> ('z consst_scheme, unit) kmon" where
  "uartintr_loop 0 = spin"
| "uartintr_loop (Suc m) =
     bnd uartgetc (\<lambda>c.
     if c = -1 then ret () else
     thn (consoleintr (of_int c)) (uartintr_loop m))"

definition uartintr :: "('z consst_scheme, unit) kmon" where
  "uartintr =
     bnd (gets patience) (\<lambda>n.
     thn (uartintr_loop (Suc n)) (
     thn (acquire LkUartTx) (
     thn uartstart
         (release LkUartTx))))"

subsection \<open>Frame lemmas\<close>

lemma consst_acquired [simp]:
  "cons_buf (acquired lk s) = cons_buf s" "cons_r (acquired lk s) = cons_r s" "cons_w (acquired lk s) = cons_w s"
  "cons_e (acquired lk s) = cons_e s" "devsw_read (acquired lk s) = devsw_read s"
  "devsw_write (acquired lk s) = devsw_write s"
  "cons_buf_update f0 (acquired lk s) = acquired lk (cons_buf_update f0 s)"
  "cons_r_update f1 (acquired lk s) = acquired lk (cons_r_update f1 s)"
  "cons_w_update f2 (acquired lk s) = acquired lk (cons_w_update f2 s)"
  "cons_e_update f3 (acquired lk s) = acquired lk (cons_e_update f3 s)"
  by (simp_all add: acquired_def)

lemma consst_frame [simp]:
  "cpu_quiet (cons_buf_update f0 s) = cpu_quiet s" "cpu_quiet (cons_r_update f1 s) = cpu_quiet s"
  "cpu_quiet (cons_w_update f2 s) = cpu_quiet s" "cpu_quiet (cons_e_update f3 s) = cpu_quiet s"
  "lk_free lk (cons_buf_update f0 s) = lk_free lk s" "lk_free lk (cons_r_update f1 s) = lk_free lk s"
  "lk_free lk (cons_w_update f2 s) = lk_free lk s" "lk_free lk (cons_e_update f3 s) = lk_free lk s"
  "cur (cons_buf_update f0 s) = cur s" "cur (cons_r_update f1 s) = cur s" "cur (cons_w_update f2 s) = cur s"
  "cur (cons_e_update f3 s) = cur s" "procs_free (cons_buf_update f0 s) = procs_free s"
  "procs_free (cons_r_update f1 s) = procs_free s" "procs_free (cons_w_update f2 s) = procs_free s"
  "procs_free (cons_e_update f3 s) = procs_free s" "no_sleeper ch (cons_buf_update f0 s) = no_sleeper ch s"
  "no_sleeper ch (cons_r_update f1 s) = no_sleeper ch s" "no_sleeper ch (cons_w_update f2 s) = no_sleeper ch s"
  "no_sleeper ch (cons_e_update f3 s) = no_sleeper ch s" "uart_ready (cons_buf_update f0 s) = uart_ready s"
  "uart_ready (cons_r_update f1 s) = uart_ready s" "uart_ready (cons_w_update f2 s) = uart_ready s"
  "uart_ready (cons_e_update f3 s) = uart_ready s"
  by (simp_all add: cpu_quiet_def lk_free_def cur_def mach_defs procs_free_def no_sleeper_def uart_ready_def)

lemma consst_emit [simp]:
  "cons_buf (emit cs s) = cons_buf s" "cons_r (emit cs s) = cons_r s" "cons_w (emit cs s) = cons_w s"
  "cons_e (emit cs s) = cons_e s" "procs (emit cs s) = procs s" "procs_free (emit cs s) = procs_free s"
  "cur (emit cs s) = cur s"
  "cons_buf_update f (emit cs s) = emit cs (cons_buf_update f s)" "cons_e_update g (emit cs s) = emit cs (cons_e_update g s)"
  "cons_w_update g (emit cs s) = emit cs (cons_w_update g s)" "procs_update h (emit cs s) = emit cs (procs_update h s)"
  "uart_ready (procs_update h s) = uart_ready s"
  by (simp_all add: emit_def uart_ready_def)

subsection \<open>The line discipline\<close>

interpretation cons_ring: ring INPUT_BUF_SIZE "TYPE(32)"
  by unfold_locales (simp_all add: INPUT_BUF_SIZE_def)

text \<open>The input that readers may consume, and the line being edited.\<close>

definition cons_ready :: "'z consst_scheme \<Rightarrow> u8 list" where
  "cons_ready s = ring_list INPUT_BUF_SIZE (cons_buf s) (cons_r s) (cons_w s)"

definition cons_line :: "'z consst_scheme \<Rightarrow> u8 list" where
  "cons_line s = ring_list INPUT_BUF_SIZE (cons_buf s) (cons_w s) (cons_e s)"

definition cons_inv :: "'z consst_scheme \<Rightarrow> bool" where
  "cons_inv s \<longleftrightarrow> length (cons_buf s) = INPUT_BUF_SIZE \<and>
     unat (cons_w s - cons_r s) \<le> unat (cons_e s - cons_r s) \<and>
     unat (cons_e s - cons_r s) \<le> INPUT_BUF_SIZE \<and> newline \<notin> set (cons_line s)"

text \<open>The specification: what a character does to a pair of ready input and edited line.\<close>

definition line_char :: "u32 \<Rightarrow> u8" where
  "line_char c = (if c = ucast carriage_return then newline else ucast c)"

definition line_input :: "u32 \<Rightarrow> u8 list \<times> u8 list \<Rightarrow> u8 list \<times> u8 list" where
  "line_input c = (\<lambda>(ready, line).
     if c = Ctrl CHR ''U'' then (ready, [])
     else if c = Ctrl CHR ''H'' \<or> c = 0x7f then (ready, butlast line)
     else if c = 0 \<or> length ready + length line \<ge> INPUT_BUF_SIZE then (ready, line)
     else if line_char c = newline \<or> c = Ctrl CHR ''D'' \<or> length ready + length line + 1 = INPUT_BUF_SIZE
     then (ready @ line @ [line_char c], [])
     else (ready, line @ [line_char c]))"

lemma cons_lengths:
  assumes "cons_inv s"
  shows "length (cons_ready s) + length (cons_line s) = unat (cons_e s - cons_r s)"
  using cons_ring.split [of "cons_w s" "cons_r s" "cons_e s" "cons_buf s"] assms
  unfolding cons_inv_def cons_ready_def cons_line_def by (metis length_append length_ring_list)

lemma unat_less_256: "unat (c :: u32) < 256 \<Longrightarrow> ucast (ucast c :: u8) = c"
  by (simp add: word_unat_eq_iff unsigned_ucast_eq unsigned_take_bit_eq take_bit_nat_eq_self)

definition cons_ok :: "'z consst_scheme \<Rightarrow> bool" where
  "cons_ok s \<longleftrightarrow> cons_inv s \<and> uart_ready s \<and> procs_free s \<and> lk_free LkCons s \<and> length (procs s) = NPROC"

lemma cons_okD:
  assumes "cons_ok s"
  shows "cons_inv s" "uart_ready s" "cpu_quiet s" "procs_free s" "lk_free LkCons s" "length (procs s) = NPROC"
    "uart_ready (acquired LkCons s)"
  using assms uart_ready_acquired [of s LkCons] by (simp_all add: cons_ok_def uart_ready_def)

lemma cons_inv_emit [simp]: "cons_inv (emit cs s) = cons_inv s" "cons_ok (emit cs s) = cons_ok s"
  "cons_ready (emit cs s) = cons_ready s" "cons_line (emit cs s) = cons_line s"
  by (simp_all add: cons_inv_def cons_ok_def cons_ready_def cons_line_def)

lemma consputc_char: "uart_ready s \<Longrightarrow> unat c < 256 \<Longrightarrow> consputc c s = Done () (emit [ucast c] s)"
  using consputc_ready [of s "ucast c"] unat_less_256 [of c] by simp

lemma consputc_back: "uart_ready s \<Longrightarrow> consputc BACKSPACE s = Done () (emit [8, 32, 8] s)"
  by (simp add: consputc_def kmon_simps bnd_run uartputc_sync_ready asc_def)

lemma line_erase:
  assumes "cons_inv s" "cons_e s \<noteq> cons_w s"
  shows "cons_inv (s\<lparr>cons_e := cons_e s - 1\<rparr>)" "cons_line (s\<lparr>cons_e := cons_e s - 1\<rparr>) = butlast (cons_line s)"
    "cons_ready (s\<lparr>cons_e := cons_e s - 1\<rparr>) = cons_ready s"
    "cons_buf s ! (unat (cons_e s - 1) mod INPUT_BUF_SIZE) = last (cons_line s)" "cons_line s \<noteq> []"
proof -
  let ?t = "s\<lparr>cons_e := cons_e s - 1\<rparr>"
  show line: "cons_line ?t = butlast (cons_line s)"
    using cons_ring.erase [OF assms(2)] by (simp add: cons_line_def)
  show "cons_ready ?t = cons_ready s" by (simp add: cons_ready_def)
  have pos: "unat (cons_e s - cons_w s) > 0" using assms(2) by (simp add: unat_gt_0)
  have ln: "length (cons_ready s) + length (cons_line s) = unat (cons_e s - cons_r s)" by (rule cons_lengths [OF assms(1)])
  then have er: "cons_e s \<noteq> cons_r s" "unat (cons_w s - cons_r s) < unat (cons_e s - cons_r s)"
    using pos by (auto simp: cons_ready_def cons_line_def)
  have "unat (cons_e s - cons_r s - 1) = unat (cons_e s - cons_r s) - 1" using er(1) by (simp add: unat_minus_one)
  then have e1: "unat (cons_e s - 1 - cons_r s) = unat (cons_e s - cons_r s) - 1" by (simp add: algebra_simps)
  show "cons_inv ?t"
    using assms(1) er(2) unfolding cons_inv_def line by (auto simp: e1 dest: in_set_butlastD)
  show ne: "cons_line s \<noteq> []" using pos by (metis cons_line_def length_ring_list list.size(3) not_less_zero)
  have "cons_line s = ring_list INPUT_BUF_SIZE (cons_buf s) (cons_w s) (cons_e s - 1) @
      ring_list INPUT_BUF_SIZE (cons_buf s) (cons_e s - 1) (cons_e s)"
    unfolding cons_line_def
  proof (rule cons_ring.split)
    have "unat (cons_e s - cons_w s - 1) = unat (cons_e s - cons_w s) - 1" using assms(2) by (simp add: unat_minus_one)
    then have "unat (cons_e s - 1 - cons_w s) = unat (cons_e s - cons_w s) - 1" by (simp add: algebra_simps)
    then show "unat (cons_e s - 1 - cons_w s) \<le> unat (cons_e s - cons_w s)" by simp
  qed
  moreover have "ring_list INPUT_BUF_SIZE (cons_buf s) (cons_e s - 1) (cons_e s) = [cons_buf s ! (unat (cons_e s - 1) mod INPUT_BUF_SIZE)]"
    using cons_ring.get [of "cons_e s" "cons_e s - 1" "cons_buf s"] by simp
  ultimately show "cons_buf s ! (unat (cons_e s - 1) mod INPUT_BUF_SIZE) = last (cons_line s)" by simp
qed

lemma kill_line_abs:
  assumes "cons_ok s" "length (cons_line s) < n"
  shows "\<exists>t cs. kill_line n (acquired LkCons s) = Done () (acquired LkCons (emit cs t)) \<and> cons_ok t \<and>
    cons_ready t = cons_ready s \<and> cons_line t = []"
  using assms
proof (induction n arbitrary: s)
  case (Suc n)
  note ok = cons_okD [OF Suc.prems(1)]
  show ?case
  proof (cases "cons_e s = cons_w s")
    case True
    then have "kill_line (Suc n) (acquired LkCons s) = Done () (acquired LkCons (emit [] s))" by (simp add: kmon_simps)
    then show ?thesis using Suc.prems(1) True by (intro exI [of _ s] exI [of _ "[]"]) (simp add: cons_line_def)
  next
    case False
    let ?t = "s\<lparr>cons_e := cons_e s - 1\<rparr>"
    note er = line_erase [OF ok(1) False]
    have "last (cons_line s) \<noteq> newline" using ok(1) er(5) last_in_set by (fastforce simp: cons_inv_def)
    then have step: "kill_line (Suc n) (acquired LkCons s) = kill_line n (acquired LkCons (emit [8, 32, 8] ?t))"
      using False er(4) consputc_back [of "acquired LkCons ?t"] uart_ready_acquired [of ?t LkCons] ok(2)
      by (simp add: kmon_simps bnd_run)
    have "cons_ok (emit [8, 32, 8] ?t)" using Suc.prems(1) er(1) by (simp add: cons_ok_def)
    moreover have "length (cons_line ?t) < n" using Suc.prems(2) er(2,5) by (cases "cons_line s") simp_all
    ultimately obtain t cs where "kill_line n (acquired LkCons (emit [8, 32, 8] ?t)) = Done () (acquired LkCons (emit cs t))"
        "cons_ok t" "cons_ready t = cons_ready s" "cons_line t = []"
      using Suc.IH [of "emit [8, 32, 8] ?t"] er(3) by auto
    then show ?thesis unfolding step by blast
  qed
qed simp

lemma line_store:
  fixes c :: u8
  assumes inv: "cons_inv s" and room: "length (cons_ready s) + length (cons_line s) < INPUT_BUF_SIZE"
  defines "t \<equiv> s\<lparr>cons_buf := (cons_buf s)[unat (cons_e s) mod INPUT_BUF_SIZE := c], cons_e := cons_e s + 1\<rparr>"
  shows "cons_ready t = cons_ready s" "cons_line t = cons_line s @ [c]" "c \<noteq> newline \<Longrightarrow> cons_inv t"
    "cons_ready (t\<lparr>cons_w := cons_e t\<rparr>) = cons_ready s @ cons_line s @ [c]" "cons_line (t\<lparr>cons_w := cons_e t\<rparr>) = []"
    "cons_inv (t\<lparr>cons_w := cons_e t\<rparr>)"
    "unat (cons_e t - cons_r t) = length (cons_ready s) + length (cons_line s) + 1"
proof -
  have len: "length (cons_ready s) + length (cons_line s) = unat (cons_e s - cons_r s)" by (rule cons_lengths [OF inv])
  then have lt: "unat (cons_e s - cons_r s) < INPUT_BUF_SIZE" using room by simp
  have b: "length (cons_buf s) = INPUT_BUF_SIZE" "unat (cons_w s - cons_r s) \<le> unat (cons_e s - cons_r s)"
    using inv by (simp_all add: cons_inv_def)
  note put = cons_ring.put_other [OF b lt, of c] cons_ring.put [OF b(1) lt, of c]
  have e: "unat (cons_e s + 1 - cons_r s) = Suc (unat (cons_e s - cons_r s))"
    by (rule unat_plus_Suc [OF lt]) (simp add: INPUT_BUF_SIZE_def)
  show tr: "cons_ready t = cons_ready s" and tl: "cons_line t = cons_line s @ [c]"
    using put by (simp_all add: cons_ready_def cons_line_def t_def)
  show "cons_ready (t\<lparr>cons_w := cons_e t\<rparr>) = cons_ready s @ cons_line s @ [c]"
    using put(3) cons_ring.split [OF b(2), of "cons_buf s"] by (simp add: cons_ready_def cons_line_def t_def)
  show tl': "cons_line (t\<lparr>cons_w := cons_e t\<rparr>) = []" by (simp add: cons_line_def)
  show "unat (cons_e t - cons_r t) = length (cons_ready s) + length (cons_line s) + 1" using e len by (simp add: t_def)
  show "cons_inv t" if "c \<noteq> newline"
    using inv lt that unfolding cons_inv_def tl by (simp add: t_def e)
  show "cons_inv (t\<lparr>cons_w := cons_e t\<rparr>)"
    using lt b unfolding cons_inv_def tl' by (simp add: t_def e)
qed

lemma cons_store_abs:
  assumes ok: "cons_ok s" and c: "unat c < 256" "c \<noteq> Ctrl CHR ''U''" "c \<noteq> Ctrl CHR ''H''" "c \<noteq> 0x7f"
  shows "\<exists>t. cons_store c (acquired LkCons s) = Done () (acquired LkCons t) \<and> cons_ok t \<and>
    (cons_ready t, cons_line t) = line_input c (cons_ready s, cons_line s)"
proof (cases "c \<noteq> 0 \<and> length (cons_ready s) + length (cons_line s) < INPUT_BUF_SIZE")
  case False
  then have "\<not> (c \<noteq> 0 \<and> unat (cons_e s - cons_r s) < INPUT_BUF_SIZE)" using cons_lengths cons_okD(1) [OF ok] by metis
  then have "cons_store c (acquired LkCons s) = Done () (acquired LkCons s)" by (auto simp: cons_store_def kmon_simps bnd_run)
  moreover have "line_input c (cons_ready s, cons_line s) = (cons_ready s, cons_line s)"
    using False c by (auto simp: line_input_def)
  ultimately show ?thesis using ok by auto
next
  case True
  note okd = cons_okD [OF ok]
  let ?d = "if c = ucast carriage_return then ucast newline else c"
  let ?b = "line_char c"
  let ?s = "emit [?b] s"
  have d: "unat ?d < 256" using c(1) by (simp add: newline_def)
  have db: "ucast ?d = ?b" by (simp add: line_char_def newline_def)
  have dn: "?d = ucast newline \<longleftrightarrow> ?b = newline"
    using unat_less_256 [OF c(1)] by (auto simp: line_char_def newline_def)
  have dD: "?d = Ctrl CHR ''D'' \<longleftrightarrow> c = Ctrl CHR ''D''"
    by (simp add: Ctrl_def asc_def newline_def carriage_return_def)
  define t where "t = ?s\<lparr>cons_buf := (cons_buf s)[unat (cons_e s) mod INPUT_BUF_SIZE := ?b], cons_e := cons_e s + 1\<rparr>"
  have st: "cons_inv ?s" "length (cons_ready ?s) + length (cons_line ?s) < INPUT_BUF_SIZE" using okd(1) True by simp_all
  note ls = line_store [OF st, of ?b, simplified, folded t_def]
  have len: "length (cons_ready s) + length (cons_line s) = unat (cons_e s - cons_r s)" by (rule cons_lengths [OF okd(1)])
  let ?full = "?b = newline \<or> c = Ctrl CHR ''D'' \<or> length (cons_ready s) + length (cons_line s) + 1 = INPUT_BUF_SIZE"
  have run: "cons_store c (acquired LkCons s) = whenM ?full
      (thn (modify (\<lambda>s. s\<lparr>cons_w := cons_e s\<rparr>)) (wakeup ChConsR)) (acquired LkCons t)"
    using True len consputc_char [OF okd(7) d] dn dD ls(7) db by (simp add: cons_store_def kmon_simps bnd_run t_def)
  have spec: "line_input c (cons_ready s, cons_line s) =
      (if ?full then (cons_ready s @ cons_line s @ [?b], []) else (cons_ready s, cons_line s @ [?b]))"
    using True c by (auto simp: line_input_def)
  show ?thesis
  proof (cases ?full)
    case False
    then have "cons_ok t" using ls(3) ok by (simp add: cons_ok_def t_def)
    then show ?thesis using False run spec ls(1,2) by (intro exI [of _ t]) (simp add: kmon_simps t_def)
  next
    case full: True
    let ?u = "t\<lparr>cons_w := cons_e t\<rparr>"
    let ?v = "?u\<lparr>procs := wake_all ChConsR (cur s) (procs s)\<rparr>"
    have "cons_store c (acquired LkCons s) = Done () (acquired LkCons ?v)"
      using full okd wakeup_quiet [of "acquired LkCons ?u" ChConsR] unfolding run
      by (simp add: kmon_simps bnd_run t_def lock_simps)
    moreover have "cons_ok ?v" using ls(6) ok by (simp add: cons_ok_def cons_inv_def cons_line_def t_def)
    moreover have "cons_ready ?v = cons_ready s @ cons_line s @ [?b]" "cons_line ?v = []"
      using ls(4,5) by (simp_all add: cons_ready_def cons_line_def t_def)
    ultimately show ?thesis using full spec by (intro exI [of _ ?v]) simp
  qed
qed

subsection \<open>The line discipline\<close>

definition demo_cons :: consst where
  "demo_cons = uartst.extend (demo_printf\<lparr>procs := replicate NPROC (procs demo_printf ! 0)\<rparr>)
     (consst.fields (replicate INPUT_BUF_SIZE 0) (- 1) (- 1) (- 1) (\<lambda>_. NoFn) (\<lambda>_. NoFn))"

text \<open>
  C3. The console input buffer implements the line discipline: for every character but control-P the
  interrupt handler finishes and changes the pair (input ready for readers, line being edited) exactly
  as the specification \<open>line_input\<close> says: control-U empties the edited line, backspace takes off its
  last character, a full buffer drops the character, and newline, control-D or a full buffer hand the
  line over to the readers. The three counters may wrap around.
\<close>

theorem consoleintr_edits_line:
  assumes ok: "cons_ok s" and c: "unat c < 256" "c \<noteq> Ctrl CHR ''P''"
  shows "\<exists>t. consoleintr c s = Done () t \<and> cons_ok t \<and>
    (cons_ready t, cons_line t) = line_input c (cons_ready s, cons_line s)"
proof -
  note okd = cons_okD [OF ok]
  let ?body = "if c = Ctrl CHR ''U'' then bnd (gets (\<lambda>s. unat (cons_e s - cons_w s))) (\<lambda>n. kill_line (Suc n))
     else if c = Ctrl CHR ''H'' \<or> c = 0x7f then
       bnd (gets (\<lambda>s. cons_e s \<noteq> cons_w s)) (\<lambda>any.
       whenM any (thn (modify (\<lambda>s. s\<lparr>cons_e := cons_e s - 1\<rparr>)) (consputc BACKSPACE)))
     else cons_store c"
  have "\<exists>t. ?body (acquired LkCons s) = Done () (acquired LkCons t) \<and> cons_ok t \<and>
      (cons_ready t, cons_line t) = line_input c (cons_ready s, cons_line s)"
  proof (cases "c = Ctrl CHR ''U''")
    case True
    have "length (cons_line s) < Suc (unat (cons_e s - cons_w s))" by (simp add: cons_line_def)
    from kill_line_abs [OF ok this] True show ?thesis
      by (auto simp: bnd_run kmon_simps line_input_def simp del: kill_line.simps)
  next
    case U: False
    show ?thesis
    proof (cases "c = Ctrl CHR ''H'' \<or> c = 0x7f")
      case bs: True
      have li: "line_input c (cons_ready s, cons_line s) = (cons_ready s, butlast (cons_line s))"
        using bs U by (simp add: line_input_def)
      show ?thesis
      proof (cases "cons_e s = cons_w s")
        case True
        then show ?thesis using bs U li ok by (intro exI [of _ s]) (simp add: bnd_run kmon_simps cons_line_def)
      next
        case False
        let ?t = "s\<lparr>cons_e := cons_e s - 1\<rparr>"
        note er = line_erase [OF okd(1) False]
        have "uart_ready (acquired LkCons ?t)" using okd(2) by (intro uart_ready_acquired) simp
        then have "?body (acquired LkCons s) = Done () (acquired LkCons (emit [8, 32, 8] ?t))"
          using bs U False consputc_back [of "acquired LkCons ?t"] by (simp add: bnd_run kmon_simps)
        moreover have "cons_ok (emit [8, 32, 8] ?t)" using ok er(1) by (simp add: cons_ok_def)
        ultimately show ?thesis using li er(2,3) by (intro exI [of _ "emit [8, 32, 8] ?t"]) simp
      qed
    next
      case False
      then show ?thesis using U cons_store_abs [OF ok c(1) U] by simp
    qed
  qed
  then obtain t where t: "?body (acquired LkCons s) = Done () (acquired LkCons t)" "cons_ok t"
      "(cons_ready t, cons_line t) = line_input c (cons_ready s, cons_line s)" by blast
  have "consoleintr c s = bnd ?body (\<lambda>_. release LkCons) (acquired LkCons s)"
    using okd(3,5) c(2) by (simp add: consoleintr_def thn_def bnd_run lock_simps)
  then have "consoleintr c s = Done () t"
    using t(1) cons_okD [OF t(2)] by (simp add: bnd_run lock_simps)
  then show ?thesis using t(2,3) by blast
qed

lemma demo_cons_ok: "cons_ok demo_cons" "cons_ready demo_cons = []" "cons_line demo_cons = []"
  by (simp_all add: cons_ok_def cons_inv_def cons_ready_def cons_line_def demo_cons_def uart_ready_def
      uartst.extend_def consst.fields_def demo_printf_def demo_uart_def cpu_quiet_def lk_free_def mach_defs procs_free_def
      LSR_TX_IDLE_def)

theorem consoleintr_edits_line_witness:
  "\<exists>t. consoleintr 65 demo_cons = Done () t \<and> cons_ok t \<and> cons_ready t = [] \<and> cons_line t = [65]"
  using consoleintr_edits_line [OF demo_cons_ok(1), of 65] demo_cons_ok(2,3)
  by (simp add: Ctrl_def asc_def line_input_def line_char_def INPUT_BUF_SIZE_def newline_def carriage_return_def)

end
