(* ===== verification/Sleeplock.thy ===== *)
theory Sleeplock
  imports Console
begin

text \<open>
  \<open>kernel/sleeplock.c\<close>: the long-term locks of buffers and inodes. A sleep lock holds a spin
  lock; its identity names both.
\<close>

subsection \<open>State\<close>

datatype slid = SBuf nat | SInode nat

fun sl_lk :: "slid \<Rightarrow> lockid" where
  "sl_lk (SBuf n) = LkBuf n"
| "sl_lk (SInode n) = LkInode n"

fun sl_chan :: "slid \<Rightarrow> chan" where
  "sl_chan (SBuf n) = ChBuf n"
| "sl_chan (SInode n) = ChInode n"

record sleeplock =
  sk_locked :: bool
  sk_name :: string
  sk_pid :: int

record sleepst = consst +
  sleeplk :: "slid \<Rightarrow> sleeplock"

definition slk_upd :: "slid \<Rightarrow> (sleeplock \<Rightarrow> sleeplock) \<Rightarrow> ('z sleepst_scheme, unit) kmon" where
  "slk_upd l f = modify (\<lambda>s. s\<lparr>sleeplk := (sleeplk s)(l := f (sleeplk s l))\<rparr>)"

subsection \<open>Operations\<close>

definition initsleeplock :: "slid \<Rightarrow> string \<Rightarrow> ('z sleepst_scheme, unit) kmon" where
  "initsleeplock l nm =
     thn (initlock (sl_lk l) ''sleep lock'') (
     thn (slk_upd l (\<lambda>k. k\<lparr>sk_name := nm\<rparr>)) (
     thn (slk_upd l (\<lambda>k. k\<lparr>sk_locked := False\<rparr>))
         (slk_upd l (\<lambda>k. k\<lparr>sk_pid := 0\<rparr>))))"

fun acquiresleep_wait :: "nat \<Rightarrow> slid \<Rightarrow> ('z sleepst_scheme, unit) kmon" where
  "acquiresleep_wait 0 l =
     bnd (gets (\<lambda>s. sk_locked (sleeplk s l))) (\<lambda>b. if b then fault else ret ())"
| "acquiresleep_wait (Suc n) l =
     bnd (gets (\<lambda>s. sk_locked (sleeplk s l))) (\<lambda>b.
     if b then thn (sleep (sl_chan l) (sl_lk l)) (acquiresleep_wait n l) else ret ())"

definition acquiresleep :: "slid \<Rightarrow> ('z sleepst_scheme, unit) kmon" where
  "acquiresleep l =
     thn (acquire (sl_lk l)) (
     bnd (gets patience) (\<lambda>n.
     thn (acquiresleep_wait n l) (
     thn (slk_upd l (\<lambda>k. k\<lparr>sk_locked := True\<rparr>)) (
     bnd curproc (\<lambda>p.
     bnd (gets (\<lambda>s. p_pid (procs s ! p))) (\<lambda>pid.
     thn (slk_upd l (\<lambda>k. k\<lparr>sk_pid := pid\<rparr>))
         (release (sl_lk l))))))))"

definition releasesleep :: "slid \<Rightarrow> ('z sleepst_scheme, unit) kmon" where
  "releasesleep l =
     thn (acquire (sl_lk l)) (
     thn (slk_upd l (\<lambda>k. k\<lparr>sk_locked := False\<rparr>)) (
     thn (slk_upd l (\<lambda>k. k\<lparr>sk_pid := 0\<rparr>)) (
     thn (wakeup (sl_chan l))
         (release (sl_lk l)))))"

definition holdingsleep :: "slid \<Rightarrow> ('z sleepst_scheme, bool) kmon" where
  "holdingsleep l =
     thn (acquire (sl_lk l)) (
     bnd (gets (\<lambda>s. sleeplk s l)) (\<lambda>k.
     bnd (if sk_locked k
          then bnd curproc (\<lambda>p. bnd (gets (\<lambda>s. p_pid (procs s ! p))) (\<lambda>pid. ret (sk_pid k = pid)))
          else ret False) (\<lambda>r.
     thn (release (sl_lk l)) (ret r))))"

subsection \<open>A calm system\<close>

text \<open>
  Between file-system operations of one process: the CPU is quiet, no spin lock is held, there
  is a current process, and no process sleeps on a file-system channel.
\<close>

fun fs_chan :: "chan \<Rightarrow> bool" where
  "fs_chan (ChBuf n) = True"
| "fs_chan (ChInode n) = True"
| "fs_chan ChLog = True"
| "fs_chan c = False"

definition calm :: "'z procst_scheme \<Rightarrow> bool" where
  "calm s \<longleftrightarrow> cpu_quiet s \<and> (\<forall>lk. lk_free lk s) \<and> (\<exists>p < NPROC. cur s = Some p) \<and>
     length (procs s) = NPROC \<and> (\<forall>ch. fs_chan ch \<longrightarrow> no_sleeper ch s)"

lemma calmD:
  assumes "calm s"
  shows "cpu_quiet s" "lk_free lk s" "procs_free s" "length (procs s) = NPROC"
    "fs_chan ch \<Longrightarrow> no_sleeper ch s"
  using assms by (simp_all add: calm_def procs_free_def)

definition curpid :: "'z procst_scheme \<Rightarrow> int" where
  "curpid s = p_pid (procs s ! the (cur s))"

lemma no_sleeper_frame [simp]:
  "no_sleeper ch (acquired lk s) = no_sleeper ch s" "no_sleeper ch (mem_update f s) = no_sleeper ch s"
  "no_sleeper ch (freelist_update g s) = no_sleeper ch s" "no_sleeper ch (ticks_update h s) = no_sleeper ch s"
  by (simp_all add: no_sleeper_def)

lemma calm_frame [simp]:
  "calm (mem_update f s) = calm s" "calm (freelist_update g s) = calm s" "calm (ticks_update h s) = calm s"
  by (simp_all add: calm_def)

lemma curpid_frame [simp]:
  "curpid (acquired lk s) = curpid s" "curpid (mem_update f s) = curpid s"
  "curpid (freelist_update g s) = curpid s" "curpid (ticks_update h s) = curpid s"
  by (simp_all add: curpid_def)

lemma sleepst_frame [simp]:
  "cpu_quiet (sleeplk_update f s) = cpu_quiet s" "lk_free lk (sleeplk_update f s) = lk_free lk s"
  "sleeplk (acquired lk s) = sleeplk s" "cur (sleeplk_update f s) = cur s"
  "sleeplk_update f (acquired lk s) = acquired lk (sleeplk_update f s)"
  "procs_free (sleeplk_update f s) = procs_free s" "no_sleeper ch (sleeplk_update f s) = no_sleeper ch s"
  "calm (sleeplk_update f s) = calm s" "curpid (sleeplk_update f s) = curpid s"
  by (simp_all add: cpu_quiet_def lk_free_def acquired_def mach_defs procs_free_def no_sleeper_def calm_def cur_def
      curpid_def)

lemma sl_simps [simp]: "fs_chan (sl_chan l)" "sl_lk l \<noteq> LkProc i" "LkProc i \<noteq> sl_lk l"
  by (cases l; simp)+

subsection \<open>Running on a calm system\<close>

named_theorems calm_simps \<open>equations that run the file-system operations on a calm system\<close>

definition sl_held :: "slid \<Rightarrow> 'z sleepst_scheme \<Rightarrow> bool" where
  "sl_held l s \<longleftrightarrow> sk_locked (sleeplk s l) \<and> sk_pid (sleeplk s l) = curpid s"

definition sl_take :: "slid \<Rightarrow> 'z sleepst_scheme \<Rightarrow> 'z sleepst_scheme" where
  "sl_take l s = s\<lparr>sleeplk := (sleeplk s)(l := (sleeplk s l)\<lparr>sk_locked := True, sk_pid := curpid s\<rparr>)\<rparr>"

definition sl_drop :: "slid \<Rightarrow> 'z sleepst_scheme \<Rightarrow> 'z sleepst_scheme" where
  "sl_drop l s = s\<lparr>sleeplk := (sleeplk s)(l := (sleeplk s l)\<lparr>sk_locked := False, sk_pid := 0\<rparr>)\<rparr>"

lemma acquiresleep_wait_free:
  "\<not> sk_locked (sleeplk s l) \<Longrightarrow> acquiresleep_wait n l s = Done () s"
  by (cases n) (simp_all add: kmon_simps)

lemma acquiresleep_calm [calm_simps]:
  assumes "calm s" "\<not> sk_locked (sleeplk s l)"
  shows "acquiresleep l s = Done () (sl_take l s)"
proof -
  obtain p where "cur s = Some p" using assms(1) by (auto simp: calm_def)
  then show ?thesis
    using assms(2) calmD [OF assms(1)]
    by (simp add: acquiresleep_def kmon_simps bnd_run lock_simps proc_simps acquiresleep_wait_free
        slk_upd_def sl_take_def curpid_def)
qed

lemma releasesleep_calm [calm_simps]:
  assumes "calm s"
  shows "releasesleep l s = Done () (sl_drop l s)"
  using assms calmD [OF assms(1)]
  by (simp add: releasesleep_def kmon_simps bnd_run lock_simps slk_upd_def sl_drop_def wakeup_none)

lemma holdingsleep_calm [calm_simps]:
  assumes "calm s"
  shows "holdingsleep l s = Done (sl_held l s) s"
proof -
  obtain p where "cur s = Some p" using assms(1) by (auto simp: calm_def)
  then show ?thesis
    using calmD [OF assms(1)]
    by (simp add: holdingsleep_def kmon_simps bnd_run lock_simps proc_simps sl_held_def curpid_def)
qed

lemma sl_take_frame [simp]:
  "calm (sl_take l s) = calm s" "curpid (sl_take l s) = curpid s"
  "sl_held k (sl_take l s) \<longleftrightarrow> k = l \<or> sl_held k s"
  "sk_locked (sleeplk (sl_take l s) k) \<longleftrightarrow> k = l \<or> sk_locked (sleeplk s k)"
  by (auto simp: sl_take_def sl_held_def)

lemma sl_drop_frame [simp]:
  "calm (sl_drop l s) = calm s" "curpid (sl_drop l s) = curpid s"
  "sl_held k (sl_drop l s) \<longleftrightarrow> k \<noteq> l \<and> sl_held k s"
  "sk_locked (sleeplk (sl_drop l s) k) \<longleftrightarrow> k \<noteq> l \<and> sk_locked (sleeplk s k)"
  by (auto simp: sl_drop_def sl_held_def)

end
