(* ===== verification/Bio.thy ===== *)
theory Bio
  imports Sleeplock
begin

text \<open>
  \<open>kernel/bio.c\<close>: the buffer cache. The buffers and their list head are linked by pointers as in
  the code; the list is followed with a step count, and the lemmas relate it to the sequence of
  buffers from most to least recently used. The disk is an array of blocks together with the
  sequence of writes it has received; \<open>disk_rw\<close> is what \<open>virtio_disk_rw\<close> does between its call and its
  return, the transfer of one block (the driver itself is modelled in \<open>Virtio\<close>).
\<close>

subsection \<open>State\<close>

datatype bptr = BHead | BBuf nat

record buf =
  b_valid :: bool
  b_disk :: bool
  b_dev :: u32
  b_blockno :: u32
  b_refcnt :: u32
  b_prev :: bptr
  b_next :: bptr
  b_data :: "u8 list"

type_synonym block = "u8 list"

record biost = sleepst +
  bufs :: "buf list"
  head_prev :: bptr
  head_next :: bptr
  disk :: "u32 \<Rightarrow> block"
  dhist :: "(u32 \<times> block) list"

definition buf_upd :: "nat \<Rightarrow> (buf \<Rightarrow> buf) \<Rightarrow> 'z biost_scheme \<Rightarrow> 'z biost_scheme" where
  "buf_upd i f s = s\<lparr>bufs := (bufs s)[i := f (bufs s ! i)]\<rparr>"

fun set_prev :: "bptr \<Rightarrow> bptr \<Rightarrow> 'z biost_scheme \<Rightarrow> 'z biost_scheme" where
  "set_prev BHead q s = s\<lparr>head_prev := q\<rparr>"
| "set_prev (BBuf i) q s = buf_upd i (\<lambda>b. b\<lparr>b_prev := q\<rparr>) s"

fun set_next :: "bptr \<Rightarrow> bptr \<Rightarrow> 'z biost_scheme \<Rightarrow> 'z biost_scheme" where
  "set_next BHead q s = s\<lparr>head_next := q\<rparr>"
| "set_next (BBuf i) q s = buf_upd i (\<lambda>b. b\<lparr>b_next := q\<rparr>) s"

fun get_prev :: "'z biost_scheme \<Rightarrow> bptr \<Rightarrow> bptr" where
  "get_prev s BHead = head_prev s"
| "get_prev s (BBuf i) = b_prev (bufs s ! i)"

fun get_next :: "'z biost_scheme \<Rightarrow> bptr \<Rightarrow> bptr" where
  "get_next s BHead = head_next s"
| "get_next s (BBuf i) = b_next (bufs s ! i)"

subsection \<open>The disk\<close>

definition disk_write :: "u32 \<Rightarrow> block \<Rightarrow> 'z biost_scheme \<Rightarrow> 'z biost_scheme" where
  "disk_write bno d s = s\<lparr>disk := (disk s)(bno := d), dhist := dhist s @ [(bno, d)]\<rparr>"

definition disk_rw :: "nat \<Rightarrow> bool \<Rightarrow> ('z biost_scheme, unit) kmon" where
  "disk_rw i write =
     modify (\<lambda>s. if write then disk_write (b_blockno (bufs s ! i)) (b_data (bufs s ! i)) s
       else buf_upd i (\<lambda>b. b\<lparr>b_data := disk s (b_blockno (bufs s ! i))\<rparr>) s)"

subsection \<open>Operations\<close>

definition binit :: "('z biost_scheme, unit) kmon" where
  "binit =
     thn (initlock LkBcache ''bcache'') (
     thn (modify (\<lambda>s. s\<lparr>head_prev := BHead\<rparr>)) (
     thn (modify (\<lambda>s. s\<lparr>head_next := BHead\<rparr>))
         (for_each [0..<NBUF] (\<lambda>i.
            thn (modify (\<lambda>s. set_next (BBuf i) (head_next s) s)) (
            thn (modify (set_prev (BBuf i) BHead)) (
            thn (initsleeplock (SBuf i) ''buffer'') (
            thn (modify (\<lambda>s. set_prev (head_next s) (BBuf i) s))
                (modify (set_next BHead (BBuf i))))))))))"

fun bscan :: "nat \<Rightarrow> (buf \<Rightarrow> bptr) \<Rightarrow> (buf \<Rightarrow> bool) \<Rightarrow> bptr \<Rightarrow> ('z biost_scheme, nat option) kmon" where
  "bscan 0 nx P p = fault"
| "bscan (Suc n) nx P BHead = ret None"
| "bscan (Suc n) nx P (BBuf i) =
     bnd (gets (\<lambda>s. bufs s ! i)) (\<lambda>b. if P b then ret (Some i) else bscan n nx P (nx b))"

definition bget :: "u32 \<Rightarrow> u32 \<Rightarrow> ('z biost_scheme, nat) kmon" where
  "bget dev blockno =
     thn (acquire LkBcache) (
     bnd (gets head_next) (\<lambda>p.
     bnd (bscan (Suc NBUF) b_next (\<lambda>b. b_dev b = dev \<and> b_blockno b = blockno) p) (\<lambda>hit.
     case hit of
       Some i \<Rightarrow>
         thn (modify (buf_upd i (\<lambda>b. b\<lparr>b_refcnt := b_refcnt b + 1\<rparr>))) (
         thn (release LkBcache) (
         thn (acquiresleep (SBuf i)) (ret i)))
     | None \<Rightarrow>
         bnd (gets head_prev) (\<lambda>q.
         bnd (bscan (Suc NBUF) b_prev (\<lambda>b. b_refcnt b = 0) q) (\<lambda>victim.
         case victim of
           Some i \<Rightarrow>
             thn (modify (buf_upd i (\<lambda>b. b\<lparr>b_dev := dev, b_blockno := blockno, b_valid := False, b_refcnt := 1\<rparr>))) (
             thn (release LkBcache) (
             thn (acquiresleep (SBuf i)) (ret i)))
         | None \<Rightarrow> panic ''bget: no buffers'')))))"

definition bread :: "u32 \<Rightarrow> u32 \<Rightarrow> ('z biost_scheme, nat) kmon" where
  "bread dev blockno =
     bnd (bget dev blockno) (\<lambda>i.
     bnd (gets (\<lambda>s. b_valid (bufs s ! i))) (\<lambda>v.
     thn (whenM (\<not> v) (
            thn (disk_rw i False)
                (modify (buf_upd i (\<lambda>b. b\<lparr>b_valid := True\<rparr>))))) (
     ret i)))"

definition bwrite :: "nat \<Rightarrow> ('z biost_scheme, unit) kmon" where
  "bwrite i =
     bnd (holdingsleep (SBuf i)) (\<lambda>h.
     if \<not> h then panic ''bwrite'' else disk_rw i True)"

definition brelse :: "nat \<Rightarrow> ('z biost_scheme, unit) kmon" where
  "brelse i =
     bnd (holdingsleep (SBuf i)) (\<lambda>h.
     if \<not> h then panic ''brelse'' else
     thn (releasesleep (SBuf i)) (
     thn (acquire LkBcache) (
     thn (modify (buf_upd i (\<lambda>b. b\<lparr>b_refcnt := b_refcnt b - 1\<rparr>))) (
     bnd (gets (\<lambda>s. b_refcnt (bufs s ! i))) (\<lambda>r.
     thn (whenM (r = 0) (
       thn (modify (\<lambda>s. set_prev (b_next (bufs s ! i)) (b_prev (bufs s ! i)) s)) (
       thn (modify (\<lambda>s. set_next (b_prev (bufs s ! i)) (b_next (bufs s ! i)) s)) (
       thn (modify (\<lambda>s. set_next (BBuf i) (head_next s) s)) (
       thn (modify (set_prev (BBuf i) BHead)) (
       thn (modify (\<lambda>s. set_prev (head_next s) (BBuf i) s))
           (modify (set_next BHead (BBuf i)))))))))
         (release LkBcache))))))"

definition bpin :: "nat \<Rightarrow> ('z biost_scheme, unit) kmon" where
  "bpin i =
     thn (acquire LkBcache) (
     thn (modify (buf_upd i (\<lambda>b. b\<lparr>b_refcnt := b_refcnt b + 1\<rparr>)))
         (release LkBcache))"

definition bunpin :: "nat \<Rightarrow> ('z biost_scheme, unit) kmon" where
  "bunpin i =
     thn (acquire LkBcache) (
     thn (modify (buf_upd i (\<lambda>b. b\<lparr>b_refcnt := b_refcnt b - 1\<rparr>)))
         (release LkBcache))"

subsection \<open>Frame lemmas\<close>

lemma biost_frame [simp]:
  "cpu_quiet (bufs_update f s) = cpu_quiet s" "cpu_quiet (head_prev_update g s) = cpu_quiet s"
  "cpu_quiet (head_next_update g s) = cpu_quiet s" "cpu_quiet (disk_update h s) = cpu_quiet s"
  "cpu_quiet (dhist_update k s) = cpu_quiet s"
  "lk_free lk (bufs_update f s) = lk_free lk s" "lk_free lk (head_prev_update g s) = lk_free lk s"
  "lk_free lk (head_next_update g s) = lk_free lk s" "lk_free lk (disk_update h s) = lk_free lk s"
  "lk_free lk (dhist_update k s) = lk_free lk s"
  "bufs (acquired lk s) = bufs s" "head_prev (acquired lk s) = head_prev s"
  "head_next (acquired lk s) = head_next s" "disk (acquired lk s) = disk s" "dhist (acquired lk s) = dhist s"
  "bufs_update f (acquired lk s) = acquired lk (bufs_update f s)"
  "head_prev_update g (acquired lk s) = acquired lk (head_prev_update g s)"
  "head_next_update g (acquired lk s) = acquired lk (head_next_update g s)"
  "disk_update h (acquired lk s) = acquired lk (disk_update h s)"
  "dhist_update k (acquired lk s) = acquired lk (dhist_update k s)"
  by (simp_all add: cpu_quiet_def lk_free_def acquired_def mach_defs)

lemma biost_calm [simp]:
  "calm (bufs_update f s) = calm s" "calm (head_prev_update g s) = calm s" "calm (head_next_update g s) = calm s"
  "calm (disk_update h s) = calm s" "calm (dhist_update k s) = calm s"
  "sl_held l (bufs_update f s) = sl_held l s" "sl_held l (head_prev_update g s) = sl_held l s"
  "sl_held l (head_next_update g s) = sl_held l s" "sl_held l (disk_update h s) = sl_held l s"
  "sl_held l (dhist_update k s) = sl_held l s"
  "curpid (bufs_update f s) = curpid s" "curpid (head_prev_update g s) = curpid s"
  "curpid (head_next_update g s) = curpid s" "curpid (disk_update h s) = curpid s" "curpid (dhist_update k s) = curpid s"
  by (simp_all add: calm_def no_sleeper_def cur_def sl_held_def curpid_def)

lemma set_link_acquired [simp]:
  "set_prev p q (acquired lk s) = acquired lk (set_prev p q s)"
  "set_next p q (acquired lk s) = acquired lk (set_next p q s)"
  "buf_upd i f (acquired lk s) = acquired lk (buf_upd i f s)"
  by (cases p; simp add: buf_upd_def)+

lemma set_link_frame [simp]:
  "cpu_quiet (set_prev p q s) = cpu_quiet s" "cpu_quiet (set_next p q s) = cpu_quiet s"
  "cpu_quiet (buf_upd i f s) = cpu_quiet s"
  "lk_free lk (set_prev p q s) = lk_free lk s" "lk_free lk (set_next p q s) = lk_free lk s"
  "lk_free lk (buf_upd i f s) = lk_free lk s"
  "calm (set_prev p q s) = calm s" "calm (set_next p q s) = calm s" "calm (buf_upd i f s) = calm s"
  "sl_held l (buf_upd i f s) = sl_held l s" "sleeplk (buf_upd i f s) = sleeplk s"
  "curpid (buf_upd i f s) = curpid s" "head_next (buf_upd i f s) = head_next s"
  "head_prev (buf_upd i f s) = head_prev s" "disk (buf_upd i f s) = disk s" "dhist (buf_upd i f s) = dhist s"
  "bufs (buf_upd i f s) = (bufs s)[i := f (bufs s ! i)]"
  by (cases p; simp add: buf_upd_def)+

subsection \<open>The list of buffers\<close>

text \<open>A chain of pointers \<open>xs\<close> that starts at \<open>p\<close> and runs to \<open>q\<close>.\<close>

fun seg :: "(bptr \<Rightarrow> bptr) \<Rightarrow> bptr \<Rightarrow> bptr list \<Rightarrow> bptr \<Rightarrow> bool" where
  "seg N p [] q \<longleftrightarrow> p = q"
| "seg N p (x # xs) q \<longleftrightarrow> p = x \<and> seg N (N x) xs q"

definition firstp :: "bptr list \<Rightarrow> bptr" where
  "firstp xs = (case xs of [] \<Rightarrow> BHead | x # _ \<Rightarrow> x)"

definition lastp :: "bptr list \<Rightarrow> bptr" where
  "lastp xs = (if xs = [] then BHead else last xs)"

lemma firstp_simps [simp]: "firstp [] = BHead" "firstp (x # xs) = x"
  by (simp_all add: firstp_def)

lemma lastp_simps [simp]: "lastp [] = BHead" "lastp (xs @ [x]) = x" "lastp [x] = x" "lastp (rev xs) = firstp xs"
  by (cases xs; simp add: lastp_def last_rev)+

lemma seg_append: "seg N p (xs @ ys) q \<longleftrightarrow> (\<exists>m. seg N p xs m \<and> seg N m ys q)"
  by (induction xs arbitrary: p) auto

lemma seg_start: "seg N p xs BHead \<Longrightarrow> p = firstp xs"
  by (cases xs) auto

lemma seg_upd_other: "a \<notin> set xs \<Longrightarrow> seg (N(a := v)) p xs q = seg N p xs q"
  by (induction xs arbitrary: p) auto

lemma seg_redirect: "seg N p (xs @ [a]) m \<Longrightarrow> a \<notin> set xs \<Longrightarrow> seg (N(a := q)) p (xs @ [a]) q"
  by (auto simp: seg_append seg_upd_other)

text \<open>Unlinking a node and linking it elsewhere, for one direction of the pointers.\<close>

lemma seg_unlink:
  assumes "seg N (N BHead) (xs @ b # ys) BHead" "distinct (xs @ b # ys)" "BHead \<notin> set (xs @ b # ys)"
  shows "seg (N(lastp xs := N b)) ((N(lastp xs := N b)) BHead) (xs @ ys) BHead"
proof -
  obtain m where m: "seg N (N BHead) xs m" "m = b" "seg N (N b) ys BHead"
    using assms(1) by (auto simp: seg_append)
  show ?thesis
  proof (cases xs rule: rev_cases)
    case Nil
    then show ?thesis using m assms(3) by (simp add: seg_upd_other)
  next
    case (snoc us a)
    have "seg (N(a := N b)) (N BHead) (us @ [a]) (N b)"
      using m(1) assms(2) unfolding snoc by (intro seg_redirect) auto
    moreover have "seg (N(a := N b)) (N b) ys BHead"
      using m(3) assms(2) unfolding snoc by (subst seg_upd_other) auto
    moreover have "a \<noteq> BHead" using assms(3) by (auto simp: snoc)
    ultimately show ?thesis unfolding snoc by (auto simp: seg_append)
  qed
qed

lemma seg_push_front:
  assumes "seg N (N BHead) ys BHead" "b \<notin> set ys" "BHead \<notin> set ys" "b \<noteq> BHead"
  shows "seg (N(b := N BHead, BHead := b)) b (b # ys) BHead"
  using assms by (simp add: seg_upd_other)

lemma seg_push_back:
  assumes "seg P (P BHead) zs BHead" "distinct zs" "b \<notin> set zs" "BHead \<notin> set zs" "b \<noteq> BHead"
  shows "seg (P(b := BHead, lastp zs := b)) ((P(b := BHead, lastp zs := b)) BHead) (zs @ [b]) BHead"
proof (cases zs rule: rev_cases)
  case Nil
  then show ?thesis using assms by simp
next
  case (snoc us a)
  have a: "a \<noteq> BHead" "a \<noteq> b" "a \<notin> set us" "b \<notin> set us" using assms by (auto simp: snoc)
  have "seg (P(b := BHead)) (P BHead) (us @ [a]) BHead"
    using assms(1) a unfolding snoc by (subst seg_upd_other) auto
  then have "seg (P(b := BHead, a := b)) (P BHead) (us @ [a]) b" using a by (intro seg_redirect) auto
  then show ?thesis using a assms(5) unfolding snoc by (auto simp: seg_append)
qed

text \<open>The cache holds its buffers in the order \<open>xs\<close>, most recently used first.\<close>

definition lru :: "'z biost_scheme \<Rightarrow> nat list \<Rightarrow> bool" where
  "lru s xs \<longleftrightarrow> length (bufs s) = NBUF \<and> distinct xs \<and> set xs = {..<NBUF} \<and>
     seg (get_next s) (get_next s BHead) (map BBuf xs) BHead \<and>
     seg (get_prev s) (get_prev s BHead) (map BBuf (rev xs)) BHead"

lemma get_link_upd:
  "get_next (set_next p q s) = (if \<forall>i. p = BBuf i \<longrightarrow> i < length (bufs s) then (get_next s)(p := q) else get_next s)"
  "get_prev (set_prev p q s) = (if \<forall>i. p = BBuf i \<longrightarrow> i < length (bufs s) then (get_prev s)(p := q) else get_prev s)"
  "get_prev (set_next p q s) = get_prev s" "get_next (set_prev p q s) = get_next s"
  "length (bufs (set_next p q s)) = length (bufs s)" "length (bufs (set_prev p q s)) = length (bufs s)"
proof -
  show "get_next (set_next p q s) = (if \<forall>i. p = BBuf i \<longrightarrow> i < length (bufs s) then (get_next s)(p := q) else get_next s)"
    by (rule ext, rename_tac r, case_tac r; cases p)
      (auto simp: buf_upd_def nth_upd)
  show "get_prev (set_prev p q s) = (if \<forall>i. p = BBuf i \<longrightarrow> i < length (bufs s) then (get_prev s)(p := q) else get_prev s)"
    by (rule ext, rename_tac r, case_tac r; cases p)
      (auto simp: buf_upd_def nth_upd)
  show "get_prev (set_next p q s) = get_prev s"
    by (rule ext, rename_tac r, case_tac r; cases p)
      (auto simp: buf_upd_def nth_upd)
  show "get_next (set_prev p q s) = get_next s"
    by (rule ext, rename_tac r, case_tac r; cases p)
      (auto simp: buf_upd_def nth_upd)
  show "length (bufs (set_next p q s)) = length (bufs s)" "length (bufs (set_prev p q s)) = length (bufs s)"
    by (cases p; simp add: buf_upd_def)+
qed

lemma lru_buf_upd:
  assumes "lru s xs" "\<And>b. b_next (f b) = b_next b" "\<And>b. b_prev (f b) = b_prev b"
  shows "lru (buf_upd i f s) xs"
proof -
  have "get_next (buf_upd i f s) = get_next s" "get_prev (buf_upd i f s) = get_prev s"
    by (rule ext, rename_tac r, case_tac r; simp add: buf_upd_def nth_upd assms(2,3))+
  then show ?thesis using assms(1) by (simp add: lru_def)
qed

lemma bscan_seg:
  assumes "seg N p (map BBuf ys) BHead" "length ys < n" "\<And>i. N (BBuf i) = nx (bufs s ! i)"
  shows "bscan n nx P p s = Done (List.find (\<lambda>i. P (bufs s ! i)) ys) s"
  using assms
proof (induction ys arbitrary: p n)
  case Nil
  then show ?case by (cases n) (simp_all add: ret_def)
next
  case (Cons y ys)
  then show ?case by (cases n) (simp_all add: kmon_simps)
qed

lemma length_lru: "lru s xs \<Longrightarrow> length xs = NBUF"
  by (metis card_lessThan distinct_card lru_def)

lemma bscan_next:
  "lru s xs \<Longrightarrow> bscan (Suc NBUF) b_next P (head_next s) s = Done (List.find (\<lambda>i. P (bufs s ! i)) xs) s"
  by (rule bscan_seg [where N = "get_next s"]) (use length_lru [of s xs] in \<open>simp_all add: lru_def\<close>)

lemma bscan_prev:
  "lru s xs \<Longrightarrow> bscan (Suc NBUF) b_prev P (head_prev s) s = Done (List.find (\<lambda>i. P (bufs s ! i)) (rev xs)) s"
  by (rule bscan_seg [where N = "get_prev s"]) (use length_lru [of s xs] in \<open>simp_all add: lru_def\<close>)

text \<open>Moving a buffer to the front, as \<open>brelse\<close> does.\<close>

definition to_front :: "nat \<Rightarrow> 'z biost_scheme \<Rightarrow> 'z biost_scheme" where
  "to_front i s0 =
     (let s1 = set_prev (b_next (bufs s0 ! i)) (b_prev (bufs s0 ! i)) s0;
          s2 = set_next (b_prev (bufs s1 ! i)) (b_next (bufs s1 ! i)) s1;
          s3 = set_next (BBuf i) (head_next s2) s2;
          s4 = set_prev (BBuf i) BHead s3;
          s5 = set_prev (head_next s4) (BBuf i) s4
      in set_next BHead (BBuf i) s5)"

lemma get_next_buf: "b_next (bufs s ! i) = get_next s (BBuf i)" "b_prev (bufs s ! i) = get_prev s (BBuf i)"
    "head_next s = get_next s BHead"
  by simp_all

definition in_cache :: "'z biost_scheme \<Rightarrow> bptr \<Rightarrow> bool" where
  "in_cache s p \<longleftrightarrow> (\<forall>i. p = BBuf i \<longrightarrow> i < length (bufs s))"

lemma get_set_link [simp]:
  "in_cache s p \<Longrightarrow> get_next (set_next p q s) = (get_next s)(p := q)"
  "in_cache s p \<Longrightarrow> get_prev (set_prev p q s) = (get_prev s)(p := q)"
  "get_prev (set_next p q s) = get_prev s" "get_next (set_prev p q s) = get_next s"
  "in_cache (set_next p q s) r = in_cache s r" "in_cache (set_prev p q s) r = in_cache s r"
  "in_cache s BHead" "i < length (bufs s) \<Longrightarrow> in_cache s (BBuf i)"
  by (auto simp: in_cache_def get_link_upd)

lemma to_front_links:
  assumes "in_cache s (BBuf i)" "in_cache s (get_next s (BBuf i))" "in_cache s (get_prev s (BBuf i))"
    and "in_cache s (get_next s BHead)" "get_next s (BBuf i) \<noteq> BBuf i" "get_prev s (BBuf i) \<noteq> BBuf i"
  defines "N \<equiv> (get_next s)(get_prev s (BBuf i) := get_next s (BBuf i))"
  shows "get_next (to_front i s) = N(BBuf i := N BHead, BHead := BBuf i)"
    and "get_prev (to_front i s) =
      ((get_prev s)(get_next s (BBuf i) := get_prev s (BBuf i)))(BBuf i := BHead, N BHead := BBuf i)"
proof -
  have "in_cache s (N BHead)" using assms by (simp add: N_def)
  then show "get_next (to_front i s) = N(BBuf i := N BHead, BHead := BBuf i)"
    and "get_prev (to_front i s) =
      ((get_prev s)(get_next s (BBuf i) := get_prev s (BBuf i)))(BBuf i := BHead, N BHead := BBuf i)"
    using assms unfolding to_front_def Let_def get_next_buf
    by (simp_all del: get_next.simps get_prev.simps set_next.simps set_prev.simps)
qed

lemma lru_to_front:
  assumes "lru s (us @ i # vs)"
  shows "lru (to_front i s) (i # us @ vs)"
proof -
  let ?N = "get_next s" and ?P = "get_prev s" and ?b = "BBuf i"
  let ?us = "map BBuf us" and ?vs = "map BBuf vs"
  have d: "distinct (us @ i # vs)" "set (us @ i # vs) = {..<NBUF}" "length (bufs s) = NBUF"
    and f: "seg ?N (?N BHead) (?us @ ?b # ?vs) BHead"
    and p: "seg ?P (?P BHead) (rev ?vs @ ?b # rev ?us) BHead"
    using assms by (simp_all add: lru_def rev_map)
  have dB: "distinct (?us @ ?b # ?vs)" using d(1) by (auto simp: distinct_map inj_on_def)
  have nh: "BHead \<notin> set (?us @ ?b # ?vs)" by auto
  have nb: "?N ?b = firstp ?vs" "?P ?b = lastp ?us"
    using f p seg_start lastp_simps(4) [of "rev ?us"] by (fastforce simp: seg_append)+
  have fN: "?N BHead = firstp (?us @ ?b # ?vs)" using seg_start [OF f] .
  have inr: "in_cache s q" if "q \<in> set (BHead # ?us @ ?b # ?vs)" for q
    using that d(2,3) by (auto simp: in_cache_def)
  have mem: "firstp ?vs \<in> set (BHead # ?vs)" "firstp (?us @ ?b # ?vs) \<in> set (?us @ ?b # ?vs)"
    by ((cases vs; simp), (cases us; simp))
  have mem2: "lastp ?us \<in> set (BHead # ?us)" by (cases us rule: rev_cases) simp_all
  define N where "N = ?N(lastp ?us := ?N ?b)"
  have c: "in_cache s ?b" "in_cache s (?N ?b)" "in_cache s (?P ?b)" "in_cache s (?N BHead)"
    unfolding nb fN by (rule inr; use mem mem2 in auto)+
  have ne: "?N ?b \<noteq> ?b" "?P ?b \<noteq> ?b" unfolding nb using mem mem2 dB by auto
  note gl = to_front_links [OF c ne, unfolded nb(2), folded N_def, folded nb(2)]
  have seg1: "seg N (N BHead) (?us @ ?vs) BHead"
    unfolding N_def by (rule seg_unlink [OF f dB nh])
  have fr: "seg (N(?b := N BHead, BHead := ?b)) ?b (?b # ?us @ ?vs) BHead"
    using seg1 dB by (intro seg_push_front) auto
  have "seg (?P(lastp (rev ?vs) := ?P ?b)) ((?P(lastp (rev ?vs) := ?P ?b)) BHead) (rev ?vs @ rev ?us) BHead"
    by (rule seg_unlink [OF p]) (use dB in auto)
  then have seg2: "seg (?P(?N ?b := ?P ?b)) ((?P(?N ?b := ?P ?b)) BHead) (rev (?us @ ?vs)) BHead"
    by (simp add: nb(1) del: get_prev.simps get_next.simps)
  have nl: "N BHead = lastp (rev (?us @ ?vs))" using seg_start [OF seg1] by (simp only: lastp_simps)
  have bk: "seg ((?P(?N ?b := ?P ?b))(?b := BHead, N BHead := ?b))
      (((?P(?N ?b := ?P ?b))(?b := BHead, N BHead := ?b)) BHead) (rev (?us @ ?vs) @ [?b]) BHead"
    unfolding nl by (rule seg_push_back [OF seg2]) (use dB in auto)
  have "length (bufs (to_front i s)) = NBUF"
    using d(3) by (simp add: to_front_def Let_def get_link_upd del: set_next.simps set_prev.simps)
  then show ?thesis
    using fr bk d(1,2) gl unfolding lru_def by (auto simp: rev_map simp del: get_next.simps get_prev.simps)
qed

end
