(* ===== verification/Bio_Abs.thy ===== *)
theory Bio_Abs
  imports Bio
begin

text \<open>
  The contract of the buffer cache. \<open>bio_abs s V H K\<close> relates the cache and the disk of \<open>s\<close> to
  three abstract values: \<open>V\<close>, the current contents of every block as the file system sees it; \<open>H\<close>,
  the buffers the running process holds locked, with their block numbers; \<open>K\<close>, the blocks pinned
  by the log. The lemmas give each operation of \<open>bio.c\<close> as a step on these values.
\<close>

subsection \<open>The abstraction\<close>

definition cached :: "'z biost_scheme \<Rightarrow> u32 \<Rightarrow> nat \<Rightarrow> bool" where
  "cached s bno i \<longleftrightarrow> i < NBUF \<and> b_dev (bufs s ! i) = ROOTDEV \<and> b_blockno (bufs s ! i) = bno"

definition buf_ok :: "'z biost_scheme \<Rightarrow> (u32 \<Rightarrow> block) \<Rightarrow> (nat \<rightharpoonup> u32) \<Rightarrow> u32 set \<Rightarrow> nat \<Rightarrow> bool" where
  "buf_ok s V H K i \<longleftrightarrow>
     (if b_dev (bufs s ! i) = ROOTDEV
      then b_refcnt (bufs s ! i) =
             (if H i = None then 0 else 1) + (if b_blockno (bufs s ! i) \<in> K then 1 else 0) \<and>
           (b_valid (bufs s ! i) \<longrightarrow> b_data (bufs s ! i) = V (b_blockno (bufs s ! i)))
      else H i = None \<and> b_refcnt (bufs s ! i) = 0) \<and>
     (case H i of
        None \<Rightarrow> \<not> sk_locked (sleeplk s (SBuf i))
      | Some bno \<Rightarrow> b_dev (bufs s ! i) = ROOTDEV \<and> b_blockno (bufs s ! i) = bno \<and>
          b_valid (bufs s ! i) \<and> sl_held (SBuf i) s)"

definition bio_abs :: "'z biost_scheme \<Rightarrow> (u32 \<Rightarrow> block) \<Rightarrow> (nat \<rightharpoonup> u32) \<Rightarrow> u32 set \<Rightarrow> bool" where
  "bio_abs s V H K \<longleftrightarrow>
     (\<exists>xs. lru s xs) \<and> dom H \<subseteq> {..<NBUF} \<and> (\<forall>i < NBUF. buf_ok s V H K i) \<and>
     (\<forall>bno i j. cached s bno i \<longrightarrow> cached s bno j \<longrightarrow> i = j) \<and>
     (\<forall>bno \<in> K. \<exists>i. cached s bno i \<and> b_valid (bufs s ! i)) \<and>
     (\<forall>bno. length (V bno) = BSIZE) \<and>
     (\<forall>bno. V bno \<noteq> disk s bno \<longrightarrow> bno \<in> K \<or> bno \<in> ran H)"

text \<open>What the operations of the cache may change.\<close>

definition bio_frame :: "'z biost_scheme \<Rightarrow> 'z biost_scheme \<Rightarrow> bool" where
  "bio_frame s t \<longleftrightarrow>
     t = s\<lparr>sleeplk := sleeplk t, bufs := bufs t, head_prev := head_prev t, head_next := head_next t,
           disk := disk t, dhist := dhist t\<rparr> \<and>
     (\<forall>i. sleeplk t (SInode i) = sleeplk s (SInode i))"

lemma bio_frame_refl [simp]: "bio_frame s s"
  by (simp add: bio_frame_def)

lemma bio_frame_trans:
  assumes "bio_frame s t" "bio_frame t u"
  shows "bio_frame s u"
proof -
  have t: "t = s\<lparr>sleeplk := sleeplk t, bufs := bufs t, head_prev := head_prev t, head_next := head_next t,
      disk := disk t, dhist := dhist t\<rparr>" and u: "u = t\<lparr>sleeplk := sleeplk u, bufs := bufs u,
      head_prev := head_prev u, head_next := head_next u, disk := disk u, dhist := dhist u\<rparr>"
    using assms by (simp_all add: bio_frame_def)
  have "u = s\<lparr>sleeplk := sleeplk u, bufs := bufs u, head_prev := head_prev u, head_next := head_next u,
      disk := disk u, dhist := dhist u\<rparr>"
    by (subst u, subst t) simp
  then show ?thesis using assms by (simp add: bio_frame_def)
qed

lemma bio_frame_calm:
  assumes "bio_frame s t"
  shows "calm t = calm s" "curpid t = curpid s" "mem t = mem s" "procs t = procs s" "cur t = cur s"
    "biost.more t = biost.more s" "sleeplk t (SInode i) = sleeplk s (SInode i)"
proof -
  have t: "t = s\<lparr>sleeplk := sleeplk t, bufs := bufs t, head_prev := head_prev t, head_next := head_next t,
      disk := disk t, dhist := dhist t\<rparr>"
    using assms by (simp add: bio_frame_def)
  show "calm t = calm s" "curpid t = curpid s" "mem t = mem s" "procs t = procs s" "cur t = cur s"
    "biost.more t = biost.more s"
    by (subst t; simp add: cur_def)+
  show "sleeplk t (SInode i) = sleeplk s (SInode i)" using assms by (simp add: bio_frame_def)
qed

lemma bio_absD:
  assumes "bio_abs s V H K"
  shows "\<exists>xs. lru s xs" "H i \<noteq> None \<Longrightarrow> i < NBUF" "i < NBUF \<Longrightarrow> buf_ok s V H K i"
    "cached s bno i \<Longrightarrow> cached s bno j \<Longrightarrow> i = j"
    "bno \<in> K \<Longrightarrow> \<exists>i. cached s bno i \<and> b_valid (bufs s ! i)"
    "length (V bno) = BSIZE" "V bno \<noteq> disk s bno \<Longrightarrow> bno \<in> K \<or> bno \<in> ran H"
  using assms by (auto simp: bio_abs_def)

lemma bio_abs_length: "bio_abs s V H K \<Longrightarrow> length (bufs s) = NBUF"
  by (auto simp: bio_abs_def lru_def)

lemma held_buf:
  assumes "bio_abs s V H K" "H i = Some bno"
  shows "i < NBUF" "cached s bno i" "b_valid (bufs s ! i)" "b_data (bufs s ! i) = V bno"
    "sl_held (SBuf i) s" "b_refcnt (bufs s ! i) = 1 + (if bno \<in> K then 1 else 0)"
    "b_dev (bufs s ! i) = ROOTDEV" "b_blockno (bufs s ! i) = bno"
proof -
  show i: "i < NBUF" using bio_absD(2) [OF assms(1)] assms(2) by auto
  show "cached s bno i" "b_valid (bufs s ! i)" "b_data (bufs s ! i) = V bno"
    "sl_held (SBuf i) s" "b_refcnt (bufs s ! i) = 1 + (if bno \<in> K then 1 else 0)"
    "b_dev (bufs s ! i) = ROOTDEV" "b_blockno (bufs s ! i) = bno"
    using bio_absD(3) [OF assms(1) i] assms(2) i by (auto simp: buf_ok_def cached_def split: if_splits)
qed

lemma free_buf:
  assumes "bio_abs s V H K" "H i = None" "i < NBUF"
  shows "\<not> sk_locked (sleeplk s (SBuf i))"
  using bio_absD(3) [OF assms(1,3)] assms(2) by (simp add: buf_ok_def)

text \<open>With fewer than \<open>NBUF\<close> buffers in use there is one that \<open>bget\<close> can recycle.\<close>

lemma finite_pinned: assumes "bio_abs s V H K" shows "finite K"
proof -
  have "K \<subseteq> (\<lambda>i. b_blockno (bufs s ! i)) ` {..<NBUF}"
    using bio_absD(5) [OF assms] by (fastforce simp: cached_def)
  then show ?thesis by (rule finite_subset) simp
qed

lemma recyclable_buffer:
  assumes "bio_abs s V H K" "card (dom H) + card K < NBUF"
  shows "\<exists>i < NBUF. b_refcnt (bufs s ! i) = 0"
proof (rule ccontr)
  assume no: "\<not> ?thesis"
  let ?P = "{i. i < NBUF \<and> b_dev (bufs s ! i) = ROOTDEV \<and> b_blockno (bufs s ! i) \<in> K}"
  have "i \<in> dom H \<union> ?P" if "i < NBUF" for i
    using bio_absD(3) [OF assms(1) that] no that by (auto simp: buf_ok_def split: if_splits)
  then have sub: "{..<NBUF} \<subseteq> dom H \<union> ?P" by auto
  have "inj_on (\<lambda>i. b_blockno (bufs s ! i)) ?P"
    using bio_absD(4) [OF assms(1)] by (auto simp: inj_on_def cached_def)
  then have "card ?P \<le> card K"
    by (rule card_inj_on_le) (auto intro: finite_pinned [OF assms(1)])
  moreover have "finite (dom H)"
    using assms(1) by (auto simp: bio_abs_def intro: finite_subset)
  then have "card {..<NBUF} \<le> card (dom H \<union> ?P)" by (intro card_mono [OF _ sub]) simp
  ultimately show False
    using assms(2) card_Un_le [of "dom H" ?P] by simp
qed

lemma lru_frame:
  assumes "bufs t = bufs s" "head_next t = head_next s" "head_prev t = head_prev s"
  shows "lru t xs = lru s xs"
proof -
  have "get_next t = get_next s" "get_prev t = get_prev s"
    by (rule ext, rename_tac r, case_tac r; simp add: assms)+
  then show ?thesis by (simp add: lru_def assms)
qed

subsection \<open>Reading a block\<close>

lemma bget_hit:
  assumes "calm s" "lru s xs" "cached s bno i" "\<And>j. cached s bno j \<Longrightarrow> j = i" "\<not> sk_locked (sleeplk s (SBuf i))"
  shows "bget ROOTDEV bno s = Done i (sl_take (SBuf i) (buf_upd i (\<lambda>b. b\<lparr>b_refcnt := b_refcnt b + 1\<rparr>) s))"
proof -
  have "List.find (\<lambda>i. b_dev (bufs s ! i) = ROOTDEV \<and> b_blockno (bufs s ! i) = bno) xs = Some i"
  proof -
    obtain k where k: "k < length xs" "xs ! k = i"
      using assms(2,3) by (metis in_set_conv_nth lessThan_iff lru_def cached_def)
    have "xs ! j < NBUF" if "j < length xs" for j
      using that assms(2) by (metis lessThan_iff lru_def nth_mem)
    moreover have "xs ! j \<noteq> i" if "j < k" for j
      using that k assms(2) by (metis lru_def nth_eq_iff_index_eq less_trans nat_neq_iff)
    ultimately have "\<not> (b_dev (bufs s ! (xs ! j)) = ROOTDEV \<and> b_blockno (bufs s ! (xs ! j)) = bno)" if "j < k" for j
      using that k(1) assms(4) [of "xs ! j"] by (auto simp: cached_def)
    then show ?thesis
      using k assms(3) unfolding find_Some_iff cached_def by blast
  qed
  then have "bscan (Suc NBUF) b_next (\<lambda>b. b_dev b = ROOTDEV \<and> b_blockno b = bno) (head_next s) (acquired LkBcache s)
      = Done (Some i) (acquired LkBcache s)"
    using bscan_next [of "acquired LkBcache s" xs "\<lambda>b. b_dev b = ROOTDEV \<and> b_blockno b = bno"] assms(2)
    by (simp add: lru_frame [of "acquired LkBcache s" s])
  then show ?thesis
    using assms(1,5) calmD [OF assms(1)]
    by (simp add: bget_def kmon_simps bnd_run lock_simps acquiresleep_calm)
qed

lemma bget_miss:
  assumes "calm s" "lru s xs" "\<And>j. \<not> cached s bno j" "\<exists>i < NBUF. b_refcnt (bufs s ! i) = 0"
    and "\<And>i. i < NBUF \<Longrightarrow> b_refcnt (bufs s ! i) = 0 \<Longrightarrow> \<not> sk_locked (sleeplk s (SBuf i))"
  shows "\<exists>i < NBUF. b_refcnt (bufs s ! i) = 0 \<and> bget ROOTDEV bno s = Done i (sl_take (SBuf i) (buf_upd i
    (\<lambda>b. b\<lparr>b_dev := ROOTDEV, b_blockno := bno, b_valid := False, b_refcnt := 1\<rparr>) s))"
proof -
  have xs: "set xs = {..<NBUF}" using assms(2) by (simp add: lru_def)
  have l: "lru (acquired LkBcache s) xs" using assms(2) lru_frame [of "acquired LkBcache s" s] by simp
  have "List.find (\<lambda>i. b_dev (bufs s ! i) = ROOTDEV \<and> b_blockno (bufs s ! i) = bno) xs = None"
    using xs assms(3) by (auto simp: find_None_iff cached_def)
  then have 1: "bscan (Suc NBUF) b_next (\<lambda>b. b_dev b = ROOTDEV \<and> b_blockno b = bno) (head_next s) (acquired LkBcache s)
      = Done None (acquired LkBcache s)"
    using bscan_next [OF l, of "\<lambda>b. b_dev b = ROOTDEV \<and> b_blockno b = bno"] by simp
  obtain i where i: "List.find (\<lambda>i. b_refcnt (bufs s ! i) = 0) (rev xs) = Some i"
    using assms(4) xs by (cases "List.find (\<lambda>i. b_refcnt (bufs s ! i) = 0) (rev xs)") (auto simp: find_None_iff)
  then have i2: "i < NBUF" "b_refcnt (bufs s ! i) = 0"
    using xs by (auto simp: find_Some_iff) (metis length_rev lessThan_iff nth_mem set_rev)
  have "bscan (Suc NBUF) b_prev (\<lambda>b. b_refcnt b = 0) (head_prev s) (acquired LkBcache s)
      = Done (Some i) (acquired LkBcache s)"
    using bscan_prev [OF l, of "\<lambda>b. b_refcnt b = 0"] i by simp
  with 1 have "bget ROOTDEV bno s = Done i (sl_take (SBuf i) (buf_upd i
    (\<lambda>b. b\<lparr>b_dev := ROOTDEV, b_blockno := bno, b_valid := False, b_refcnt := 1\<rparr>) s))"
    using assms(1) assms(5) [OF i2] calmD [OF assms(1)]
    by (simp add: bget_def kmon_simps bnd_run lock_simps acquiresleep_calm)
  with i2 show ?thesis by blast
qed

lemma sl_take_bio [simp]:
  "bufs (sl_take l s) = bufs s" "head_next (sl_take l s) = head_next s" "head_prev (sl_take l s) = head_prev s"
  "disk (sl_take l s) = disk s" "dhist (sl_take l s) = dhist s"
  "bufs (sl_drop l s) = bufs s" "head_next (sl_drop l s) = head_next s" "head_prev (sl_drop l s) = head_prev s"
  "disk (sl_drop l s) = disk s" "dhist (sl_drop l s) = dhist s"
  by (simp_all add: sl_take_def sl_drop_def)

lemma cached_upd:
  "length (bufs s) = NBUF \<Longrightarrow> i < NBUF \<Longrightarrow> cached (buf_upd i f s) bno j \<longleftrightarrow>
     (if j = i then b_dev (f (bufs s ! i)) = ROOTDEV \<and> b_blockno (f (bufs s ! i)) = bno else cached s bno j)"
  by (auto simp: cached_def)

lemma bio_abs_take:
  assumes a: "bio_abs s V H K" "i < NBUF" "H i = None" "bno \<notin> ran H"
    and f: "\<And>b. b_next (f b) = b_next b" "\<And>b. b_prev (f b) = b_prev b"
    and b: "f (bufs s ! i) = b" "b_dev b = ROOTDEV" "b_blockno b = bno" "b_valid b" "b_data b = V bno"
      "b_refcnt b = 1 + (if bno \<in> K then 1 else 0)"
    and c: "cached s bno i \<or> (\<forall>j. \<not> cached s bno j) \<and> b_refcnt (bufs s ! i) = 0"
  shows "bio_abs (sl_take (SBuf i) (buf_upd i f s)) V (H(i \<mapsto> bno)) K"
proof -
  let ?t = "sl_take (SBuf i) (buf_upd i f s)"
  have len: "length (bufs s) = NBUF" using a(1) by (rule bio_abs_length)
  have cu: "cached ?t n j \<longleftrightarrow> (if j = i then n = bno else cached s n j)" for n j
  proof -
    have "cached ?t n j = cached (buf_upd i f s) n j" by (simp add: cached_def)
    also have "\<dots> \<longleftrightarrow> (if j = i then n = bno else cached s n j)"
      by (simp only: cached_upd [OF len a(2)] b(1-3) simp_thms eq_commute [of bno])
    finally show ?thesis .
  qed
  obtain xs where "lru s xs" using a(1) by (auto simp: bio_abs_def)
  then have "lru ?t xs" using lru_buf_upd [OF _ f, of s xs i] lru_frame [of ?t "buf_upd i f s"] by simp
  moreover have "buf_ok ?t V (H(i \<mapsto> bno)) K j" if "j < NBUF" for j
    using bio_absD(3) [OF a(1) that] b len a(2) by (auto simp: buf_ok_def split: option.splits)
  moreover have uniq: "j = k" if "cached ?t n j" "cached ?t n k" for n j k
    using that c bio_absD(4) [OF a(1)] unfolding cu by (auto split: if_splits)
  moreover have "\<exists>j. cached ?t n j \<and> b_valid (bufs ?t ! j)" if n: "n \<in> K" for n
  proof -
    obtain j where j: "cached s n j" "b_valid (bufs s ! j)" using bio_absD(5) [OF a(1) n] by blast
    show ?thesis
    proof (cases "j = i")
      case True
      have "b_refcnt (bufs s ! i) \<noteq> 0"
        using bio_absD(3) [OF a(1,2)] j(1) n a(3) by (simp add: buf_ok_def cached_def True)
      then have "cached s bno i" using c by simp
      then have "n = bno" using j(1) by (simp add: True cached_def)
      then show ?thesis using cu b(1,4) len a(2) by (intro exI [of _ i]) simp
    next
      case False
      then show ?thesis using j cu len by (intro exI [of _ j]) simp
    qed
  qed
  moreover have "n \<in> K \<or> n \<in> ran (H(i \<mapsto> bno))" if "V n \<noteq> disk ?t n" for n
    using bio_absD(7) [OF a(1), of n] that a(3) by (auto simp: ran_map_upd)
  moreover have "dom (H(i \<mapsto> bno)) \<subseteq> {..<NBUF}" using a(1,2) by (auto simp: bio_abs_def)
  ultimately show ?thesis
    using bio_absD(6) [OF a(1)] unfolding bio_abs_def by blast
qed

lemma bio_frame_upd:
  "bio_frame s (buf_upd i f s)" "bio_frame s (sl_take (SBuf i) s)" "bio_frame s (sl_drop (SBuf i) s)"
  "bio_frame s (disk_write bno d s)"
  by (simp_all add: bio_frame_def buf_upd_def sl_take_def sl_drop_def disk_write_def)

lemma bread_abs:
  assumes "calm s" "bio_abs s V H K" "bno \<notin> ran H" "bno \<in> K \<or> card (dom H) + card K < NBUF"
  shows "\<exists>i t. bread ROOTDEV bno s = Done i t \<and> H i = None \<and> bio_abs t V (H(i \<mapsto> bno)) K \<and>
    bio_frame s t \<and> disk t = disk s \<and> dhist t = dhist s"
proof -
  obtain xs where xs: "lru s xs" using assms(2) by (auto simp: bio_abs_def)
  have len: "length (bufs s) = NBUF" using assms(2) by (rule bio_abs_length)
  note take = bio_abs_take [OF assms(2) _ _ assms(3)]
  have fr: "bio_frame s (sl_take (SBuf i) (buf_upd i f s))" for i f
    using bio_frame_trans bio_frame_upd(1,2) by blast
  show ?thesis
  proof (cases "\<exists>i. cached s bno i")
    case True
    then obtain i where i: "cached s bno i" by blast
    then have i2: "i < NBUF" "b_dev (bufs s ! i) = ROOTDEV" "b_blockno (bufs s ! i) = bno"
      by (auto simp: cached_def)
    have h: "H i = None" using held_buf(8) [OF assms(2), of i] i2(3) assms(3)
      by (cases "H i") (auto intro: ranI)
    note ok = bio_absD(3) [OF assms(2) i2(1)]
    have bget: "bget ROOTDEV bno s = Done i (sl_take (SBuf i) (buf_upd i (\<lambda>b. b\<lparr>b_refcnt := b_refcnt b + 1\<rparr>) s))"
      using bget_hit [OF assms(1) xs i _ free_buf [OF assms(2) h i2(1)]] bio_absD(4) [OF assms(2) i] by blast
    show ?thesis
    proof (cases "b_valid (bufs s ! i)")
      case True
      let ?f = "\<lambda>b. b\<lparr>b_refcnt := b_refcnt b + 1\<rparr>"
      have "bread ROOTDEV bno s = Done i (sl_take (SBuf i) (buf_upd i ?f s))"
        using bget True i2(1) len by (simp add: bread_def kmon_simps bnd_run)
      moreover have "bio_abs (sl_take (SBuf i) (buf_upd i ?f s)) V (H(i \<mapsto> bno)) K"
        using ok True i2 h i by (intro take [OF i2(1) h _ _ refl]) (auto simp: buf_ok_def)
      ultimately show ?thesis using h fr by fastforce
    next
      case False
      let ?f = "\<lambda>b. b\<lparr>b_refcnt := b_refcnt b + 1, b_data := disk s bno, b_valid := True\<rparr>"
      have nk: "bno \<notin> K" using bio_absD(4,5) [OF assms(2)] False i by blast
      then have v: "disk s bno = V bno" using bio_absD(7) [OF assms(2), of bno] assms(3) by metis
      have "bread ROOTDEV bno s = Done i (sl_take (SBuf i) (buf_upd i ?f s))"
        using bget False i2 len
        by (simp add: bread_def kmon_simps bnd_run disk_rw_def) (simp add: buf_upd_def sl_take_def)
      moreover have "bio_abs (sl_take (SBuf i) (buf_upd i ?f s)) V (H(i \<mapsto> bno)) K"
        using ok nk i2 h i v by (intro take [OF i2(1) h _ _ refl]) (auto simp: buf_ok_def)
      ultimately show ?thesis using h fr by fastforce
    qed
  next
    case False
    have nk: "bno \<notin> K" using bio_absD(5) [OF assms(2)] False by blast
    then have v: "disk s bno = V bno" using bio_absD(7) [OF assms(2), of bno] assms(3) by metis
    have unlocked: "H i = None \<and> \<not> sk_locked (sleeplk s (SBuf i))" if "i < NBUF" "b_refcnt (bufs s ! i) = 0" for i
      using held_buf(6) [OF assms(2), of i] free_buf [OF assms(2) _ that(1)] that(2)
      by (cases "H i") (auto split: if_splits)
    obtain i where i: "i < NBUF" "b_refcnt (bufs s ! i) = 0" and bget: "bget ROOTDEV bno s =
        Done i (sl_take (SBuf i) (buf_upd i
          (\<lambda>b. b\<lparr>b_dev := ROOTDEV, b_blockno := bno, b_valid := False, b_refcnt := 1\<rparr>) s))"
      using bget_miss [OF assms(1) xs _ recyclable_buffer [OF assms(2)]] assms(4) nk False unlocked by blast
    have h: "H i = None" using unlocked i by blast
    let ?f = "\<lambda>b. b\<lparr>b_dev := ROOTDEV, b_blockno := bno, b_refcnt := 1, b_data := disk s bno, b_valid := True\<rparr>"
    have "bread ROOTDEV bno s = Done i (sl_take (SBuf i) (buf_upd i ?f s))"
      using bget i len
      by (simp add: bread_def kmon_simps bnd_run disk_rw_def) (simp add: buf_upd_def sl_take_def)
    moreover have "bio_abs (sl_take (SBuf i) (buf_upd i ?f s)) V (H(i \<mapsto> bno)) K"
      using i nk False v by (intro take [OF i(1) h _ _ refl]) auto
    ultimately show ?thesis using h fr by fastforce
  qed
qed

subsection \<open>Changing, writing and pinning a held buffer\<close>

lemma bio_abs_upd:
  assumes a: "bio_abs s V H K" "H i = Some bno"
    and f: "\<And>b. b_next (f b) = b_next b" "\<And>b. b_prev (f b) = b_prev b" "\<And>b. b_dev (f b) = b_dev b"
      "\<And>b. b_blockno (f b) = b_blockno b" "\<And>b. b_valid (f b) = b_valid b"
    and d: "b_data (f (bufs s ! i)) = d" "length d = BSIZE"
    and r: "b_refcnt (f (bufs s ! i)) = 1 + (if bno \<in> K' then 1 else 0)"
    and K: "K' - {bno} = K - {bno}"
  shows "bio_abs (buf_upd i f s) (V(bno := d)) H K'"
proof -
  let ?t = "buf_upd i f s"
  have len: "length (bufs s) = NBUF" using a(1) by (rule bio_abs_length)
  note hb = held_buf [OF a]
  have Kn: "n \<in> K' \<longleftrightarrow> n \<in> K" if "n \<noteq> bno" for n using K that by blast
  have cu: "cached ?t n j \<longleftrightarrow> cached s n j" for n j
    using len hb(1) by (auto simp: cached_def nth_upd f)
  obtain xs where "lru s xs" using a(1) by (auto simp: bio_abs_def)
  then have "lru ?t xs" using lru_buf_upd [OF _ f(1,2), of s xs i] by simp
  moreover have "buf_ok ?t (V(bno := d)) H K' j" if j: "j < NBUF" for j
  proof (cases "j = i")
    case True
    then show ?thesis using hb a(2) d r len by (simp add: buf_ok_def f)
  next
    case False
    have "b_blockno (bufs s ! j) \<noteq> bno" if "b_dev (bufs s ! j) = ROOTDEV"
      using bio_absD(4) [OF a(1) hb(2), of j] j False that by (auto simp: cached_def)
    then show ?thesis
      using bio_absD(3) [OF a(1) j] False Kn by (auto simp: buf_ok_def split: option.splits)
  qed
  moreover have "\<exists>j. cached ?t n j \<and> b_valid (bufs ?t ! j)" if n: "n \<in> K'" for n
  proof (cases "n = bno")
    case True
    then show ?thesis using hb(1-3) cu len by (intro exI [of _ i]) (simp add: f)
  next
    case False
    then obtain j where "cached s n j" "b_valid (bufs s ! j)" using bio_absD(5) [OF a(1)] n Kn by blast
    then show ?thesis using cu len hb(1) by (intro exI [of _ j]) (simp add: f nth_upd)
  qed
  moreover have "n \<in> K' \<or> n \<in> ran H" if "(V(bno := d)) n \<noteq> disk ?t n" for n
    using bio_absD(7) [OF a(1), of n] that a(2) Kn by (cases "n = bno") (auto intro: ranI)
  ultimately show ?thesis
    using bio_absD(4,6) [OF a(1)] a(1) d(2) unfolding bio_abs_def cu by (auto simp: fun_upd_def)
qed

lemma buf_data_abs:
  assumes "bio_abs s V H K" "H i = Some bno" "length (g (V bno)) = BSIZE"
  shows "bio_abs (buf_upd i (\<lambda>b. b\<lparr>b_data := g (b_data b)\<rparr>) s) (V(bno := g (V bno))) H K"
  using assms(3) held_buf [OF assms(1,2)] by (intro bio_abs_upd [OF assms(1,2)]) auto

lemma bio_frame_acquire: "bio_frame s t \<Longrightarrow> bio_frame s (buf_upd i f t)"
  using bio_frame_trans bio_frame_upd(1) by blast

lemma bpin_abs:
  assumes "calm s" "bio_abs s V H K" "H i = Some bno" "bno \<notin> K"
  shows "\<exists>t. bpin i s = Done () t \<and> bio_abs t V H (insert bno K) \<and> bio_frame s t \<and> disk t = disk s \<and> dhist t = dhist s"
proof -
  let ?f = "\<lambda>b. b\<lparr>b_refcnt := b_refcnt b + 1\<rparr>"
  have "bio_abs (buf_upd i ?f s) (V(bno := V bno)) H (insert bno K)"
    using assms(4) held_buf [OF assms(2,3)] bio_absD(6) [OF assms(2)]
    by (intro bio_abs_upd [OF assms(2,3)]) auto
  moreover have "bpin i s = Done () (buf_upd i ?f s)"
    using calmD [OF assms(1)] by (simp add: bpin_def kmon_simps bnd_run lock_simps)
  ultimately show ?thesis using bio_frame_upd(1) by fastforce
qed

lemma bunpin_abs:
  assumes "calm s" "bio_abs s V H K" "H i = Some bno" "bno \<in> K"
  shows "\<exists>t. bunpin i s = Done () t \<and> bio_abs t V H (K - {bno}) \<and> bio_frame s t \<and> disk t = disk s \<and> dhist t = dhist s"
proof -
  let ?f = "\<lambda>b. b\<lparr>b_refcnt := b_refcnt b - 1\<rparr>"
  have "bio_abs (buf_upd i ?f s) (V(bno := V bno)) H (K - {bno})"
    using assms(4) held_buf [OF assms(2,3)] bio_absD(6) [OF assms(2)]
    by (intro bio_abs_upd [OF assms(2,3)]) auto
  moreover have "bunpin i s = Done () (buf_upd i ?f s)"
    using calmD [OF assms(1)] by (simp add: bunpin_def kmon_simps bnd_run lock_simps)
  ultimately show ?thesis using bio_frame_upd(1) by fastforce
qed

lemma disk_write_frame [simp]:
  "bufs (disk_write n d s) = bufs s" "sleeplk (disk_write n d s) = sleeplk s"
  "sl_held l (disk_write n d s) = sl_held l s" "disk (disk_write n d s) = (disk s)(n := d)"
  "dhist (disk_write n d s) = dhist s @ [(n, d)]" "calm (disk_write n d s) = calm s"
  by (simp_all add: disk_write_def)

lemma bwrite_abs:
  assumes "calm s" "bio_abs s V H K" "H i = Some bno"
  shows "bwrite i s = Done () (disk_write bno (V bno) s)" "bio_abs (disk_write bno (V bno) s) V H K"
proof -
  note hb = held_buf [OF assms(2,3)]
  show "bwrite i s = Done () (disk_write bno (V bno) s)"
    using hb by (simp add: bwrite_def kmon_simps bnd_run holdingsleep_calm [OF assms(1)] disk_rw_def)
  let ?t = "disk_write bno (V bno) s"
  have "lru ?t xs = lru s xs" for xs by (rule lru_frame) (simp_all add: disk_write_def)
  moreover have "buf_ok ?t V H K j = buf_ok s V H K j" "cached ?t n j = cached s n j" "bufs ?t = bufs s" for j n
    by (auto simp: buf_ok_def cached_def split: option.splits)
  moreover have "disk ?t = (disk s)(bno := V bno)" by (simp add: disk_write_def)
  ultimately show "bio_abs ?t V H K"
    using assms(2) unfolding bio_abs_def by auto
qed

subsection \<open>Releasing a buffer\<close>

lemma set_link_fields:
  "b_dev (bufs (set_next p q s) ! j) = b_dev (bufs s ! j)" "b_dev (bufs (set_prev p q s) ! j) = b_dev (bufs s ! j)"
  "b_blockno (bufs (set_next p q s) ! j) = b_blockno (bufs s ! j)" "b_blockno (bufs (set_prev p q s) ! j) = b_blockno (bufs s ! j)"
  "b_valid (bufs (set_next p q s) ! j) = b_valid (bufs s ! j)" "b_valid (bufs (set_prev p q s) ! j) = b_valid (bufs s ! j)"
  "b_refcnt (bufs (set_next p q s) ! j) = b_refcnt (bufs s ! j)" "b_refcnt (bufs (set_prev p q s) ! j) = b_refcnt (bufs s ! j)"
  "b_data (bufs (set_next p q s) ! j) = b_data (bufs s ! j)" "b_data (bufs (set_prev p q s) ! j) = b_data (bufs s ! j)"
  by (cases p; simp add: buf_upd_def nth_upd)+

lemma set_link_other:
  "sleeplk (set_next p q s) = sleeplk s" "sleeplk (set_prev p q s) = sleeplk s"
  "sl_held l (set_next p q s) = sl_held l s" "sl_held l (set_prev p q s) = sl_held l s"
  "disk (set_next p q s) = disk s" "disk (set_prev p q s) = disk s"
  "dhist (set_next p q s) = dhist s" "dhist (set_prev p q s) = dhist s"
  "bio_frame s (set_next p q s)" "bio_frame s (set_prev p q s)"
  by (cases p; simp add: buf_upd_def bio_frame_def)+

lemma to_front_fields:
  "b_dev (bufs (to_front i s) ! j) = b_dev (bufs s ! j)" "b_blockno (bufs (to_front i s) ! j) = b_blockno (bufs s ! j)"
  "b_valid (bufs (to_front i s) ! j) = b_valid (bufs s ! j)" "b_refcnt (bufs (to_front i s) ! j) = b_refcnt (bufs s ! j)"
  "b_data (bufs (to_front i s) ! j) = b_data (bufs s ! j)"
  "sleeplk (to_front i s) = sleeplk s" "sl_held l (to_front i s) = sl_held l s"
  "disk (to_front i s) = disk s" "dhist (to_front i s) = dhist s"
  by (simp_all add: to_front_def Let_def set_link_fields set_link_other del: set_next.simps set_prev.simps)

lemma to_front_frame: "bio_frame s (to_front i s)"
proof -
  have "bio_frame s t \<Longrightarrow> bio_frame s (set_next p q t)" "bio_frame s t \<Longrightarrow> bio_frame s (set_prev p q t)" for t p q
    using bio_frame_trans set_link_other(9,10) by blast+
  note step = this
  show ?thesis unfolding to_front_def Let_def by (rule step)+ simp
qed

lemma to_front_abs:
  assumes "bio_abs s V H K" "i < NBUF"
  shows "bio_abs (to_front i s) V H K"
proof -
  obtain xs where xs: "lru s xs" using assms(1) by (auto simp: bio_abs_def)
  then have "i \<in> set xs" using assms(2) by (simp add: lru_def)
  then obtain us vs where "xs = us @ i # vs" by (blast dest: split_list)
  then have "lru (to_front i s) (i # us @ vs)" using lru_to_front xs by blast
  moreover have "buf_ok (to_front i s) V H K j = buf_ok s V H K j" "cached (to_front i s) n j = cached s n j" for j n
    unfolding buf_ok_def cached_def to_front_fields by (rule refl)+
  ultimately show ?thesis using assms(1) unfolding bio_abs_def to_front_fields by blast
qed

lemma bio_abs_drop:
  assumes a: "bio_abs s V H K" "H i = Some bno" "bno \<in> K \<or> V bno = disk s bno"
  shows "bio_abs (buf_upd i (\<lambda>b. b\<lparr>b_refcnt := b_refcnt b - 1\<rparr>) (sl_drop (SBuf i) s)) V (H(i := None)) K"
proof -
  let ?f = "\<lambda>b. b\<lparr>b_refcnt := b_refcnt b - 1\<rparr>"
  let ?t = "buf_upd i ?f (sl_drop (SBuf i) s)"
  have len: "length (bufs s) = NBUF" using a(1) by (rule bio_abs_length)
  note hb = held_buf [OF a(1,2)]
  have cu: "cached ?t n j \<longleftrightarrow> cached s n j" for n j
    using len hb(1) by (auto simp: cached_def nth_upd)
  have rn: "ran (H(i := None)) \<union> {bno} = ran H"
    using a(2) by (auto simp: ran_def split: if_splits) (metis option.inject)
  obtain xs where "lru s xs" using a(1) by (auto simp: bio_abs_def)
  then have "lru (sl_drop (SBuf i) s) xs" using lru_frame [of "sl_drop (SBuf i) s" s] by simp
  then have "lru ?t xs" using lru_buf_upd [of "sl_drop (SBuf i) s" xs ?f i] by simp
  moreover have "buf_ok ?t V (H(i := None)) K j" if j: "j < NBUF" for j
    using bio_absD(3) [OF a(1) j] hb len by (cases "j = i") (auto simp: buf_ok_def split: option.splits)
  moreover have "\<exists>j. cached ?t n j \<and> b_valid (bufs ?t ! j)" if n: "n \<in> K" for n
    using bio_absD(5) [OF a(1) n] unfolding cu by (auto simp: nth_upd)
  moreover have "n \<in> K \<or> n \<in> ran (H(i := None))" if "V n \<noteq> disk ?t n" for n
    using bio_absD(7) [OF a(1), of n] that a(3) rn by auto
  ultimately show ?thesis
    using bio_absD(4,6) [OF a(1)] a(1) unfolding bio_abs_def cu by auto
qed

lemma brelse_abs:
  assumes "calm s" "bio_abs s V H K" "H i = Some bno" "bno \<in> K \<or> V bno = disk s bno"
  shows "\<exists>t. brelse i s = Done () t \<and> bio_abs t V (H(i := None)) K \<and> bio_frame s t \<and> disk t = disk s \<and> dhist t = dhist s"
proof -
  let ?t = "buf_upd i (\<lambda>b. b\<lparr>b_refcnt := b_refcnt b - 1\<rparr>) (sl_drop (SBuf i) s)"
  note hb = held_buf [OF assms(2,3)]
  have len: "length (bufs s) = NBUF" using assms(2) by (rule bio_abs_length)
  have c: "calm (sl_drop (SBuf i) s)" using assms(1) by simp
  have t: "bio_abs ?t V (H(i := None)) K" using bio_abs_drop [OF assms(2-4)] .
  have fr: "bio_frame s ?t" using bio_frame_trans bio_frame_upd by blast
  have run: "brelse i s = Done () (if b_refcnt (bufs ?t ! i) = 0 then to_front i ?t else ?t)"
    using calmD [OF assms(1)] calmD [OF c] hb(1,5) len
    by (simp add: brelse_def kmon_simps bnd_run lock_simps holdingsleep_calm [OF assms(1)]
        releasesleep_calm [OF assms(1)] to_front_def Let_def del: set_next.simps set_prev.simps)
  show ?thesis
    unfolding run using t fr to_front_abs [OF t hb(1)] bio_frame_trans [OF fr to_front_frame]
    by (auto simp: to_front_fields)
qed

subsection \<open>Initialisation\<close>

text \<open>The list after \<open>k\<close> buffers have been linked in.\<close>

definition linked :: "nat \<Rightarrow> 'z biost_scheme \<Rightarrow> bool" where
  "linked k s \<longleftrightarrow> length (bufs s) = NBUF \<and>
     seg (get_next s) (get_next s BHead) (map BBuf (rev [0..<k])) BHead \<and>
     seg (get_prev s) (get_prev s BHead) (map BBuf [0..<k]) BHead"

definition link_in :: "nat \<Rightarrow> 'z biost_scheme \<Rightarrow> 'z biost_scheme" where
  "link_in i s0 =
     (let s1 = set_next (BBuf i) (head_next s0) s0;
          s2 = set_prev (BBuf i) BHead s1;
          s3 = set_prev (head_next s2) (BBuf i) s2
      in set_next BHead (BBuf i) s3)"

lemma linked_link_in:
  assumes "linked k s" "k < NBUF"
  shows "linked (Suc k) (link_in k s)"
proof -
  let ?N = "get_next s" and ?P = "get_prev s" and ?b = "BBuf k"
  let ?xs = "map BBuf (rev [0..<k])"
  have l: "length (bufs s) = NBUF" and f: "seg ?N (?N BHead) ?xs BHead"
    and p: "seg ?P (?P BHead) (rev ?xs) BHead"
    using assms(1) by (simp_all add: linked_def rev_map)
  have first: "?N BHead = lastp (rev ?xs)" using seg_start [OF f] by (simp only: lastp_simps)
  have in_c: "in_cache s (?N BHead)"
    using seg_start [OF f] l assms(2) by (cases k) (simp_all add: in_cache_def del: get_next.simps)
  have nx: "get_next (link_in k s) = ?N(?b := ?N BHead, BHead := ?b)"
    and pv: "get_prev (link_in k s) = ?P(?b := BHead, ?N BHead := ?b)"
    and len: "length (bufs (link_in k s)) = NBUF"
    using in_c assms(2) l unfolding link_in_def Let_def get_next_buf
    by (simp_all add: get_link_upd(5,6) del: get_next.simps get_prev.simps set_next.simps set_prev.simps)
  have "seg (?N(?b := ?N BHead, BHead := ?b)) ?b (?b # ?xs) BHead"
    using f by (intro seg_push_front) auto
  moreover have "seg (?P(?b := BHead, ?N BHead := ?b)) ((?P(?b := BHead, ?N BHead := ?b)) BHead) (rev ?xs @ [?b]) BHead"
    unfolding first by (rule seg_push_back [OF p]) (auto simp: distinct_map inj_on_def)
  ultimately show ?thesis
    unfolding linked_def nx pv using len by (simp add: rev_map del: get_next.simps get_prev.simps)
qed

lemma linked_frame:
  assumes "bufs t = bufs s" "head_next t = head_next s" "head_prev t = head_prev s"
  shows "linked k t = linked k s"
proof -
  have "get_next t = get_next s" "get_prev t = get_prev s"
    by (rule ext, rename_tac r, case_tac r; simp add: assms)+
  then show ?thesis by (simp add: linked_def assms)
qed

definition boot_inv :: "'z biost_scheme \<Rightarrow> nat \<Rightarrow> 'z biost_scheme \<Rightarrow> bool" where
  "boot_inv s k u \<longleftrightarrow> linked k u \<and> (\<forall>j < k. \<not> sk_locked (sleeplk u (SBuf j))) \<and>
     (\<forall>j. b_dev (bufs u ! j) = b_dev (bufs s ! j) \<and> b_refcnt (bufs u ! j) = b_refcnt (bufs s ! j)) \<and>
     disk u = disk s \<and> dhist u = dhist s \<and> biost.more u = biost.more s \<and> (calm s \<longrightarrow> calm u)"

lemma calm_initlock:
  "calm s \<Longrightarrow> calm (s\<lparr>splk := (splk s)(lk := \<lparr>sl_locked = False, sl_name = nm, sl_cpu = None\<rparr>)\<rparr>)"
  by (auto simp: calm_def cpu_quiet_def lk_free_def cur_def no_sleeper_def mach_defs)
lemma set_link_more:
  "biost.more (set_next p q s) = biost.more s" "biost.more (set_prev p q s) = biost.more s"
  "head_next (set_prev p q s) = head_next s" "head_prev (set_next p q s) = head_prev s"
  "splk (set_next p q s) = splk s" "splk (set_prev p q s) = splk s"
  by (cases p; simp add: buf_upd_def)+

lemma set_link_sleeplk:
  "set_next p q (sleeplk_update f s) = sleeplk_update f (set_next p q s)"
  "set_prev p q (sleeplk_update f s) = sleeplk_update f (set_prev p q s)"
  "set_next p q (splk_update g s) = splk_update g (set_next p q s)"
  "set_prev p q (splk_update g s) = splk_update g (set_prev p q s)"
  by (cases p; simp add: buf_upd_def)+

lemma initsleeplock_run: "initsleeplock l nm s = Done () (s\<lparr>
    splk := (splk s)(sl_lk l := \<lparr>sl_locked = False, sl_name = ''sleep lock'', sl_cpu = None\<rparr>),
    sleeplk := (sleeplk s)(l := (sleeplk s l)\<lparr>sk_name := nm, sk_locked := False, sk_pid := 0\<rparr>)\<rparr>)"
  by (simp add: initsleeplock_def initlock_def slk_upd_def kmon_simps)

lemma binit_step:
  assumes "boot_inv s k u" "k < NBUF"
  shows "wp (thn (modify (\<lambda>s. set_next (BBuf k) (head_next s) s)) (
            thn (modify (set_prev (BBuf k) BHead)) (
            thn (initsleeplock (SBuf k) ''buffer'') (
            thn (modify (\<lambda>s. set_prev (head_next s) (BBuf k) s))
                (modify (set_next BHead (BBuf k))))))) (\<lambda>_. boot_inv s (Suc k)) u"
proof -
  let ?m = "link_in k u"
  have "linked (Suc k) ?m" using assms by (intro linked_link_in) (simp_all add: boot_inv_def)
  moreover have "b_dev (bufs ?m ! j) = b_dev (bufs u ! j)" "b_refcnt (bufs ?m ! j) = b_refcnt (bufs u ! j)"
    "disk ?m = disk u" "dhist ?m = dhist u" "biost.more ?m = biost.more u" "sleeplk ?m = sleeplk u" "calm ?m = calm u" for j
    by (simp_all add: link_in_def Let_def set_link_fields set_link_other set_link_more del: set_next.simps set_prev.simps)
  moreover have "thn (modify (\<lambda>s. set_next (BBuf k) (head_next s) s)) (
            thn (modify (set_prev (BBuf k) BHead)) (
            thn (initsleeplock (SBuf k) ''buffer'') (
            thn (modify (\<lambda>s. set_prev (head_next s) (BBuf k) s))
                (modify (set_next BHead (BBuf k)))))) u
      = Done () (?m\<lparr>splk := (splk ?m)(LkBuf k := \<lparr>sl_locked = False, sl_name = ''sleep lock'', sl_cpu = None\<rparr>),
           sleeplk := (sleeplk ?m)(SBuf k := (sleeplk ?m (SBuf k))\<lparr>sk_name := ''buffer'', sk_locked := False, sk_pid := 0\<rparr>)\<rparr>)"
    by (simp add: initsleeplock_run kmon_simps bnd_run set_link_sleeplk link_in_def Let_def
        set_link_other set_link_more del: set_next.simps set_prev.simps)
  ultimately show ?thesis
    using assms(1) linked_frame
    by (auto simp: wp_Done boot_inv_def less_Suc_eq calm_initlock cong: linked_frame)
qed

lemma binit_abs:
  assumes "length (bufs s) = NBUF" "\<And>j. j < NBUF \<Longrightarrow> b_dev (bufs s ! j) \<noteq> ROOTDEV \<and> b_refcnt (bufs s ! j) = 0"
    and "\<And>bno. length (disk s bno) = BSIZE"
  shows "\<exists>t. binit s = Done () t \<and> bio_abs t (disk s) Map.empty {} \<and> disk t = disk s \<and> dhist t = dhist s \<and>
    biost.more t = biost.more s \<and> (calm s \<longrightarrow> calm t)"
proof -
  let ?u = "s\<lparr>splk := (splk s)(LkBcache := \<lparr>sl_locked = False, sl_name = ''bcache'', sl_cpu = None\<rparr>),
     head_prev := BHead, head_next := BHead\<rparr>"
  let ?body = "\<lambda>i. thn (modify (\<lambda>s. set_next (BBuf i) (head_next s) s)) (
            thn (modify (set_prev (BBuf i) BHead)) (
            thn (initsleeplock (SBuf i) ''buffer'') (
            thn (modify (\<lambda>s. set_prev (head_next s) (BBuf i) s))
                (modify (set_next BHead (BBuf i))))))"
  have "wp (for_each [0..<NBUF] ?body) (\<lambda>_. boot_inv s (length [0..<NBUF])) ?u"
  proof (rule wp_for_each)
    show "wp (?body ([0..<NBUF] ! k)) (\<lambda>_. boot_inv s (Suc k)) u"
      if "k < length [0..<NBUF]" "boot_inv s k u" for k u
      using binit_step [OF that(2)] that(1) by (simp del: set_next.simps set_prev.simps)
  qed (simp add: boot_inv_def linked_def assms(1) calm_initlock)
  then obtain t where t: "for_each [0..<NBUF] ?body ?u = Done () t" and inv: "boot_inv s NBUF t"
    by (auto simp: wp_Done)
  have "lru t (rev [0..<NBUF])" using inv by (auto simp: boot_inv_def linked_def lru_def rev_map)
  moreover have "buf_ok t (disk s) Map.empty {} j" if "j < NBUF" for j
    using inv assms(2) [OF that] that by (simp add: boot_inv_def buf_ok_def)
  moreover have "\<not> cached t n j" for j n
    using inv assms(2) [of j] by (auto simp: boot_inv_def cached_def)
  ultimately have "bio_abs t (disk s) Map.empty {}"
    using inv assms(3) unfolding bio_abs_def boot_inv_def by auto
  moreover have "binit s = Done () t"
    using t by (simp add: binit_def initlock_def kmon_simps)
  ultimately show ?thesis using inv by (auto simp: boot_inv_def)
qed

end
