(* ===== verification/Disk_Layout.thy ===== *)
theory Disk_Layout
  imports Kernel_Params Kernel_String
begin

text \<open>
  The on-disk structures of \<open>kernel/fs.h\<close> as little-endian fields of byte sequences: 16- and 32-bit
  fields, the super block, disk inodes and directory entries, with the laws of reading after
  writing that the file-system proofs use.
\<close>

subsection \<open>Fields of byte sequences\<close>

definition get_le :: "nat \<Rightarrow> nat \<Rightarrow> u8 list \<Rightarrow> 'a::len word" where
  "get_le n k d = from_le (take n (drop k d))"

definition put_le :: "nat \<Rightarrow> nat \<Rightarrow> 'a::len word \<Rightarrow> u8 list \<Rightarrow> u8 list" where
  "put_le n k v d = take k d @ to_le n v @ drop (k + n) d"

text \<open>Overwriting a range of bytes.\<close>

definition put_bytes :: "nat \<Rightarrow> u8 list \<Rightarrow> u8 list \<Rightarrow> u8 list" where
  "put_bytes k bs d = take k d @ bs @ drop (k + length bs) d"

definition get_bytes :: "nat \<Rightarrow> nat \<Rightarrow> u8 list \<Rightarrow> u8 list" where
  "get_bytes k n d = take n (drop k d)"

abbreviation get32 :: "nat \<Rightarrow> u8 list \<Rightarrow> u32" where "get32 \<equiv> get_le 4"
abbreviation put32 :: "nat \<Rightarrow> u32 \<Rightarrow> u8 list \<Rightarrow> u8 list" where "put32 \<equiv> put_le 4"
abbreviation get16 :: "nat \<Rightarrow> u8 list \<Rightarrow> u16" where "get16 \<equiv> get_le 2"
abbreviation put16 :: "nat \<Rightarrow> u16 \<Rightarrow> u8 list \<Rightarrow> u8 list" where "put16 \<equiv> put_le 2"

named_theorems field_simps2 \<open>reading fields after writing fields\<close>

lemma put_le_bytes: "put_le n k v d = put_bytes k (to_le n v) d"
  by (simp add: put_le_def put_bytes_def)

lemma get_le_bytes: "get_le n k d = from_le (get_bytes k n d)"
  by (simp add: get_le_def get_bytes_def)

lemma length_put_bytes [simp]: "k + length bs \<le> length d \<Longrightarrow> length (put_bytes k bs d) = length d"
  by (simp add: put_bytes_def)

lemma length_get_bytes [simp]: "k + n \<le> length d \<Longrightarrow> length (get_bytes k n d) = n"
  by (simp add: get_bytes_def)

lemma nth_put_bytes:
  "k + length bs \<le> length d \<Longrightarrow> i < length d \<Longrightarrow>
     put_bytes k bs d ! i = (if k \<le> i \<and> i < k + length bs then bs ! (i - k) else d ! i)"
  by (auto simp: put_bytes_def nth_append)

lemma nth_get_bytes: "k + n \<le> length d \<Longrightarrow> i < n \<Longrightarrow> get_bytes k n d ! i = d ! (k + i)"
  by (simp add: get_bytes_def)

lemma get_put_bytes_same [simp]:
  "k + length bs \<le> length d \<Longrightarrow> n = length bs \<Longrightarrow> get_bytes k n (put_bytes k bs d) = bs"
  by (simp add: get_bytes_def put_bytes_def)

lemma get_put_bytes_other:
  assumes "j + n \<le> k \<or> k + length bs \<le> j" "k + length bs \<le> length d" "j + n \<le> length d"
  shows "get_bytes j n (put_bytes k bs d) = get_bytes j n d"
  using assms by (intro nth_equalityI) (auto simp: nth_get_bytes nth_put_bytes)

lemma put_get_bytes_id: "k + n \<le> length d \<Longrightarrow> put_bytes k (get_bytes k n d) d = d"
  by (intro nth_equalityI) (auto simp: nth_put_bytes nth_get_bytes)

lemma length_put_le [simp]: "k + n \<le> length d \<Longrightarrow> length (put_le n k v d) = length d"
  by (simp add: put_le_bytes)

lemma get_put_le_same [field_simps2]:
  "LENGTH('a::len) = 8 * n \<Longrightarrow> k + n \<le> length d \<Longrightarrow> get_le n k (put_le n k (v :: 'a word) d) = v"
  by (simp add: put_le_bytes get_le_bytes)

lemma get_put_le_other [field_simps2]:
  "j + m \<le> k \<or> k + n \<le> j \<Longrightarrow> k + n \<le> length d \<Longrightarrow> j + m \<le> length d \<Longrightarrow>
     get_le m j (put_le n k v d) = get_le m j d"
  by (simp add: put_le_bytes get_le_bytes get_put_bytes_other)

lemma get_bytes_put_le_other [field_simps2]:
  "j + m \<le> k \<or> k + n \<le> j \<Longrightarrow> k + n \<le> length d \<Longrightarrow> j + m \<le> length d \<Longrightarrow>
     get_bytes j m (put_le n k v d) = get_bytes j m d"
  by (simp add: put_le_bytes get_put_bytes_other)

lemma get_le_put_bytes_other [field_simps2]:
  "j + m \<le> k \<or> k + length bs \<le> j \<Longrightarrow> k + length bs \<le> length d \<Longrightarrow> j + m \<le> length d \<Longrightarrow>
     get_le m j (put_bytes k bs d) = get_le m j d"
  by (simp add: get_le_bytes get_put_bytes_other)

lemma from_le_zeros: "from_le (replicate n 0) = 0"
  by (induction n) simp_all

lemma get32_zeros: "get32 k (replicate n 0) = 0"
  by (simp add: get_le_def from_le_zeros)

end
