(* ===== verification/Log.thy ===== *)
theory Log
  imports Bio_Abs Disk_Layout
begin

text \<open>
  \<open>kernel/log.c\<close>: the redo log. The header on disk is a count followed by block numbers, the
  in-memory header has room for \<open>LOGSIZE\<close> of them; an access beyond that array is a \<open>Fault\<close>. The
  loops of \<open>begin_op\<close> wait as in the code, resumed at most \<open>patience\<close> times.
\<close>

subsection \<open>State\<close>

record logst = biost +
  lg_start :: u32
  lg_size :: int
  lg_outstanding :: int
  lg_committing :: bool
  lg_dev :: u32
  lh_n :: int
  lh_block :: "u32 list"

text \<open>The fields of the super block that the log needs.\<close>

record superblock =
  sb_magic :: u32
  sb_size :: u32
  sb_nblocks :: u32
  sb_ninodes :: u32
  sb_nlog :: u32
  sb_logstart :: u32
  sb_inodestart :: u32
  sb_bmapstart :: u32

subsection \<open>Operations\<close>

definition lh_entry :: "nat \<Rightarrow> ('z logst_scheme, u32) kmon" where
  "lh_entry tail = bnd (gets lh_block) (\<lambda>bs. if tail < length bs then ret (bs ! tail) else fault)"

definition buf_copy :: "nat \<Rightarrow> nat \<Rightarrow> ('z biost_scheme, unit) kmon" where
  "buf_copy dst src = modify (\<lambda>s. buf_upd dst (\<lambda>b. b\<lparr>b_data := b_data (bufs s ! src)\<rparr>) s)"

definition install_trans :: "bool \<Rightarrow> ('z logst_scheme, unit) kmon" where
  "install_trans recovering =
     bnd (gets lh_n) (\<lambda>n.
     for_each [0..<nat n] (\<lambda>tail.
       bnd (gets lg_dev) (\<lambda>dev.
       bnd (gets lg_start) (\<lambda>start.
       bnd (bread dev (start + of_nat tail + 1)) (\<lambda>lbuf.
       bnd (lh_entry tail) (\<lambda>bno.
       bnd (bread dev bno) (\<lambda>dbuf.
       thn (buf_copy dbuf lbuf) (
       thn (bwrite dbuf) (
       thn (whenM (\<not> recovering) (bunpin dbuf)) (
       thn (brelse lbuf)
           (brelse dbuf)))))))))))"

definition read_head :: "('z logst_scheme, unit) kmon" where
  "read_head =
     bnd (gets lg_dev) (\<lambda>dev.
     bnd (gets lg_start) (\<lambda>start.
     bnd (bread dev start) (\<lambda>buf.
     bnd (gets (\<lambda>s. b_data (bufs s ! buf))) (\<lambda>lh.
     thn (modify (\<lambda>s. s\<lparr>lh_n := sint (get32 0 lh)\<rparr>)) (
     thn (for_each [0..<nat (sint (get32 0 lh))] (\<lambda>i.
            bnd (gets (\<lambda>s. length (lh_block s))) (\<lambda>len.
            if i < len \<and> 4 + 4 * i + 4 \<le> length lh
            then modify (\<lambda>s. s\<lparr>lh_block := (lh_block s)[i := get32 (4 + 4 * i) lh]\<rparr>)
            else fault)))
         (brelse buf))))))"

definition write_head :: "('z logst_scheme, unit) kmon" where
  "write_head =
     bnd (gets lg_dev) (\<lambda>dev.
     bnd (gets lg_start) (\<lambda>start.
     bnd (bread dev start) (\<lambda>buf.
     bnd (gets lh_n) (\<lambda>n.
     thn (modify (buf_upd buf (\<lambda>b. b\<lparr>b_data := put32 0 (of_int n) (b_data b)\<rparr>))) (
     thn (for_each [0..<nat n] (\<lambda>i.
            bnd (lh_entry i) (\<lambda>bno.
            modify (buf_upd buf (\<lambda>b. b\<lparr>b_data := put32 (4 + 4 * i) bno (b_data b)\<rparr>))))) (
     thn (bwrite buf)
         (brelse buf)))))))"

definition recover_from_log :: "('z logst_scheme, unit) kmon" where
  "recover_from_log =
     thn read_head (
     thn (install_trans True) (
     thn (modify (\<lambda>s. s\<lparr>lh_n := 0\<rparr>))
         write_head))"

definition initlog :: "u32 \<Rightarrow> superblock \<Rightarrow> ('z logst_scheme, unit) kmon" where
  "initlog dev sb =
     (if 4 + 4 * LOGSIZE \<ge> BSIZE then panic ''initlog: too big logheader'' else
      thn (initlock LkLog ''log'') (
      thn (modify (\<lambda>s. s\<lparr>lg_start := sb_logstart sb\<rparr>)) (
      thn (modify (\<lambda>s. s\<lparr>lg_size := sint (sb_nlog sb)\<rparr>)) (
      thn (modify (\<lambda>s. s\<lparr>lg_dev := dev\<rparr>))
          recover_from_log))))"

definition log_full :: "'z logst_scheme \<Rightarrow> bool" where
  "log_full s \<longleftrightarrow> lh_n s + (lg_outstanding s + 1) * int MAXOPBLOCKS > int LOGSIZE"

fun begin_op_loop :: "nat \<Rightarrow> ('z logst_scheme, unit) kmon" where
  "begin_op_loop 0 =
     bnd (gets (\<lambda>s. lg_committing s \<or> log_full s)) (\<lambda>wait.
     if wait then fault else
     thn (modify (\<lambda>s. s\<lparr>lg_outstanding := lg_outstanding s + 1\<rparr>))
         (release LkLog))"
| "begin_op_loop (Suc n) =
     bnd (gets lg_committing) (\<lambda>c.
     if c then thn (sleep ChLog LkLog) (begin_op_loop n) else
     bnd (gets log_full) (\<lambda>full.
     if full then thn (sleep ChLog LkLog) (begin_op_loop n) else
     thn (modify (\<lambda>s. s\<lparr>lg_outstanding := lg_outstanding s + 1\<rparr>))
         (release LkLog)))"

definition begin_op :: "('z logst_scheme, unit) kmon" where
  "begin_op = thn (acquire LkLog) (bnd (gets patience) begin_op_loop)"

definition write_log :: "('z logst_scheme, unit) kmon" where
  "write_log =
     bnd (gets lh_n) (\<lambda>n.
     for_each [0..<nat n] (\<lambda>tail.
       bnd (gets lg_dev) (\<lambda>dev.
       bnd (gets lg_start) (\<lambda>start.
       bnd (bread dev (start + of_nat tail + 1)) (\<lambda>to.
       bnd (lh_entry tail) (\<lambda>bno.
       bnd (bread dev bno) (\<lambda>from.
       thn (buf_copy to from) (
       thn (bwrite to) (
       thn (brelse from)
           (brelse to))))))))))"

definition commit :: "('z logst_scheme, unit) kmon" where
  "commit =
     bnd (gets lh_n) (\<lambda>n.
     whenM (0 < n) (
       thn write_log (
       thn write_head (
       thn (install_trans False) (
       thn (modify (\<lambda>s. s\<lparr>lh_n := 0\<rparr>))
           write_head)))))"

definition end_op :: "('z logst_scheme, unit) kmon" where
  "end_op =
     thn (acquire LkLog) (
     thn (modify (\<lambda>s. s\<lparr>lg_outstanding := lg_outstanding s - 1\<rparr>)) (
     bnd (gets lg_committing) (\<lambda>c.
     if c then panic ''log.committing'' else
     bnd (gets lg_outstanding) (\<lambda>out.
     thn (if out = 0 then modify (\<lambda>s. s\<lparr>lg_committing := True\<rparr>) else wakeup ChLog) (
     thn (release LkLog)
         (whenM (out = 0) (
            thn commit (
            thn (acquire LkLog) (
            thn (modify (\<lambda>s. s\<lparr>lg_committing := False\<rparr>)) (
            thn (wakeup ChLog)
                (release LkLog)))))))))))"

text \<open>The slot of a block number in the in-memory header: the first match, or the end.\<close>

definition log_slot :: "nat \<Rightarrow> u32 list \<Rightarrow> u32 \<Rightarrow> nat" where
  "log_slot n bs bno = (case List.find (\<lambda>i. bs ! i = bno) [0..<n] of Some i \<Rightarrow> i | None \<Rightarrow> n)"

definition log_write :: "nat \<Rightarrow> ('z logst_scheme, unit) kmon" where
  "log_write b =
     thn (acquire LkLog) (
     bnd (gets lh_n) (\<lambda>n.
     bnd (gets lg_size) (\<lambda>sz.
     if n \<ge> int LOGSIZE \<or> n \<ge> sz - 1 then panic ''too big a transaction'' else
     bnd (gets lg_outstanding) (\<lambda>out.
     if out < 1 then panic ''log_write outside of trans'' else
     bnd (gets (\<lambda>s. b_blockno (bufs s ! b))) (\<lambda>bno.
     bnd (gets (\<lambda>s. log_slot (nat n) (lh_block s) bno)) (\<lambda>i.
     thn (modify (\<lambda>s. s\<lparr>lh_block := (lh_block s)[i := bno]\<rparr>)) (
     thn (whenM (int i = n) (
            thn (bpin b)
                (modify (\<lambda>s. s\<lparr>lh_n := lh_n s + 1\<rparr>))))
         (release LkLog))))))))"

subsection \<open>Frame lemmas\<close>

lemma logst_frame [simp]:
  "cpu_quiet (lh_n_update a s) = cpu_quiet s" "cpu_quiet (lh_block_update b s) = cpu_quiet s"
  "cpu_quiet (lg_outstanding_update c s) = cpu_quiet s" "cpu_quiet (lg_committing_update d s) = cpu_quiet s"
  "lk_free lk (lh_n_update a s) = lk_free lk s" "lk_free lk (lh_block_update b s) = lk_free lk s"
  "lk_free lk (lg_outstanding_update c s) = lk_free lk s" "lk_free lk (lg_committing_update d s) = lk_free lk s"
  "procs_free (lh_n_update a s) = procs_free s" "procs_free (lh_block_update b s) = procs_free s"
  "procs_free (lg_outstanding_update c s) = procs_free s" "procs_free (lg_committing_update d s) = procs_free s"
  "no_sleeper ch (lh_n_update a s) = no_sleeper ch s" "no_sleeper ch (lh_block_update b s) = no_sleeper ch s"
  "no_sleeper ch (lg_outstanding_update c s) = no_sleeper ch s" "no_sleeper ch (lg_committing_update d s) = no_sleeper ch s"
  "calm (lh_n_update a s) = calm s" "calm (lh_block_update b s) = calm s"
  "calm (lg_outstanding_update c s) = calm s" "calm (lg_committing_update d s) = calm s"
  "curpid (lh_n_update a s) = curpid s" "curpid (lh_block_update b s) = curpid s"
  "curpid (lg_outstanding_update c s) = curpid s" "curpid (lg_committing_update d s) = curpid s"
  by (simp_all add: cpu_quiet_def lk_free_def mach_defs procs_free_def no_sleeper_def calm_def cur_def curpid_def)

lemma logst_acquired [simp]:
  "lg_start (acquired lk s) = lg_start s" "lg_size (acquired lk s) = lg_size s" "lg_dev (acquired lk s) = lg_dev s"
  "lg_outstanding (acquired lk s) = lg_outstanding s" "lg_committing (acquired lk s) = lg_committing s"
  "lh_n (acquired lk s) = lh_n s" "lh_block (acquired lk s) = lh_block s" "patience (acquired lk r) = patience r"
  "lh_n_update a (acquired lk s) = acquired lk (lh_n_update a s)"
  "lh_block_update b (acquired lk s) = acquired lk (lh_block_update b s)"
  "lg_outstanding_update c (acquired lk s) = acquired lk (lg_outstanding_update c s)"
  "lg_committing_update d (acquired lk s) = acquired lk (lg_committing_update d s)"
  "log_full (acquired lk s) = log_full s"
  by (simp_all add: acquired_def log_full_def)

lemma bio_frame_log:
  assumes "bio_frame s t"
  shows "lg_start t = lg_start s" "lg_size t = lg_size s" "lg_dev t = lg_dev s" "lg_outstanding t = lg_outstanding s"
    "lg_committing t = lg_committing s" "lh_n t = lh_n s" "lh_block t = lh_block s"
proof -
  have t: "t = s\<lparr>sleeplk := sleeplk t, bufs := bufs t, head_prev := head_prev t, head_next := head_next t,
      disk := disk t, dhist := dhist t\<rparr>"
    using assms by (simp add: bio_frame_def)
  show "lg_start t = lg_start s" "lg_size t = lg_size s" "lg_dev t = lg_dev s" "lg_outstanding t = lg_outstanding s"
    "lg_committing t = lg_committing s" "lh_n t = lh_n s" "lh_block t = lh_block s"
    by (subst t; simp)+
qed

lemma bio_abs_frame:
  assumes "bufs t = bufs s" "head_next t = head_next s" "head_prev t = head_prev s" "sleeplk t = sleeplk s"
    and "disk t = disk s" "curpid t = curpid s"
  shows "bio_abs t V H K = bio_abs s V H K"
proof -
  have "buf_ok t V H K j = buf_ok s V H K j" "cached t n j = cached s n j" for j n
    by (simp_all add: buf_ok_def cached_def sl_held_def assms split: option.split)
  then show ?thesis using lru_frame [OF assms(1-3)] by (simp add: bio_abs_def assms)
qed

lemma bio_abs_log [simp]:
  "bio_abs (lh_n_update a s) V H K = bio_abs s V H K" "bio_abs (lh_block_update b s) V H K = bio_abs s V H K"
  "bio_abs (lg_outstanding_update c s) V H K = bio_abs s V H K"
  "bio_abs (lg_committing_update d s) V H K = bio_abs s V H K"
  "bio_abs (acquired lk s') V H K = bio_abs s' V H K"
  by (rule bio_abs_frame; simp)+

subsection \<open>Copying a block through the cache\<close>

lemma unpinned_clean: "bio_abs s V Map.empty K \<Longrightarrow> bno \<notin> K \<Longrightarrow> V bno = disk s bno"
  by (metis bio_absD(7) ran_empty empty_iff)

lemma install_step:
  assumes s: "calm s" "bio_abs s V Map.empty K" "lg_dev s = ROOTDEV"
    and l: "l = lg_start s + of_nat tail + 1" "l \<notin> K"
    and h: "tail < length (lh_block s)" "h = lh_block s ! tail" "h \<noteq> l"
    and k: "card K < NBUF" "if recovering then K = {} else h \<in> K"
  shows "\<exists>t. bnd (gets lg_dev) (\<lambda>dev.
       bnd (gets lg_start) (\<lambda>start.
       bnd (bread dev (start + of_nat tail + 1)) (\<lambda>lbuf.
       bnd (lh_entry tail) (\<lambda>bno.
       bnd (bread dev bno) (\<lambda>dbuf.
       thn (buf_copy dbuf lbuf) (
       thn (bwrite dbuf) (
       thn (whenM (\<not> recovering) (bunpin dbuf)) (
       thn (brelse lbuf)
           (brelse dbuf))))))))) s = Done () t \<and>
    bio_abs t (V(h := V l)) Map.empty (K - {h}) \<and> bio_frame s t \<and>
    disk t = (disk s)(h := V l) \<and> dhist t = dhist s @ [(h, V l)]"
proof -
  have vl: "V l = disk s l" using unpinned_clean [OF s(2) l(2)] .
  obtain i t1 where 1: "bread ROOTDEV l s = Done i t1" "bio_abs t1 V [i \<mapsto> l] K" "bio_frame s t1"
      "disk t1 = disk s" "dhist t1 = dhist s"
    using bread_abs [OF s(1,2), of l] k(1) by auto
  have c1: "calm t1" using bio_frame_calm(1) [OF 1(3)] s(1) by simp
  have "h \<in> K \<or> card (dom [i \<mapsto> l]) + card K < NBUF" using k(2) by (auto split: if_splits simp: NBUF_def MAXOPBLOCKS_def)
  then obtain j t2 where 2: "bread ROOTDEV h t1 = Done j t2" "j \<noteq> i" "bio_abs t2 V [i \<mapsto> l, j \<mapsto> h] K"
      "bio_frame t1 t2" "disk t2 = disk s" "dhist t2 = dhist s"
    using bread_abs [OF c1 1(2), of h] h(3) 1(4,5) by (auto split: if_splits)
  define H where "H = [i \<mapsto> l, j \<mapsto> h]"
  note 2 = 2 [folded H_def]
  have c2: "calm t2" using bio_frame_calm(1) [OF 2(4)] c1 by simp
  have li: "H i = Some l" "H j = Some h" using 2(2) by (auto simp: H_def)
  define t3 where "t3 = buf_upd j (\<lambda>b. b\<lparr>b_data := V l\<rparr>) t2"
  have cp: "buf_copy j i t2 = Done () t3"
    using held_buf(4) [OF 2(3) li(1)] by (simp add: buf_copy_def kmon_simps t3_def)
  have a3: "bio_abs t3 (V(h := V l)) H K"
    unfolding t3_def by (rule buf_data_abs [where g = "\<lambda>_. V l", OF 2(3) li(2)]) (rule bio_absD(6) [OF 2(3)])
  have c3: "calm t3" using c2 by (simp add: t3_def)
  define t4 where "t4 = disk_write h (V l) t3"
  have 4: "bwrite j t3 = Done () t4" "bio_abs t4 (V(h := V l)) H K" "calm t4"
    using bwrite_abs [OF c3 a3 li(2)] c3 by (simp_all add: t4_def)
  obtain t5 where 5: "whenM (\<not> recovering) (bunpin j) t4 = Done () t5" "bio_abs t5 (V(h := V l)) H (K - {h})"
      "bio_frame t4 t5" "disk t5 = disk t4" "dhist t5 = dhist t4"
    using bunpin_abs [OF 4(3,2) li(2)] 4(2) k(2) by (cases recovering) (auto simp: kmon_simps)
  have c5: "calm t5" using bio_frame_calm(1) [OF 5(3)] 4(3) by simp
  have d5: "disk t5 = (disk s)(h := V l)" "dhist t5 = dhist s @ [(h, V l)]"
    using 5(4,5) 2(5,6) by (simp_all add: t4_def t3_def)
  obtain t6 where 6: "brelse i t5 = Done () t6" "bio_abs t6 (V(h := V l)) (H(i := None)) (K - {h})"
      "bio_frame t5 t6" "disk t6 = disk t5" "dhist t6 = dhist t5"
    using brelse_abs [OF c5 5(2) li(1)] d5 vl h(3) by auto
  have c6: "calm t6" using bio_frame_calm(1) [OF 6(3)] c5 by simp
  obtain t7 where 7: "brelse j t6 = Done () t7" "bio_abs t7 (V(h := V l)) (H(i := None, j := None)) (K - {h})"
      "bio_frame t6 t7" "disk t7 = disk t6" "dhist t7 = dhist t6"
    using brelse_abs [OF c6 6(2), of j h] li 2(2) d5 6(4) by auto
  have H0: "H(i := None, j := None) = Map.empty" by (auto simp: H_def)
  have "bio_frame s t2" using bio_frame_trans 1(3) 2(4) by blast
  moreover have "bio_frame t2 t4" unfolding t3_def t4_def using bio_frame_trans bio_frame_upd by blast
  ultimately have "bio_frame s t7" using bio_frame_trans 5(3) 6(3) 7(3) by metis
  moreover have "lh_block t1 = lh_block s" using bio_frame_log 1(3) by blast
  ultimately show ?thesis
    using 1(1) 2(1) cp 4(1) 5(1) 6(1,4,5) 7 s(3) l(1) h H0 d5
    by (cases recovering) (simp_all add: kmon_simps bnd_run lh_entry_def)
qed

lemma write_log_step:
  assumes s: "calm s" "bio_abs s V Map.empty K" "lg_dev s = ROOTDEV"
    and l: "l = lg_start s + of_nat tail + 1" "l \<notin> K"
    and h: "tail < length (lh_block s)" "h = lh_block s ! tail" "h \<in> K"
    and k: "card K < NBUF"
  shows "\<exists>t. bnd (gets lg_dev) (\<lambda>dev.
       bnd (gets lg_start) (\<lambda>start.
       bnd (bread dev (start + of_nat tail + 1)) (\<lambda>to.
       bnd (lh_entry tail) (\<lambda>bno.
       bnd (bread dev bno) (\<lambda>from.
       thn (buf_copy to from) (
       thn (bwrite to) (
       thn (brelse from)
           (brelse to)))))))) s = Done () t \<and>
    bio_abs t (V(l := V h)) Map.empty K \<and> bio_frame s t \<and>
    disk t = (disk s)(l := V h) \<and> dhist t = dhist s @ [(l, V h)]"
proof -
  obtain i t1 where 1: "bread ROOTDEV l s = Done i t1" "bio_abs t1 V [i \<mapsto> l] K" "bio_frame s t1"
      "disk t1 = disk s" "dhist t1 = dhist s"
    using bread_abs [OF s(1,2), of l] k(1) by auto
  have c1: "calm t1" using bio_frame_calm(1) [OF 1(3)] s(1) by simp
  have hl: "h \<noteq> l" using h(3) l(2) by blast
  obtain j t2 where 2: "bread ROOTDEV h t1 = Done j t2" "j \<noteq> i" "bio_abs t2 V [i \<mapsto> l, j \<mapsto> h] K"
      "bio_frame t1 t2" "disk t2 = disk s" "dhist t2 = dhist s"
    using bread_abs [OF c1 1(2), of h] hl h(3) 1(4,5) by (auto split: if_splits)
  define H where "H = [i \<mapsto> l, j \<mapsto> h]"
  note 2 = 2 [folded H_def]
  have c2: "calm t2" using bio_frame_calm(1) [OF 2(4)] c1 by simp
  have li: "H i = Some l" "H j = Some h" using 2(2) by (auto simp: H_def)
  define t3 where "t3 = buf_upd i (\<lambda>b. b\<lparr>b_data := V h\<rparr>) t2"
  have cp: "buf_copy i j t2 = Done () t3"
    using held_buf(4) [OF 2(3) li(2)] by (simp add: buf_copy_def kmon_simps t3_def)
  have a3: "bio_abs t3 (V(l := V h)) H K"
    unfolding t3_def by (rule buf_data_abs [where g = "\<lambda>_. V h", OF 2(3) li(1)]) (rule bio_absD(6) [OF 2(3)])
  have c3: "calm t3" using c2 by (simp add: t3_def)
  define t4 where "t4 = disk_write l (V h) t3"
  have 4: "bwrite i t3 = Done () t4" "bio_abs t4 (V(l := V h)) H K" "calm t4"
    using bwrite_abs [OF c3 a3 li(1)] c3 by (simp_all add: t4_def)
  have d4: "disk t4 = (disk s)(l := V h)" "dhist t4 = dhist s @ [(l, V h)]"
    using 2(5,6) by (simp_all add: t4_def t3_def)
  obtain t6 where 6: "brelse j t4 = Done () t6" "bio_abs t6 (V(l := V h)) (H(j := None)) K"
      "bio_frame t4 t6" "disk t6 = disk t4" "dhist t6 = dhist t4"
    using brelse_abs [OF 4(3,2) li(2)] h(3) by auto
  have c6: "calm t6" using bio_frame_calm(1) [OF 6(3)] 4(3) by simp
  obtain t7 where 7: "brelse i t6 = Done () t7" "bio_abs t7 (V(l := V h)) (H(j := None, i := None)) K"
      "bio_frame t6 t7" "disk t7 = disk t6" "dhist t7 = dhist t6"
    using brelse_abs [OF c6 6(2), of i l] li 2(2) d4 6(4) by auto
  have H0: "H(j := None, i := None) = Map.empty" by (auto simp: H_def)
  have "bio_frame s t2" using bio_frame_trans 1(3) 2(4) by blast
  moreover have "bio_frame t2 t4" unfolding t3_def t4_def using bio_frame_trans bio_frame_upd by blast
  ultimately have "bio_frame s t7" using bio_frame_trans 6(3) 7(3) by metis
  moreover have "lh_block t1 = lh_block s" using bio_frame_log 1(3) by blast
  ultimately show ?thesis
    using 1(1) 2(1) cp 4(1) 6(1,4,5) 7 s(3) l(1) h H0 d4
    by (simp add: kmon_simps bnd_run lh_entry_def)
qed

subsection \<open>The log region and sequences of disk writes\<close>

definition dapply :: "('k \<times> 'v) list \<Rightarrow> ('k \<Rightarrow> 'v) \<Rightarrow> 'k \<Rightarrow> 'v" where
  "dapply ws d = fold (\<lambda>(b, x) d. d(b := x)) ws d"

definition log_blk :: "u32 \<Rightarrow> nat \<Rightarrow> u32" where
  "log_blk a i = a + of_nat i + 1"

definition log_region :: "u32 \<Rightarrow> u32 set" where
  "log_region a = insert a (log_blk a ` {..<LOGSIZE - 1})"

text \<open>The writes of \<open>write_log\<close>, of the installation from the log, and the two header blocks.\<close>

definition log_writes :: "u32 \<Rightarrow> u32 list \<Rightarrow> (u32 \<Rightarrow> block) \<Rightarrow> (u32 \<times> block) list" where
  "log_writes a bs V = map (\<lambda>i. (log_blk a i, V (bs ! i))) [0..<length bs]"

definition home_writes :: "u32 \<Rightarrow> u32 list \<Rightarrow> (u32 \<Rightarrow> block) \<Rightarrow> (u32 \<times> block) list" where
  "home_writes a bs V = map (\<lambda>i. (bs ! i, V (log_blk a i))) [0..<length bs]"

definition hdr_bytes :: "u32 list \<Rightarrow> block \<Rightarrow> block" where
  "hdr_bytes bs d = fold (\<lambda>i d. put32 (4 + 4 * i) (bs ! i) d) [0..<length bs] (put32 0 (of_nat (length bs)) d)"

lemma dapply_simps [simp]:
  "dapply [] d = d" "dapply ((b, x) # ws) d = dapply ws (d(b := x))" "dapply (us @ ws) d = dapply ws (dapply us d)"
  by (simp_all add: dapply_def)

lemma dapply_other: "b \<notin> fst ` set ws \<Longrightarrow> dapply ws d b = d b"
  by (induction ws arbitrary: d) (auto simp: dapply_def)

lemma dapply_mem: "distinct (map fst ws) \<Longrightarrow> (b, x) \<in> set ws \<Longrightarrow> dapply ws d b = x"
proof (induction ws arbitrary: d)
  case Nil
  then show ?case by simp
next
  case (Cons w ws)
  show ?case
  proof (cases "w = (b, x)")
    case True
    then show ?thesis using Cons.prems(1) dapply_other [of b ws] by auto
  next
    case False
    then show ?thesis using Cons by (cases w) auto
  qed
qed

lemma dapply_cong: "b \<in> fst ` set ws \<Longrightarrow> dapply ws d b = dapply ws e b"
proof (induction ws arbitrary: d e)
  case Nil
  then show ?case by simp
next
  case (Cons w ws)
  obtain c x where w: "w = (c, x)" by (cases w)
  show ?case
  proof (cases "b \<in> fst ` set ws")
    case True
    then show ?thesis using Cons.IH unfolding w by simp
  next
    case False
    then show ?thesis using Cons.prems dapply_other unfolding w by (simp add: dapply_other)
  qed
qed

lemma log_blk_inj: "i < LOGSIZE \<Longrightarrow> j < LOGSIZE \<Longrightarrow> log_blk a i = log_blk a j \<longleftrightarrow> i = j"
  by (auto simp: log_blk_def LOGSIZE_def MAXOPBLOCKS_def word_of_nat_eq_iff take_bit_nat_eq_self)

lemma log_blk_hdr: "i < LOGSIZE \<Longrightarrow> log_blk a i \<noteq> a"
proof
  assume i: "i < LOGSIZE" and "log_blk a i = a"
  then have "(of_nat (Suc i) :: u32) = 0" by (simp add: log_blk_def add.assoc add.commute)
  then have "unat (of_nat (Suc i) :: u32) = 0" by simp
  then show False using i by (simp add: unat_of_nat LOGSIZE_def MAXOPBLOCKS_def del: of_nat_Suc)
qed

subsection \<open>The header block\<close>

lemma BSIZE_log: "4 + 4 * LOGSIZE \<le> BSIZE"
  by (simp add: BSIZE_def LOGSIZE_def MAXOPBLOCKS_def)

definition hdr_upto :: "u32 list \<Rightarrow> nat \<Rightarrow> block \<Rightarrow> block" where
  "hdr_upto bs k d = fold (\<lambda>i d. put32 (4 + 4 * i) (bs ! i) d) [0..<k] (put32 0 (of_nat (length bs)) d)"

lemma hdr_upto_simps:
  "hdr_upto bs 0 d = put32 0 (of_nat (length bs)) d"
  "hdr_upto bs (Suc k) d = put32 (4 + 4 * k) (bs ! k) (hdr_upto bs k d)"
  "hdr_upto bs (length bs) d = hdr_bytes bs d"
  by (simp_all add: hdr_upto_def hdr_bytes_def)

lemma hdr_upto:
  assumes "k \<le> length bs" "length bs \<le> LOGSIZE" "length d = BSIZE"
  shows "length (hdr_upto bs k d) = BSIZE \<and> get32 0 (hdr_upto bs k d) = of_nat (length bs) \<and>
    (\<forall>i < k. get32 (4 + 4 * i) (hdr_upto bs k d) = bs ! i)"
  using assms
proof (induction k)
  case 0
  then show ?case using BSIZE_log by (simp add: hdr_upto_simps field_simps2)
next
  case (Suc k)
  then have IH: "length (hdr_upto bs k d) = BSIZE" "get32 0 (hdr_upto bs k d) = of_nat (length bs)"
    "\<And>i. i < k \<Longrightarrow> get32 (4 + 4 * i) (hdr_upto bs k d) = bs ! i" by auto
  have b: "4 + 4 * k + 4 \<le> BSIZE" using Suc.prems BSIZE_log by linarith
  then show ?case
    using IH by (auto simp: hdr_upto_simps less_Suc_eq get_put_le_same get_put_le_other)
qed

lemma hdr_bytes_facts:
  assumes "length bs \<le> LOGSIZE" "length d = BSIZE"
  shows "length (hdr_bytes bs d) = BSIZE" "get32 0 (hdr_bytes bs d) = of_nat (length bs)"
    "i < length bs \<Longrightarrow> get32 (4 + 4 * i) (hdr_bytes bs d) = bs ! i"
  using hdr_upto [of "length bs" bs d] assms by (auto simp: hdr_upto_simps)

text \<open>What the header block of a disk says.\<close>

definition hdr_blocks :: "block \<Rightarrow> u32 list" where
  "hdr_blocks d = map (\<lambda>i. get32 (4 + 4 * i) d) [0..<nat (sint (get32 0 d))]"

lemma sint_small: "n \<le> LOGSIZE \<Longrightarrow> sint (of_nat n :: u32) = int n"
  by (simp add: LOGSIZE_def MAXOPBLOCKS_def sint_uint uint_nat unat_of_nat signed_take_bit_int_eq_self)

lemma hdr_blocks_hdr_bytes:
  assumes "length bs \<le> LOGSIZE" "length d = BSIZE"
  shows "hdr_blocks (hdr_bytes bs d) = bs"
  using hdr_bytes_facts [OF assms] sint_small [OF assms(1)]
  by (intro nth_equalityI) (auto simp: hdr_blocks_def)

text \<open>The in-memory header.\<close>

definition log_hdr :: "u32 list \<Rightarrow> 'z logst_scheme \<Rightarrow> bool" where
  "log_hdr bs s \<longleftrightarrow> lg_dev s = ROOTDEV \<and> lh_n s = int (length bs) \<and> length (lh_block s) = LOGSIZE \<and>
     length bs \<le> LOGSIZE \<and> take (length bs) (lh_block s) = bs"

lemma log_hdr_nth: "log_hdr bs s \<Longrightarrow> i < length bs \<Longrightarrow> i < length (lh_block s) \<and> lh_block s ! i = bs ! i"
  by (auto simp: log_hdr_def) (metis nth_take)

lemma log_hdr_frame: "bio_frame s t \<Longrightarrow> log_hdr bs t = log_hdr bs s"
  by (simp add: log_hdr_def bio_frame_log)

lemma buf_upd_twice: "buf_upd i f (buf_upd i g s) = buf_upd i (\<lambda>b. f (g b)) s"
  by (cases "i < length (bufs s)") (simp_all add: buf_upd_def list_update_beyond)

subsection \<open>Writing and reading the header\<close>

lemma write_head_loop:
  assumes "log_hdr bs s" "\<And>f. log_hdr bs (buf_upd b f s)"
  shows "for_each [0..<length bs] (\<lambda>i. bnd (lh_entry i) (\<lambda>bno.
            modify (buf_upd b (\<lambda>x. x\<lparr>b_data := put32 (4 + 4 * i) bno (b_data x)\<rparr>))))
      (buf_upd b (\<lambda>x. x\<lparr>b_data := put32 0 (of_nat (length bs)) (b_data x)\<rparr>) s)
    = Done () (buf_upd b (\<lambda>x. x\<lparr>b_data := hdr_bytes bs (b_data x)\<rparr>) s)"
proof -
  let ?I = "\<lambda>k u. u = buf_upd b (\<lambda>x. x\<lparr>b_data := hdr_upto bs k (b_data x)\<rparr>) s"
  let ?body = "\<lambda>i. bnd (lh_entry i) (\<lambda>bno.
            modify (buf_upd b (\<lambda>x. x\<lparr>b_data := put32 (4 + 4 * i) bno (b_data x)\<rparr>)))"
  have "wp (for_each [0..<length bs] ?body) (\<lambda>_. ?I (length [0..<length bs]))
      (buf_upd b (\<lambda>x. x\<lparr>b_data := put32 0 (of_nat (length bs)) (b_data x)\<rparr>) s)"
  proof (rule wp_for_each)
    fix k u assume k: "k < length [0..<length bs]" and u: "?I k u"
    have "k < length (lh_block u) \<and> lh_block u ! k = bs ! k"
      using log_hdr_nth [OF assms(2), of k] k unfolding u by simp
    then show "wp (?body ([0..<length bs] ! k)) (\<lambda>_. ?I (Suc k)) u"
      using k unfolding u
      by (simp add: wp_Done lh_entry_def kmon_simps buf_upd_twice hdr_upto_simps)
  qed (simp add: hdr_upto_simps)
  then show ?thesis by (simp add: wp_Done hdr_upto_simps)
qed

lemma write_head_abs:
  assumes s: "calm s" "bio_abs s V Map.empty K" "log_hdr bs s" "lg_start s = a"
    and a: "a \<notin> K" "card K < NBUF"
  shows "\<exists>t. write_head s = Done () t \<and> bio_abs t (V(a := hdr_bytes bs (V a))) Map.empty K \<and> bio_frame s t \<and>
    disk t = (disk s)(a := hdr_bytes bs (V a)) \<and> dhist t = dhist s @ [(a, hdr_bytes bs (V a))]"
proof -
  obtain i t1 where 1: "bread ROOTDEV a s = Done i t1" "bio_abs t1 V [i \<mapsto> a] K" "bio_frame s t1"
      "disk t1 = disk s" "dhist t1 = dhist s"
    using bread_abs [OF s(1,2), of a] a(2) by auto
  define H where "H = [i \<mapsto> a]"
  note 1 = 1 [folded H_def]
  have c1: "calm t1" using bio_frame_calm(1) [OF 1(3)] s(1) by simp
  have hi: "H i = Some a" by (simp add: H_def)
  define t2 where "t2 = buf_upd i (\<lambda>x. x\<lparr>b_data := hdr_bytes bs (b_data x)\<rparr>) t1"
  have len: "length bs \<le> LOGSIZE" using s(3) by (simp add: log_hdr_def)
  have n: "lh_n s = int (length bs)" "lg_dev s = ROOTDEV" using s(3) by (simp_all add: log_hdr_def)
  have loop: "for_each [0..<length bs] (\<lambda>k. bnd (lh_entry k) (\<lambda>bno.
            modify (buf_upd i (\<lambda>x. x\<lparr>b_data := put32 (4 + 4 * k) bno (b_data x)\<rparr>))))
      (buf_upd i (\<lambda>x. x\<lparr>b_data := put32 0 (of_nat (length bs)) (b_data x)\<rparr>) t1) = Done () t2"
    unfolding t2_def
  proof (rule write_head_loop)
    show "log_hdr bs t1" using log_hdr_frame 1(3) s(3) by blast
    then show "log_hdr bs (buf_upd i f t1)" for f using log_hdr_frame bio_frame_upd(1) by blast
  qed
  have a2: "bio_abs t2 (V(a := hdr_bytes bs (V a))) H K"
    unfolding t2_def by (rule buf_data_abs [OF 1(2) hi]) (rule hdr_bytes_facts(1) [OF len bio_absD(6) [OF 1(2)]])
  have c2: "calm t2" using c1 by (simp add: t2_def)
  define t3 where "t3 = disk_write a (hdr_bytes bs (V a)) t2"
  have 3: "bwrite i t2 = Done () t3" "bio_abs t3 (V(a := hdr_bytes bs (V a))) H K" "calm t3"
    using bwrite_abs [OF c2 a2 hi] c2 by (simp_all add: t3_def)
  have d3: "disk t3 = (disk s)(a := hdr_bytes bs (V a))" "dhist t3 = dhist s @ [(a, hdr_bytes bs (V a))]"
    using 1(4,5) by (simp_all add: t3_def t2_def)
  obtain t4 where 4: "brelse i t3 = Done () t4" "bio_abs t4 (V(a := hdr_bytes bs (V a))) (H(i := None)) K"
      "bio_frame t3 t4" "disk t4 = disk t3" "dhist t4 = dhist t3"
    using brelse_abs [OF 3(3,2) hi] d3 by auto
  have H0: "H(i := None) = Map.empty" by (simp add: H_def)
  have "bio_frame t1 t3" unfolding t2_def t3_def using bio_frame_trans bio_frame_upd by blast
  then have "bio_frame s t4" using bio_frame_trans 1(3) 4(3) by metis
  moreover have "lh_n t1 = lh_n s" using bio_frame_log 1(3) by blast
  ultimately show ?thesis
    using 1(1) loop 3(1) 4 s(4) n H0 d3 by (simp add: write_head_def kmon_simps bnd_run)
qed

subsection \<open>What the log operations may change\<close>

definition log_frame :: "'z logst_scheme \<Rightarrow> 'z logst_scheme \<Rightarrow> bool" where
  "log_frame s t \<longleftrightarrow>
     t = s\<lparr>sleeplk := sleeplk t, bufs := bufs t, head_prev := head_prev t, head_next := head_next t,
           disk := disk t, dhist := dhist t, lh_n := lh_n t, lh_block := lh_block t\<rparr> \<and>
     (\<forall>i. sleeplk t (SInode i) = sleeplk s (SInode i))"

lemma log_frame_refl [simp]: "log_frame s s"
  by (simp add: log_frame_def)

lemma log_frame_trans:
  assumes "log_frame s t" "log_frame t u"
  shows "log_frame s u"
proof -
  have t: "t = s\<lparr>sleeplk := sleeplk t, bufs := bufs t, head_prev := head_prev t, head_next := head_next t,
      disk := disk t, dhist := dhist t, lh_n := lh_n t, lh_block := lh_block t\<rparr>"
    and u: "u = t\<lparr>sleeplk := sleeplk u, bufs := bufs u, head_prev := head_prev u, head_next := head_next u,
      disk := disk u, dhist := dhist u, lh_n := lh_n u, lh_block := lh_block u\<rparr>"
    using assms by (simp_all add: log_frame_def)
  have "u = s\<lparr>sleeplk := sleeplk u, bufs := bufs u, head_prev := head_prev u, head_next := head_next u,
      disk := disk u, dhist := dhist u, lh_n := lh_n u, lh_block := lh_block u\<rparr>"
    by (subst u, subst t) simp
  then show ?thesis using assms by (simp add: log_frame_def)
qed

lemma log_frame_upd [simp]:
  "log_frame s (lh_n_update a s)" "log_frame s (lh_block_update b s)"
  by (simp_all add: log_frame_def)

lemma log_frame_committing:
  assumes "log_frame s t"
  shows "log_frame (s\<lparr>lg_committing := c\<rparr>) (t\<lparr>lg_committing := c\<rparr>)"
proof -
  have t: "t = s\<lparr>sleeplk := sleeplk t, bufs := bufs t, head_prev := head_prev t, head_next := head_next t,
      disk := disk t, dhist := dhist t, lh_n := lh_n t, lh_block := lh_block t\<rparr>"
    using assms by (simp add: log_frame_def)
  have "t\<lparr>lg_committing := c\<rparr> = s\<lparr>sleeplk := sleeplk t, bufs := bufs t, head_prev := head_prev t, head_next := head_next t,
      disk := disk t, dhist := dhist t, lg_committing := c, lh_n := lh_n t, lh_block := lh_block t\<rparr>"
    by (subst t) simp
  then show ?thesis using assms by (simp add: log_frame_def)
qed

lemma bio_log_frame:
  assumes "bio_frame s t"
  shows "log_frame s t"
proof -
  have t: "t = s\<lparr>sleeplk := sleeplk t, bufs := bufs t, head_prev := head_prev t, head_next := head_next t,
      disk := disk t, dhist := dhist t\<rparr>"
    using assms by (simp add: bio_frame_def)
  have "t = s\<lparr>sleeplk := sleeplk t, bufs := bufs t, head_prev := head_prev t, head_next := head_next t,
      disk := disk t, dhist := dhist t, lh_n := lh_n s, lh_block := lh_block s\<rparr>"
    by (subst t) simp
  then show ?thesis using assms bio_frame_log [OF assms] by (simp add: log_frame_def bio_frame_def)
qed

lemma log_frame_fields:
  assumes "log_frame s t"
  shows "calm t = calm s" "curpid t = curpid s" "mem t = mem s" "procs t = procs s" "cur t = cur s"
    "lg_start t = lg_start s" "lg_size t = lg_size s" "lg_dev t = lg_dev s"
    "logst.more t = logst.more s" "sleeplk t (SInode i) = sleeplk s (SInode i)"
    "lg_outstanding t = lg_outstanding s" "lg_committing t = lg_committing s"
proof -
  have t: "t = s\<lparr>sleeplk := sleeplk t, bufs := bufs t, head_prev := head_prev t, head_next := head_next t,
      disk := disk t, dhist := dhist t, lh_n := lh_n t, lh_block := lh_block t\<rparr>"
    using assms by (simp add: log_frame_def)
  show "calm t = calm s" "curpid t = curpid s" "mem t = mem s" "procs t = procs s" "cur t = cur s"
    "lg_start t = lg_start s" "lg_size t = lg_size s" "lg_dev t = lg_dev s" "logst.more t = logst.more s"
    "lg_outstanding t = lg_outstanding s" "lg_committing t = lg_committing s"
    by (subst t; simp add: cur_def)+
  show "sleeplk t (SInode i) = sleeplk s (SInode i)" using assms by (simp add: log_frame_def)
qed

lemma read_head_loop:
  assumes "length (lh_block s) = LOGSIZE" "n \<le> LOGSIZE" "length d = BSIZE"
  shows "for_each [0..<n] (\<lambda>i. bnd (gets (\<lambda>s. length (lh_block s))) (\<lambda>len.
            if i < len \<and> 4 + 4 * i + 4 \<le> length d
            then modify (\<lambda>s. s\<lparr>lh_block := (lh_block s)[i := get32 (4 + 4 * i) d]\<rparr>)
            else fault)) s
    = Done () (s\<lparr>lh_block := map (\<lambda>i. get32 (4 + 4 * i) d) [0..<n] @ drop n (lh_block s)\<rparr>)"
proof -
  let ?I = "\<lambda>k u. u = s\<lparr>lh_block := map (\<lambda>i. get32 (4 + 4 * i) d) [0..<k] @ drop k (lh_block s)\<rparr>"
  let ?body = "\<lambda>i. bnd (gets (\<lambda>s. length (lh_block s))) (\<lambda>len.
            if i < len \<and> 4 + 4 * i + 4 \<le> length d
            then modify (\<lambda>s. s\<lparr>lh_block := (lh_block s)[i := get32 (4 + 4 * i) d]\<rparr>)
            else fault)"
  have "wp (for_each [0..<n] ?body) (\<lambda>_. ?I (length [0..<n])) s"
  proof (rule wp_for_each)
    fix k u assume k: "k < length [0..<n]" and u: "?I k u"
    have "4 + 4 * k + 4 \<le> length d" using k assms BSIZE_log by (simp add: LOGSIZE_def MAXOPBLOCKS_def)
    moreover have "(map (\<lambda>i. get32 (4 + 4 * i) d) [0..<k] @ drop k (lh_block s))[k := get32 (4 + 4 * k) d]
        = map (\<lambda>i. get32 (4 + 4 * i) d) [0..<Suc k] @ drop (Suc k) (lh_block s)"
      using k assms by (simp add: list_update_append Cons_nth_drop_Suc [symmetric])
    ultimately show "wp (?body ([0..<n] ! k)) (\<lambda>_. ?I (Suc k)) u"
      using k assms unfolding u by (simp add: wp_Done kmon_simps)
  qed simp
  then show ?thesis by (simp add: wp_Done)
qed

lemma read_head_abs:
  assumes s: "calm s" "bio_abs s V Map.empty {}" "lg_dev s = ROOTDEV" "lg_start s = a"
    and h: "length (lh_block s) = LOGSIZE" "0 \<le> sint (get32 0 (V a))" "sint (get32 0 (V a)) \<le> int LOGSIZE"
  shows "\<exists>t. read_head s = Done () t \<and> bio_abs t V Map.empty {} \<and> log_hdr (hdr_blocks (V a)) t \<and>
    log_frame s t \<and> disk t = disk s \<and> dhist t = dhist s"
proof -
  let ?n = "nat (sint (get32 0 (V a)))"
  obtain i t1 where 1: "bread ROOTDEV a s = Done i t1" "bio_abs t1 V [i \<mapsto> a] {}" "bio_frame s t1"
      "disk t1 = disk s" "dhist t1 = dhist s"
    using bread_abs [OF s(1,2), of a] by (auto simp: NBUF_def MAXOPBLOCKS_def)
  define H where "H = [i \<mapsto> a]"
  note 1 = 1 [folded H_def]
  have hi: "H i = Some a" by (simp add: H_def)
  have c1: "calm t1" using bio_frame_calm(1) [OF 1(3)] s(1) by simp
  have d: "b_data (bufs t1 ! i) = V a" using held_buf(4) [OF 1(2) hi] .
  define t2 where "t2 = t1\<lparr>lh_n := sint (get32 0 (V a)), lh_block := hdr_blocks (V a) @ drop ?n (lh_block s)\<rparr>"
  have lb: "lh_block t1 = lh_block s" using bio_frame_log 1(3) by blast
  have loop: "for_each [0..<?n] (\<lambda>i. bnd (gets (\<lambda>s. length (lh_block s))) (\<lambda>len.
            if i < len \<and> 4 + 4 * i + 4 \<le> length (V a)
            then modify (\<lambda>s. s\<lparr>lh_block := (lh_block s)[i := get32 (4 + 4 * i) (V a)]\<rparr>)
            else fault)) (t1\<lparr>lh_n := sint (get32 0 (V a))\<rparr>) = Done () t2"
    using read_head_loop [of "t1\<lparr>lh_n := sint (get32 0 (V a))\<rparr>" ?n "V a"] h lb bio_absD(6) [OF s(2), of a]
    by (simp add: t2_def hdr_blocks_def)
  have a2: "bio_abs t2 V H {}" "calm t2" using 1(2) c1 by (simp_all add: t2_def)
  have "V a = disk t2 a" using unpinned_clean [OF s(2), of a] 1(4) by (simp add: t2_def)
  then obtain t3 where 3: "brelse i t2 = Done () t3" "bio_abs t3 V (H(i := None)) {}"
      "bio_frame t2 t3" "disk t3 = disk t2" "dhist t3 = dhist t2"
    using brelse_abs [OF a2(2,1) hi] by auto
  have H0: "H(i := None) = Map.empty" by (simp add: H_def)
  have "log_frame t1 t2" unfolding t2_def using log_frame_trans log_frame_upd by blast
  then have "log_frame s t3" using log_frame_trans bio_log_frame 1(3) 3(3) by blast
  moreover have "lg_dev t2 = ROOTDEV" using s(3) bio_frame_log(3) [OF 1(3)] by (simp add: t2_def)
  then have "log_hdr (hdr_blocks (V a)) t2"
    using h lb by (simp add: log_hdr_def t2_def) (simp add: hdr_blocks_def)
  then have "log_hdr (hdr_blocks (V a)) t3" using log_hdr_frame [OF 3(3)] by simp
  ultimately show ?thesis
    using 1(1,4,5) d loop 3 H0 s by (simp add: read_head_def kmon_simps bnd_run cong: if_cong) (simp add: t2_def)
qed

subsection \<open>Copying the whole transaction\<close>

text \<open>A transaction: distinct blocks outside the log region, few enough for log and cache.\<close>

definition trans_ok :: "u32 \<Rightarrow> u32 list \<Rightarrow> bool" where
  "trans_ok a bs \<longleftrightarrow> distinct bs \<and> length bs < LOGSIZE \<and> set bs \<inter> log_region a = {}"

lemma trans_okD:
  assumes "trans_ok a bs"
  shows "length bs < NBUF" "card (set bs) < NBUF" "a \<notin> set bs" "i < length bs \<Longrightarrow> log_blk a i \<notin> set bs"
  using assms by (auto simp: trans_ok_def log_region_def NBUF_def LOGSIZE_def distinct_card)

lemma fst_log_writes: "fst ` set (log_writes a bs V) = log_blk a ` {..<length bs}"
  by (force simp: log_writes_def)

lemma fst_home_writes: "fst ` set (home_writes a bs V) = set bs"
  by (force simp: home_writes_def in_set_conv_nth)

lemma set_take_subset_fst: "b \<in> fst ` set (take k ws) \<Longrightarrow> b \<in> fst ` set ws"
  using set_take_subset by force

lemma write_log_abs:
  assumes s: "calm s" "bio_abs s V Map.empty (set bs)" "log_hdr bs s" "lg_start s = a" and tr: "trans_ok a bs"
  defines "ws \<equiv> log_writes a bs V"
  shows "\<exists>t. write_log s = Done () t \<and> bio_abs t (dapply ws V) Map.empty (set bs) \<and> bio_frame s t \<and>
    disk t = dapply ws (disk s) \<and> dhist t = dhist s @ ws"
proof -
  let ?I = "\<lambda>k u. bio_abs u (dapply (take k ws) V) Map.empty (set bs) \<and> bio_frame s u \<and>
    disk u = dapply (take k ws) (disk s) \<and> dhist u = dhist s @ take k ws"
  let ?body = "\<lambda>tail. bnd (gets lg_dev) (\<lambda>dev.
       bnd (gets lg_start) (\<lambda>start.
       bnd (bread dev (start + of_nat tail + 1)) (\<lambda>to.
       bnd (lh_entry tail) (\<lambda>bno.
       bnd (bread dev bno) (\<lambda>from.
       thn (buf_copy to from) (
       thn (bwrite to) (
       thn (brelse from)
           (brelse to))))))))"
  have lw: "length ws = length bs" by (simp add: ws_def log_writes_def)
  have "wp (for_each [0..<length bs] ?body) (\<lambda>_. ?I (length [0..<length bs])) s"
  proof (rule wp_for_each)
    fix k u assume "k < length [0..<length bs]" and I: "?I k u"
    then have k: "k < length bs" by simp
    then have kl: "k < LOGSIZE" using tr by (simp add: trans_ok_def)
    have fr: "bio_frame s u" using I by blast
    have u: "calm u" "log_hdr bs u" "lg_start u = a"
      using bio_frame_calm(1) [OF fr] log_hdr_frame [OF fr] bio_frame_log(1) [OF fr] s by simp_all
    have e: "k < length (lh_block u)" "bs ! k = lh_block u ! k" using log_hdr_nth [OF u(2) k] by simp_all
    have "dapply (take k ws) V (bs ! k) = V (bs ! k)"
    proof (rule dapply_other, rule notI)
      assume "bs ! k \<in> fst ` set (take k ws)"
      then have "bs ! k \<in> fst ` set ws" by (rule set_take_subset_fst)
      then show False
        using trans_okD(4) [OF tr] nth_mem [OF k] tr
        by (auto simp: ws_def fst_log_writes trans_ok_def)
    qed
    moreover have tk: "take (Suc k) ws = take k ws @ [(log_blk a k, V (bs ! k))]"
      using k lw by (simp add: take_Suc_conv_app_nth) (simp add: ws_def log_writes_def)
    ultimately have "\<exists>t. ?body k u = Done () t \<and> ?I (Suc k) t"
      using write_log_step [OF u(1) conjunct1 [OF I], of "log_blk a k" k "bs ! k"] u e nth_mem [OF k]
        trans_okD(2) [OF tr] trans_okD(4) [OF tr k] kl I bio_frame_trans [OF fr]
      by (fastforce simp: log_hdr_def log_blk_def)
    then show "wp (?body ([0..<length bs] ! k)) (\<lambda>_. ?I (Suc k)) u"
      using k by (simp add: wp_Done)
  qed (simp add: s)
  then show ?thesis
    using lw s(3) by (auto simp: write_log_def kmon_simps wp_Done log_hdr_def)
qed

lemma install_trans_abs:
  assumes s: "calm s" "bio_abs s V Map.empty (if recovering then {} else set bs)" "log_hdr bs s" "lg_start s = a"
    and tr: "trans_ok a bs"
  defines "ws \<equiv> home_writes a bs V"
  shows "\<exists>t. install_trans recovering s = Done () t \<and> bio_abs t (dapply ws V) Map.empty {} \<and> bio_frame s t \<and>
    disk t = dapply ws (disk s) \<and> dhist t = dhist s @ ws"
proof -
  let ?K = "\<lambda>k. if recovering then {} else set (drop k bs)"
  let ?I = "\<lambda>k u. bio_abs u (dapply (take k ws) V) Map.empty (?K k) \<and> bio_frame s u \<and>
    disk u = dapply (take k ws) (disk s) \<and> dhist u = dhist s @ take k ws"
  let ?body = "\<lambda>tail. bnd (gets lg_dev) (\<lambda>dev.
       bnd (gets lg_start) (\<lambda>start.
       bnd (bread dev (start + of_nat tail + 1)) (\<lambda>lbuf.
       bnd (lh_entry tail) (\<lambda>bno.
       bnd (bread dev bno) (\<lambda>dbuf.
       thn (buf_copy dbuf lbuf) (
       thn (bwrite dbuf) (
       thn (whenM (\<not> recovering) (bunpin dbuf)) (
       thn (brelse lbuf)
           (brelse dbuf)))))))))"
  have lw: "length ws = length bs" by (simp add: ws_def home_writes_def)
  have "wp (for_each [0..<length bs] ?body) (\<lambda>_. ?I (length [0..<length bs])) s"
  proof (rule wp_for_each)
    fix k u assume "k < length [0..<length bs]" and I: "?I k u"
    then have k: "k < length bs" by simp
    then have kl: "k < LOGSIZE" using tr by (simp add: trans_ok_def)
    have fr: "bio_frame s u" using I by blast
    have u: "calm u" "log_hdr bs u" "lg_start u = a"
      using bio_frame_calm(1) [OF fr] log_hdr_frame [OF fr] bio_frame_log(1) [OF fr] s by simp_all
    then have u4: "lg_dev u = ROOTDEV" by (simp add: log_hdr_def)
    have e: "k < length (lh_block u)" "bs ! k = lh_block u ! k" using log_hdr_nth [OF u(2) k] by simp_all
    have nl: "log_blk a k \<notin> set bs" by (rule trans_okD(4) [OF tr]) (use k in simp)
    have vl: "dapply (take k ws) V (log_blk a k) = V (log_blk a k)"
    proof (rule dapply_other, rule notI)
      assume "log_blk a k \<in> fst ` set (take k ws)"
      then have "log_blk a k \<in> fst ` set ws" by (rule set_take_subset_fst)
      then show False using nl by (simp add: ws_def fst_home_writes)
    qed
    have tk: "take (Suc k) ws = take k ws @ [(bs ! k, V (log_blk a k))]"
      using k lw by (simp add: take_Suc_conv_app_nth) (simp add: ws_def home_writes_def)
    have dk: "set (drop k bs) = insert (bs ! k) (set (drop (Suc k) bs))" "bs ! k \<notin> set (drop (Suc k) bs)"
      using k tr by (metis Cons_nth_drop_Suc list.simps(15))
        (metis Cons_nth_drop_Suc k distinct.simps(2) distinct_drop tr trans_ok_def)
    then have Kk: "?K k - {bs ! k} = ?K (Suc k)" by auto
    have sub: "?K k \<subseteq> set bs" by (simp add: set_drop_subset)
    then have "card (?K k) < NBUF" using trans_okD(2) [OF tr] card_mono [OF _ sub] by (simp add: le_less_trans)
    moreover have "bs ! k \<noteq> log_blk a k" using nl nth_mem [OF k] by metis
    moreover have "log_blk a k \<notin> ?K k" using nl sub by blast
    moreover have "if recovering then ?K k = {} else bs ! k \<in> ?K k" using dk(1) by simp
    ultimately obtain t where t: "?body k u = Done () t"
        "bio_abs t ((dapply (take k ws) V)(bs ! k := dapply (take k ws) V (log_blk a k))) Map.empty (?K k - {bs ! k})"
        "bio_frame u t" "disk t = (disk u)(bs ! k := dapply (take k ws) V (log_blk a k))"
        "dhist t = dhist u @ [(bs ! k, dapply (take k ws) V (log_blk a k))]"
      using install_step [OF u(1) conjunct1 [OF I] u4, of "log_blk a k" k "bs ! k" recovering] u(3) e
      unfolding log_blk_def by blast
    have "?I (Suc k) t"
      using t(2-5) I bio_frame_trans [OF fr] unfolding vl tk Kk by simp
    with t(1) have "\<exists>t. ?body k u = Done () t \<and> ?I (Suc k) t" by blast
    then show "wp (?body ([0..<length bs] ! k)) (\<lambda>_. ?I (Suc k)) u"
      using k by (simp add: wp_Done)
  qed (use s(2) in \<open>simp split: if_splits\<close>)
  then show ?thesis
    using lw s(3) by (auto simp: install_trans_def kmon_simps wp_Done log_hdr_def split: if_splits)
qed

subsection \<open>Commit\<close>

text \<open>All writes of a commit of the blocks \<open>bs\<close> with contents \<open>V\<close>, on a disk whose header is \<open>d\<close>.\<close>

definition commit_writes :: "u32 \<Rightarrow> u32 list \<Rightarrow> (u32 \<Rightarrow> block) \<Rightarrow> block \<Rightarrow> (u32 \<times> block) list" where
  "commit_writes a bs V d =
     log_writes a bs V @ [(a, hdr_bytes bs d)] @ map (\<lambda>b. (b, V b)) bs @ [(a, hdr_bytes [] (hdr_bytes bs d))]"

lemma log_hdr_reset: "log_hdr bs s \<Longrightarrow> log_hdr [] (s\<lparr>lh_n := 0\<rparr>)"
  by (simp add: log_hdr_def)

lemma dapply_log_blk:
  assumes "length bs \<le> LOGSIZE" "i < length bs"
  shows "dapply (log_writes a bs V) W (log_blk a i) = V (bs ! i)"
proof (rule dapply_mem)
  show "distinct (map fst (log_writes a bs V))"
    using assms(1) log_blk_inj by (auto simp: log_writes_def distinct_conv_nth)
  show "(log_blk a i, V (bs ! i)) \<in> set (log_writes a bs V)" using assms(2) by (auto simp: log_writes_def)
qed

lemma home_writes_logged:
  assumes "\<And>i. i < length bs \<Longrightarrow> W (log_blk a i) = V (bs ! i)"
  shows "home_writes a bs W = map (\<lambda>b. (b, V b)) bs"
  using assms by (intro nth_equalityI) (simp_all add: home_writes_def)

lemma dapply_log_other: "length bs < LOGSIZE \<Longrightarrow> b \<notin> log_region a \<Longrightarrow> dapply (log_writes a bs V) W b = W b"
  by (intro dapply_other) (auto simp: fst_log_writes log_region_def)

lemma dapply_log_hdr: "length bs \<le> LOGSIZE \<Longrightarrow> dapply (log_writes a bs V) W a = W a"
proof (rule dapply_other)
  assume l: "length bs \<le> LOGSIZE"
  show "a \<notin> fst ` set (log_writes a bs V)"
    unfolding fst_log_writes using l log_blk_hdr [of _ a] by auto (metis less_le_trans)
qed

lemma commit_abs:
  assumes s: "calm s" "bio_abs s V Map.empty (set bs)" "log_hdr bs s" "lg_start s = a" and tr: "trans_ok a bs"
    and ne: "bs \<noteq> []"
  shows "\<exists>t W. commit s = Done () t \<and> bio_abs t W Map.empty {} \<and> (\<forall>b. b \<notin> log_region a \<longrightarrow> W b = V b) \<and>
    log_hdr [] t \<and> log_frame s t \<and> dhist t = dhist s @ commit_writes a bs V (V a) \<and>
    disk t = dapply (commit_writes a bs V (V a)) (disk s) \<and> W a = hdr_bytes [] (hdr_bytes bs (V a))"
proof -
  have len: "length bs \<le> LOGSIZE" "length bs < LOGSIZE" using tr by (simp_all add: trans_ok_def)
  let ?V1 = "dapply (log_writes a bs V) V"
  obtain t1 where 1: "write_log s = Done () t1" "bio_abs t1 ?V1 Map.empty (set bs)" "bio_frame s t1"
      "disk t1 = dapply (log_writes a bs V) (disk s)" "dhist t1 = dhist s @ log_writes a bs V"
    using write_log_abs [OF s tr] by blast
  have f1: "calm t1" "log_hdr bs t1" "lg_start t1 = a"
    using bio_frame_calm(1) [OF 1(3)] log_hdr_frame [OF 1(3)] bio_frame_log(1) [OF 1(3)] s by simp_all
  have va: "?V1 a = V a" using dapply_log_hdr [OF len(1)] .
  define V2 where "V2 = ?V1(a := hdr_bytes bs (V a))"
  obtain t2 where 2: "write_head t1 = Done () t2" "bio_abs t2 V2 Map.empty (set bs)" "bio_frame t1 t2"
      "disk t2 = (disk t1)(a := hdr_bytes bs (V a))" "dhist t2 = dhist t1 @ [(a, hdr_bytes bs (V a))]"
    using write_head_abs [OF f1(1) 1(2) f1(2,3) trans_okD(3,2) [OF tr]] unfolding va V2_def by auto
  have f2: "calm t2" "log_hdr bs t2" "lg_start t2 = a"
    using bio_frame_calm(1) [OF 2(3)] log_hdr_frame [OF 2(3)] bio_frame_log(1) [OF 2(3)] f1 by simp_all
  have hw: "home_writes a bs V2 = map (\<lambda>b. (b, V b)) bs"
  proof (rule home_writes_logged)
    fix i assume "i < length bs"
    then show "V2 (log_blk a i) = V (bs ! i)"
      using dapply_log_blk [OF len(1)] log_blk_hdr [of i a] len by (simp add: V2_def)
  qed
  let ?hw = "map (\<lambda>b. (b, V b)) bs"
  obtain t3 where 3: "install_trans False t2 = Done () t3" "bio_abs t3 (dapply ?hw V2) Map.empty {}"
      "bio_frame t2 t3" "disk t3 = dapply ?hw (disk t2)" "dhist t3 = dhist t2 @ ?hw"
    using install_trans_abs [OF f2(1) _ f2(2,3) tr, of V2 False] 2(2) unfolding hw by auto
  define t4 where "t4 = t3\<lparr>lh_n := 0\<rparr>"
  have f4: "calm t4" "log_hdr [] t4" "lg_start t4 = a" "bio_abs t4 (dapply ?hw V2) Map.empty {}"
    using bio_frame_calm(1) [OF 3(3)] log_hdr_frame [OF 3(3)] bio_frame_log(1) [OF 3(3)] f2 3(2) log_hdr_reset [of bs t3]
    by (simp_all add: t4_def)
  have "dapply ?hw V2 a = V2 a" using trans_okD(3) [OF tr] by (intro dapply_other) auto
  then have va4: "dapply ?hw V2 a = hdr_bytes bs (V a)" by (simp add: V2_def)
  obtain t5 where 5: "write_head t4 = Done () t5"
      "bio_abs t5 ((dapply ?hw V2)(a := hdr_bytes [] (hdr_bytes bs (V a)))) Map.empty {}" "bio_frame t4 t5"
      "disk t5 = (disk t4)(a := hdr_bytes [] (hdr_bytes bs (V a)))"
      "dhist t5 = dhist t4 @ [(a, hdr_bytes [] (hdr_bytes bs (V a)))]"
    using write_head_abs [OF f4(1,4,2,3)] unfolding va4 by (auto simp: NBUF_def MAXOPBLOCKS_def)
  have W: "((dapply ?hw V2)(a := hdr_bytes [] (hdr_bytes bs (V a)))) b = V b" if "b \<notin> log_region a" for b
  proof -
    have "b \<noteq> a" using that by (auto simp: log_region_def)
    moreover have "dapply ?hw V2 b = V b"
    proof (cases "b \<in> set bs")
      case True
      then show ?thesis using tr by (intro dapply_mem) (auto simp: trans_ok_def comp_def)
    next
      case False
      then have "dapply ?hw V2 b = V2 b" by (intro dapply_other) auto
      then show ?thesis using dapply_log_other [OF len(2) that] \<open>b \<noteq> a\<close> by (simp add: V2_def)
    qed
    ultimately show ?thesis by simp
  qed
  have "log_frame t3 t4" by (simp add: t4_def)
  then have fr: "log_frame s t5"
    using log_frame_trans bio_log_frame 1(3) 2(3) 3(3) 5(3) by metis
  have run: "commit s = Done () t5"
    using 1(1) 2(1) 3(1) 5(1) ne s(3) by (simp add: commit_def kmon_simps bnd_run log_hdr_def t4_def)
  have "log_hdr [] t5" using f4(2) log_hdr_frame [OF 5(3)] by simp
  moreover have "dhist t5 = dhist s @ commit_writes a bs V (V a)"
    "disk t5 = dapply (commit_writes a bs V (V a)) (disk s)"
    using 1(4,5) 2(4,5) 3(4,5) 5(4,5) by (simp_all add: t4_def commit_writes_def)
  ultimately show ?thesis using run 5(2) W fr by (intro exI) auto
qed

subsection \<open>Transactions\<close>

lemma begin_op_loop_go:
  "\<not> lg_committing s \<Longrightarrow> \<not> log_full s \<Longrightarrow>
     begin_op_loop n s = thn (modify (\<lambda>s. s\<lparr>lg_outstanding := lg_outstanding s + 1\<rparr>)) (release LkLog) s"
  by (cases n) (simp_all add: kmon_simps)

lemma begin_op_abs:
  assumes "calm s" "\<not> lg_committing s" "\<not> log_full s"
  shows "begin_op s = Done () (s\<lparr>lg_outstanding := lg_outstanding s + 1\<rparr>)"
  using assms calmD [OF assms(1)]
  by (simp add: begin_op_def kmon_simps bnd_run lock_simps begin_op_loop_go)

lemma find_upt_None: "List.find P [0..<n] = None \<longleftrightarrow> (\<forall>i < n. \<not> P i)"
  by (auto simp: find_None_iff)

lemma log_slot_new: "length bs \<le> length xs \<Longrightarrow> take (length bs) xs = bs \<Longrightarrow> bno \<notin> set bs \<Longrightarrow>
    log_slot (length bs) xs bno = length bs"
proof -
  assume a: "length bs \<le> length xs" "take (length bs) xs = bs" "bno \<notin> set bs"
  have "xs ! i \<noteq> bno" if "i < length bs" for i
    using a that by (metis nth_mem nth_take)
  then have "List.find (\<lambda>i. xs ! i = bno) [0..<length bs] = None" by (simp add: find_upt_None)
  then show ?thesis by (simp add: log_slot_def)
qed

lemma log_slot_old:
  assumes "take (length bs) xs = bs" "bno \<in> set bs"
  shows "log_slot (length bs) xs bno < length bs" "xs ! log_slot (length bs) xs bno = bno"
proof -
  obtain i where i: "i < length bs" "xs ! i = bno" using assms by (metis in_set_conv_nth nth_take)
  then have "List.find (\<lambda>i. xs ! i = bno) [0..<length bs] \<noteq> None" by (auto simp: find_upt_None)
  then obtain j where j: "List.find (\<lambda>i. xs ! i = bno) [0..<length bs] = Some j" by auto
  then have "log_slot (length bs) xs bno = j" by (simp add: log_slot_def)
  then show "log_slot (length bs) xs bno < length bs" "xs ! log_slot (length bs) xs bno = bno"
    using j by (auto simp: find_Some_iff)
qed

definition log_add :: "u32 \<Rightarrow> u32 list \<Rightarrow> u32 list" where
  "log_add bno bs = (if bno \<in> set bs then bs else bs @ [bno])"

lemma set_log_add [simp]: "set (log_add bno bs) = insert bno (set bs)"
  by (auto simp: log_add_def)

lemma acquired_bpin:
  assumes "calm s"
  shows "bpin b (acquired LkLog s) = Done () (acquired LkLog (buf_upd b (\<lambda>x. x\<lparr>b_refcnt := b_refcnt x + 1\<rparr>) s))"
  using calmD [OF assms]
  by (simp add: bpin_def kmon_simps bnd_run lock_simps release_acquired_under acquired_commute [of LkBcache LkLog])

lemma buf_upd_lh_block: "buf_upd b f (lh_block_update g s) = lh_block_update g (buf_upd b f s)"
  by (simp add: buf_upd_def)

lemma log_write_abs:
  assumes s: "calm s" "bio_abs s V H (set bs)" "log_hdr bs s" "H b = Some bno"
    and g: "int (length bs) < lg_size s - 1" "length bs < LOGSIZE" "1 \<le> lg_outstanding s"
  shows "\<exists>t. log_write b s = Done () t \<and> bio_abs t V H (set (log_add bno bs)) \<and> log_hdr (log_add bno bs) t \<and>
    log_frame s t \<and> disk t = disk s \<and> dhist t = dhist s"
proof -
  have h: "lh_n s = int (length bs)" "length (lh_block s) = LOGSIZE" "take (length bs) (lh_block s) = bs" "lg_dev s = ROOTDEV"
    using s(3) by (simp_all add: log_hdr_def)
  have bn: "b_blockno (bufs s ! b) = bno" using held_buf(8) [OF s(2,4)] .
  show ?thesis
  proof (cases "bno \<in> set bs")
    case True
    let ?i = "log_slot (length bs) (lh_block s) bno"
    have i: "?i < length bs" "(lh_block s)[?i := bno] = lh_block s"
      using log_slot_old [OF h(3) True] by (auto simp: list_update_same_conv h(2)) (metis list_update_id)
    have "log_write b s = Done () (s\<lparr>lh_block := lh_block s\<rparr>)"
      using calmD [OF s(1)] g h i bn
      by (simp add: log_write_def kmon_simps bnd_run lock_simps)
    then have "log_write b s = Done () s" by simp
    moreover have "insert bno (set bs) = set bs" using True by blast
    ultimately show ?thesis
      using s True by (intro exI [of _ s]) (simp add: log_add_def)
  next
    case False
    have i: "log_slot (length bs) (lh_block s) bno = length bs"
      using log_slot_new [OF _ h(3) False] g(2) h(2) by simp
    let ?f = "\<lambda>x. x\<lparr>b_refcnt := b_refcnt x + 1\<rparr>"
    obtain t where t: "bpin b s = Done () t" "bio_abs t V H (insert bno (set bs))" "bio_frame s t"
        "disk t = disk s" "dhist t = dhist s"
      using bpin_abs [OF s(1,2,4) False] by blast
    have teq: "t = buf_upd b ?f s"
      using t(1) calmD [OF s(1)] by (simp add: bpin_def kmon_simps bnd_run lock_simps)
    define u where "u = t\<lparr>lh_block := (lh_block t)[length bs := bno], lh_n := lh_n t + 1\<rparr>"
    have lt: "lh_block t = lh_block s" "lh_n t = lh_n s" "lg_dev t = lg_dev s" "lg_outstanding t = lg_outstanding s"
      using bio_frame_log [OF t(3)] by simp_all
    have c: "calm (s\<lparr>lh_block := x\<rparr>)" for x using s(1) by simp
    have "log_write b s = Done () u"
      using calmD [OF s(1)] g h i bn lt unfolding u_def teq
      by (simp add: log_write_def kmon_simps bnd_run lock_simps acquired_bpin [OF c] buf_upd_lh_block)
    moreover have "log_hdr (bs @ [bno]) u"
      using g(2) h lt by (simp add: log_hdr_def u_def take_Suc_conv_app_nth)
    moreover have "bio_abs u V H (set (log_add bno bs))" using t(2) by (simp add: u_def)
    moreover have "log_frame t u" unfolding u_def using log_frame_trans log_frame_upd(1,2) by blast
    then have "log_frame s u" using log_frame_trans bio_log_frame [OF t(3)] by blast
    ultimately show ?thesis using t(4,5) lt False by (intro exI [of _ u]) (simp add: u_def log_add_def)
  qed
qed

end
