(* ===== verification/Fs.thy ===== *)
theory Fs
  imports Log
begin

text \<open>
  \<open>kernel/fs.c\<close>: the file system above the log. Blocks (the free map), inodes (the table of in-memory
  inodes and their copies on disk), file contents, directories and path names. An inode pointer is
  the index of its table entry, the null pointer is \<open>None\<close>; blocks hold the on-disk structures as
  little-endian fields. Objects of the kernel's own (a directory entry on the stack) are passed as
  byte sequences instead of addresses.
\<close>

subsection \<open>State\<close>

record inode =
  i_dev :: u32
  i_inum :: u32
  i_ref :: int
  i_valid :: bool
  i_type :: u16
  i_major :: u16
  i_minor :: u16
  i_nlink :: u16
  i_size :: u32
  i_addrs :: "u32 list"

record fsst = logst +
  sb :: superblock
  inodes :: "inode list"

definition ino_upd :: "nat \<Rightarrow> (inode \<Rightarrow> inode) \<Rightarrow> ('z fsst_scheme, unit) kmon" where
  "ino_upd i f = modify (\<lambda>s. s\<lparr>inodes := (inodes s)[i := f (inodes s ! i)]\<rparr>)"

definition ino_get :: "nat \<Rightarrow> (inode \<Rightarrow> 'a) \<Rightarrow> ('z fsst_scheme, 'a) kmon" where
  "ino_get i f = gets (\<lambda>s. f (inodes s ! i))"

definition bdata :: "nat \<Rightarrow> ('z biost_scheme, block) kmon" where
  "bdata bp = gets (\<lambda>s. b_data (bufs s ! bp))"

definition bdata_upd :: "nat \<Rightarrow> (block \<Rightarrow> block) \<Rightarrow> ('z biost_scheme, unit) kmon" where
  "bdata_upd bp f = modify (buf_upd bp (\<lambda>b. b\<lparr>b_data := f (b_data b)\<rparr>))"

definition IBLOCK :: "nat \<Rightarrow> superblock \<Rightarrow> u32" where
  "IBLOCK i b = of_nat (i div IPB) + sb_inodestart b"

definition BBLOCK :: "nat \<Rightarrow> superblock \<Rightarrow> u32" where
  "BBLOCK n b = of_nat (n div BPB) + sb_bmapstart b"

subsection \<open>The super block\<close>

definition get_superblock :: "u8 list \<Rightarrow> superblock" where
  "get_superblock d = \<lparr>sb_magic = get32 0 d, sb_size = get32 4 d, sb_nblocks = get32 8 d, sb_ninodes = get32 12 d,
     sb_nlog = get32 16 d, sb_logstart = get32 20 d, sb_inodestart = get32 24 d, sb_bmapstart = get32 28 d\<rparr>"

definition readsb :: "u32 \<Rightarrow> ('z fsst_scheme, unit) kmon" where
  "readsb dev =
     bnd (bread dev 1) (\<lambda>bp.
     bnd (bdata bp) (\<lambda>d.
     thn (modify (\<lambda>s. s\<lparr>sb := get_superblock d\<rparr>))
         (brelse bp)))"

definition fsinit :: "u32 \<Rightarrow> ('z fsst_scheme, unit) kmon" where
  "fsinit dev =
     thn (readsb dev) (
     bnd (gets sb) (\<lambda>sb.
     if sb_magic sb \<noteq> FSMAGIC then panic ''invalid file system''
     else initlog dev sb))"

subsection \<open>Blocks\<close>

definition bzero :: "u32 \<Rightarrow> u32 \<Rightarrow> ('z fsst_scheme, unit) kmon" where
  "bzero dev bno =
     bnd (bread dev bno) (\<lambda>bp.
     thn (bdata_upd bp (\<lambda>d. replicate BSIZE 0)) (
     thn (log_write bp)
         (brelse bp)))"

definition bit_mask :: "nat \<Rightarrow> u8" where
  "bit_mask bi = push_bit (bi mod 8) 1"

text \<open>The inner loop of \<open>balloc\<close>: the first clear bit of one block of the map.\<close>

definition free_bit :: "block \<Rightarrow> nat \<Rightarrow> nat option" where
  "free_bit d n = List.find (\<lambda>bi. d ! (bi div 8) AND bit_mask bi = 0) [0..<n]"

text \<open>
  The outer loop, over the first block number each block of the map stands for. The loop variable is
  a C int: an increment beyond its range is undefined behaviour, a \<open>Fault\<close>.
\<close>

fun balloc_loop :: "u32 \<Rightarrow> nat list \<Rightarrow> ('z fsst_scheme, u32) kmon" where
  "balloc_loop dev [] = thn (printf (''balloc: out of blocks'' @ [CHR 0x0A]) []) (ret 0)"
| "balloc_loop dev (b # bs) =
     bnd (gets sb) (\<lambda>sb.
     bnd (bread dev (BBLOCK b sb)) (\<lambda>bp.
     bnd (bdata bp) (\<lambda>d.
     case free_bit d (min BPB (unat (sb_size sb) - b)) of
       Some bi \<Rightarrow>
         thn (bdata_upd bp (\<lambda>d. d[bi div 8 := d ! (bi div 8) OR bit_mask bi])) (
         thn (log_write bp) (
         thn (brelse bp) (
         thn (bzero dev (of_nat (b + bi)))
             (ret (of_nat (b + bi))))))
     | None \<Rightarrow> thn (brelse bp) (if 2 ^ 31 \<le> b + BPB then fault else balloc_loop dev bs))))"

definition balloc :: "u32 \<Rightarrow> ('z fsst_scheme, u32) kmon" where
  "balloc dev =
     bnd (gets sb) (\<lambda>sb.
     balloc_loop dev (map (\<lambda>i. i * BPB) [0..<(unat (sb_size sb) + BPB - 1) div BPB]))"

definition bfree :: "u32 \<Rightarrow> u32 \<Rightarrow> ('z fsst_scheme, unit) kmon" where
  "bfree dev b =
     bnd (gets sb) (\<lambda>sb.
     bnd (bread dev (BBLOCK (unat b) sb)) (\<lambda>bp.
     bnd (ret (unat b mod BPB)) (\<lambda>bi.
     bnd (bdata bp) (\<lambda>d.
     if d ! (bi div 8) AND bit_mask bi = 0 then panic ''freeing free block'' else
     thn (bdata_upd bp (\<lambda>d. d[bi div 8 := d ! (bi div 8) AND NOT (bit_mask bi)])) (
     thn (log_write bp)
         (brelse bp))))))"

subsection \<open>The inode table\<close>

definition iinit :: "('z fsst_scheme, unit) kmon" where
  "iinit =
     thn (initlock LkItable ''itable'')
         (for_each [0..<NINODE] (\<lambda>i. initsleeplock (SInode i) ''inode''))"

text \<open>One pass over the table: the entry that holds the inode, else the first empty entry seen.\<close>

fun iget_scan :: "u32 \<Rightarrow> u32 \<Rightarrow> nat \<Rightarrow> inode list \<Rightarrow> nat option \<Rightarrow> nat option \<times> nat option" where
  "iget_scan dev inum i [] vacant = (None, vacant)"
| "iget_scan dev inum i (ip # rest) vacant =
     (if i_ref ip > 0 \<and> i_dev ip = dev \<and> i_inum ip = inum then (Some i, vacant)
      else iget_scan dev inum (Suc i) rest (if vacant = None \<and> i_ref ip = 0 then Some i else vacant))"

definition iget :: "u32 \<Rightarrow> u32 \<Rightarrow> ('z fsst_scheme, nat) kmon" where
  "iget dev inum =
     thn (acquire LkItable) (
     bnd (gets (\<lambda>s. iget_scan dev inum 0 (inodes s) None)) (\<lambda>(hit, vacant).
     case hit of
       Some i \<Rightarrow> thn (ino_upd i (\<lambda>ip. ip\<lparr>i_ref := i_ref ip + 1\<rparr>)) (thn (release LkItable) (ret i))
     | None \<Rightarrow> (case vacant of
         None \<Rightarrow> panic ''iget: no inodes''
       | Some i \<Rightarrow>
           thn (ino_upd i (\<lambda>ip. ip\<lparr>i_dev := dev, i_inum := inum, i_ref := 1, i_valid := False\<rparr>)) (
           thn (release LkItable) (ret i)))))"

definition dinode_at :: "nat \<Rightarrow> nat" where
  "dinode_at inum = (inum mod IPB) * DINODE_SIZE"

fun ialloc_loop :: "u32 \<Rightarrow> u16 \<Rightarrow> nat list \<Rightarrow> ('z fsst_scheme, nat option) kmon" where
  "ialloc_loop dev ty [] = thn (printf (''ialloc: no inodes'' @ [CHR 0x0A]) []) (ret None)"
| "ialloc_loop dev ty (inum # rest) =
     bnd (gets sb) (\<lambda>sb.
     bnd (bread dev (IBLOCK inum sb)) (\<lambda>bp.
     bnd (bdata bp) (\<lambda>d.
     if get16 (dinode_at inum) d = 0 then
       thn (bdata_upd bp (put_bytes (dinode_at inum) (replicate DINODE_SIZE 0))) (
       thn (bdata_upd bp (put16 (dinode_at inum) ty)) (
       thn (log_write bp) (
       thn (brelse bp)
           (bnd (iget dev (of_nat inum)) (\<lambda>ip. ret (Some ip))))))
     else
       thn (brelse bp) (ialloc_loop dev ty rest))))"

definition ialloc :: "u32 \<Rightarrow> u16 \<Rightarrow> ('z fsst_scheme, nat option) kmon" where
  "ialloc dev ty = bnd (gets sb) (\<lambda>sb. ialloc_loop dev ty [1..<unat (sb_ninodes sb)])"

definition put_dinode :: "nat \<Rightarrow> inode \<Rightarrow> block \<Rightarrow> block" where
  "put_dinode k ip d =
     put_bytes (k + 12) (concat (map (to_le 4) (i_addrs ip)))
       (put32 (k + 8) (i_size ip)
       (put16 (k + 6) (i_nlink ip)
       (put16 (k + 4) (i_minor ip)
       (put16 (k + 2) (i_major ip)
       (put16 k (i_type ip) d)))))"

definition iupdate :: "nat \<Rightarrow> ('z fsst_scheme, unit) kmon" where
  "iupdate i =
     bnd (ino_get i id) (\<lambda>ip.
     bnd (gets sb) (\<lambda>sb.
     bnd (bread (i_dev ip) (IBLOCK (unat (i_inum ip)) sb)) (\<lambda>bp.
     thn (bdata_upd bp (put_dinode (dinode_at (unat (i_inum ip))) ip)) (
     thn (log_write bp)
         (brelse bp)))))"

definition idup :: "nat option \<Rightarrow> ('z fsst_scheme, nat option) kmon" where
  "idup ip = (case ip of
     None \<Rightarrow> fault
   | Some i \<Rightarrow>
       thn (acquire LkItable) (
       thn (ino_upd i (\<lambda>ip. ip\<lparr>i_ref := i_ref ip + 1\<rparr>)) (
       thn (release LkItable)
           (ret ip))))"

definition get_dinode :: "nat \<Rightarrow> block \<Rightarrow> inode \<Rightarrow> inode" where
  "get_dinode k d ip = ip\<lparr>i_type := get16 k d, i_major := get16 (k + 2) d, i_minor := get16 (k + 4) d,
     i_nlink := get16 (k + 6) d, i_size := get32 (k + 8) d,
     i_addrs := map (\<lambda>j. get32 (k + 12 + 4 * j) d) [0..<NDIRECT + 1]\<rparr>"

definition ilock :: "nat option \<Rightarrow> ('z fsst_scheme, unit) kmon" where
  "ilock ip = (case ip of
     None \<Rightarrow> panic ''ilock''
   | Some i \<Rightarrow>
       bnd (ino_get i i_ref) (\<lambda>r.
       if r < 1 then panic ''ilock'' else
       thn (acquiresleep (SInode i)) (
       bnd (ino_get i id) (\<lambda>ip.
       whenM (\<not> i_valid ip) (
         bnd (gets sb) (\<lambda>sb.
         bnd (bread (i_dev ip) (IBLOCK (unat (i_inum ip)) sb)) (\<lambda>bp.
         bnd (bdata bp) (\<lambda>d.
         thn (ino_upd i (get_dinode (dinode_at (unat (i_inum ip))) d)) (
         thn (brelse bp) (
         thn (ino_upd i (\<lambda>ip. ip\<lparr>i_valid := True\<rparr>)) (
         bnd (ino_get i i_type) (\<lambda>ty.
         if ty = 0 then panic ''ilock: no type'' else ret ()))))))))))))"

definition iunlock :: "nat option \<Rightarrow> ('z fsst_scheme, unit) kmon" where
  "iunlock ip = (case ip of
     None \<Rightarrow> panic ''iunlock''
   | Some i \<Rightarrow>
       bnd (holdingsleep (SInode i)) (\<lambda>h.
       bnd (ino_get i i_ref) (\<lambda>r.
       if \<not> h \<or> r < 1 then panic ''iunlock''
       else releasesleep (SInode i))))"

subsection \<open>File contents\<close>

text \<open>The entry of \<open>addrs\<close> at an index; the array has thirteen of them.\<close>

definition set_addr :: "nat \<Rightarrow> u32 \<Rightarrow> inode \<Rightarrow> inode" where
  "set_addr bn a ip = ip\<lparr>i_addrs := (i_addrs ip)[bn := a]\<rparr>"

text \<open>A direct slot of an inode, filled with a new block when it is empty.\<close>

definition bmap_slot :: "nat \<Rightarrow> nat \<Rightarrow> ('z fsst_scheme, u32) kmon" where
  "bmap_slot i k =
     bnd (ino_get i (\<lambda>ip. i_addrs ip ! k)) (\<lambda>addr.
     if addr = 0 then
       bnd (ino_get i i_dev) (\<lambda>dev.
       bnd (balloc dev) (\<lambda>addr.
       if addr = 0 then ret 0 else
       thn (ino_upd i (set_addr k addr)) (ret addr)))
     else ret addr)"

definition bmap :: "nat \<Rightarrow> nat \<Rightarrow> ('z fsst_scheme, u32) kmon" where
  "bmap i bn =
     (if bn < NDIRECT then bmap_slot i bn
      else if bn - NDIRECT < NINDIRECT then
        bnd (bmap_slot i NDIRECT) (\<lambda>addr.
        if addr = 0 then ret 0 else
        bnd (ino_get i i_dev) (\<lambda>dev.
        bnd (bread dev addr) (\<lambda>bp.
        bnd (bdata bp) (\<lambda>d.
        bnd (if get32 (4 * (bn - NDIRECT)) d = 0 then
               bnd (balloc dev) (\<lambda>addr.
               thn (whenM (addr \<noteq> 0) (
                      thn (bdata_upd bp (put32 (4 * (bn - NDIRECT)) addr))
                          (log_write bp)))
                   (ret addr))
             else ret (get32 (4 * (bn - NDIRECT)) d)) (\<lambda>addr.
        thn (brelse bp) (ret addr))))))
      else panic ''bmap: out of range'')"

definition itrunc :: "nat \<Rightarrow> ('z fsst_scheme, unit) kmon" where
  "itrunc i =
     thn (for_each [0..<NDIRECT] (\<lambda>k.
            bnd (ino_get i id) (\<lambda>ip.
            whenM (i_addrs ip ! k \<noteq> 0) (
              thn (bfree (i_dev ip) (i_addrs ip ! k))
                  (ino_upd i (set_addr k 0)))))) (
     bnd (ino_get i id) (\<lambda>ip.
     thn (whenM (i_addrs ip ! NDIRECT \<noteq> 0) (
            bnd (bread (i_dev ip) (i_addrs ip ! NDIRECT)) (\<lambda>bp.
            thn (for_each [0..<NINDIRECT] (\<lambda>j.
                   bnd (bdata bp) (\<lambda>a.
                   whenM (get32 (4 * j) a \<noteq> 0) (bfree (i_dev ip) (get32 (4 * j) a))))) (
            thn (brelse bp) (
            thn (bfree (i_dev ip) (i_addrs ip ! NDIRECT))
                (ino_upd i (set_addr NDIRECT 0))))))) (
     thn (ino_upd i (\<lambda>ip. ip\<lparr>i_size := 0\<rparr>))
         (iupdate i))))"

definition iput :: "nat option \<Rightarrow> ('z fsst_scheme, unit) kmon" where
  "iput ip = (case ip of
     None \<Rightarrow> fault
   | Some i \<Rightarrow>
       thn (acquire LkItable) (
       bnd (ino_get i id) (\<lambda>ip.
       thn (whenM (i_ref ip = 1 \<and> i_valid ip \<and> i_nlink ip = 0) (
              thn (acquiresleep (SInode i)) (
              thn (release LkItable) (
              thn (itrunc i) (
              thn (ino_upd i (\<lambda>ip. ip\<lparr>i_type := 0\<rparr>)) (
              thn (iupdate i) (
              thn (ino_upd i (\<lambda>ip. ip\<lparr>i_valid := False\<rparr>)) (
              thn (releasesleep (SInode i))
                  (acquire LkItable))))))))) (
       thn (ino_upd i (\<lambda>ip. ip\<lparr>i_ref := i_ref ip - 1\<rparr>))
           (release LkItable)))))"

definition iunlockput :: "nat option \<Rightarrow> ('z fsst_scheme, unit) kmon" where
  "iunlockput ip = thn (iunlock ip) (iput ip)"

record stat =
  st_dev :: int
  st_ino :: u32
  st_type :: u16
  st_nlink :: u16
  st_size :: u64

definition stati :: "nat \<Rightarrow> ('z fsst_scheme, stat) kmon" where
  "stati i = ino_get i (\<lambda>ip. \<lparr>st_dev = sint (i_dev ip), st_ino = i_inum ip, st_type = i_type ip,
     st_nlink = i_nlink ip, st_size = ucast (i_size ip)\<rparr>)"

text \<open>
  The loop of \<open>readi\<close> with \<open>n\<close> bytes to go: the bytes read so far and their number, or \<open>-1\<close>. The
  guards of \<open>readi\<close> exclude wrap-around of the offset.
\<close>

definition block_room :: "nat \<Rightarrow> nat \<Rightarrow> nat" where
  "block_room n off = min n (BSIZE - off mod BSIZE)"

lemma block_room_pos: "0 < n \<Longrightarrow> 0 < block_room n off"
  by (simp add: block_room_def BSIZE_def)

function readi_loop :: "nat \<Rightarrow> kdst \<Rightarrow> nat \<Rightarrow> nat \<Rightarrow> u8 list \<Rightarrow> ('z fsst_scheme, int \<times> u8 list) kmon" where
  "readi_loop i dst off n got =
     (if n = 0 then ret (int (length got), got) else
      bnd (bmap i (off div BSIZE)) (\<lambda>addr.
      if addr = 0 then ret (int (length got), got) else
      bnd (ino_get i i_dev) (\<lambda>dev.
      bnd (bread dev addr) (\<lambda>bp.
      bnd (bdata bp) (\<lambda>d.
      bnd (either_copyout_obj dst (get_bytes (off mod BSIZE) (block_room n off) d)) (\<lambda>r.
      thn (brelse bp) (
      if r = -1 then ret (-1, got) else
      readi_loop i (dst_add dst (block_room n off)) (off + block_room n off) (n - block_room n off)
        (got @ get_bytes (off mod BSIZE) (block_room n off) d))))))))"
  by pat_completeness auto
termination by (relation "measure (\<lambda>(i, dst, off, n, got). n)") (auto simp: block_room_pos)

declare readi_loop.simps [simp del]

definition readi :: "nat \<Rightarrow> kdst \<Rightarrow> u32 \<Rightarrow> u32 \<Rightarrow> ('z fsst_scheme, int \<times> u8 list) kmon" where
  "readi i dst off n =
     bnd (ino_get i i_size) (\<lambda>size.
     if off > size \<or> off + n < off then ret (0, []) else
     readi_loop i dst (unat off) (unat (if off + n > size then size - off else n)) [])"

text \<open>
  The loop of \<open>writei\<close>: the number of bytes written and the offset reached. When the source faults
  part of the way, the bytes already copied stay in the buffer but the block is not logged.
\<close>

function writei_loop :: "nat \<Rightarrow> ksrc \<Rightarrow> nat \<Rightarrow> nat \<Rightarrow> nat \<Rightarrow> ('z fsst_scheme, nat \<times> nat) kmon" where
  "writei_loop i src off n tot =
     (if n = 0 then ret (tot, off) else
      bnd (bmap i (off div BSIZE)) (\<lambda>addr.
      if addr = 0 then ret (tot, off) else
      bnd (ino_get i i_dev) (\<lambda>dev.
      bnd (bread dev addr) (\<lambda>bp.
      bnd (either_copyin_obj src (block_room n off)) (\<lambda>(r, bs).
      thn (bdata_upd bp (put_bytes (off mod BSIZE) bs)) (
      if r = -1 then thn (brelse bp) (ret (tot, off)) else
      thn (log_write bp) (
      thn (brelse bp)
          (writei_loop i (src_add src (block_room n off)) (off + block_room n off) (n - block_room n off)
             (tot + block_room n off)))))))))"
  by pat_completeness auto
termination by (relation "measure (\<lambda>(i, src, off, n, tot). n)") (auto simp: block_room_pos)

declare writei_loop.simps [simp del]

definition writei :: "nat \<Rightarrow> ksrc \<Rightarrow> u32 \<Rightarrow> u32 \<Rightarrow> ('z fsst_scheme, int) kmon" where
  "writei i src off n =
     bnd (ino_get i i_size) (\<lambda>size.
     if off > size \<or> off + n < off then ret (-1)
     else if unat (off + n) > MAXFILE * BSIZE then ret (-1) else
     bnd (writei_loop i src (unat off) (unat n) 0) (\<lambda>(tot, off').
     bnd (ino_get i i_size) (\<lambda>size.
     thn (whenM (off' > unat size) (ino_upd i (\<lambda>ip. ip\<lparr>i_size := of_nat off'\<rparr>))) (
     thn (iupdate i) (
     ret (int tot))))))"

subsection \<open>Directories\<close>

definition namecmp :: "u8 list \<Rightarrow> u8 list \<Rightarrow> int" where
  "namecmp s t = strncmp (lview s) (lview t) DIRSIZ"

definition dirent_inum :: "u8 list \<Rightarrow> u16" where
  "dirent_inum de = get16 0 de"

definition dirent_name :: "u8 list \<Rightarrow> u8 list" where
  "dirent_name de = get_bytes 2 DIRSIZ de"

definition dirent_offs :: "u32 \<Rightarrow> nat list" where
  "dirent_offs sz = map (\<lambda>k. k * DIRENT_SIZE) [0..<(unat sz + DIRENT_SIZE - 1) div DIRENT_SIZE]"

fun dirlookup_loop :: "nat \<Rightarrow> u8 list \<Rightarrow> nat list \<Rightarrow> ('z fsst_scheme, (nat \<times> u32) option) kmon" where
  "dirlookup_loop dp name [] = ret None"
| "dirlookup_loop dp name (off # offs) =
     bnd (readi dp DObj (of_nat off) (of_nat DIRENT_SIZE)) (\<lambda>(r, de).
     if r \<noteq> int DIRENT_SIZE then panic ''dirlookup read'' else
     if dirent_inum de = 0 then dirlookup_loop dp name offs else
     if namecmp name (dirent_name de) = 0 then
       bnd (ino_get dp i_dev) (\<lambda>dev.
       bnd (iget dev (ucast (dirent_inum de))) (\<lambda>ip.
       ret (Some (ip, of_nat off))))
     else dirlookup_loop dp name offs)"

definition dirlookup :: "nat \<Rightarrow> u8 list \<Rightarrow> ('z fsst_scheme, (nat \<times> u32) option) kmon" where
  "dirlookup dp name =
     bnd (ino_get dp i_type) (\<lambda>ty.
     if ty \<noteq> T_DIR then panic ''dirlookup not DIR'' else
     bnd (ino_get dp i_size) (\<lambda>size.
     dirlookup_loop dp name (dirent_offs size)))"

text \<open>The first empty entry, or the offset just after the last one.\<close>

fun dirlink_slot :: "nat \<Rightarrow> nat list \<Rightarrow> nat \<Rightarrow> ('z fsst_scheme, nat) kmon" where
  "dirlink_slot dp [] fin = ret fin"
| "dirlink_slot dp (off # offs) fin =
     bnd (readi dp DObj (of_nat off) (of_nat DIRENT_SIZE)) (\<lambda>(r, de).
     if r \<noteq> int DIRENT_SIZE then panic ''dirlink read'' else
     if dirent_inum de = 0 then ret off else dirlink_slot dp offs fin)"

definition dirent_bytes :: "u8 list \<Rightarrow> u32 \<Rightarrow> u8 list" where
  "dirent_bytes name inum = to_le 2 (ucast inum :: u16) @ strncpy (lview name) DIRSIZ"

definition dirlink :: "nat \<Rightarrow> u8 list \<Rightarrow> u32 \<Rightarrow> ('z fsst_scheme, int) kmon" where
  "dirlink dp name inum =
     bnd (dirlookup dp name) (\<lambda>found.
     case found of
       Some (ip, _) \<Rightarrow> thn (iput (Some ip)) (ret (-1))
     | None \<Rightarrow>
         bnd (ino_get dp i_size) (\<lambda>size.
         bnd (dirlink_slot dp (dirent_offs size) (length (dirent_offs size) * DIRENT_SIZE)) (\<lambda>off.
         bnd (writei dp (SObj (dirent_bytes name inum)) (of_nat off) (of_nat DIRENT_SIZE)) (\<lambda>w.
         if w \<noteq> int DIRENT_SIZE then ret (-1) else ret 0))))"

subsection \<open>Path names\<close>

text \<open>
  A path is the sequence of characters of a C string. The name is the caller's array: a short element
  overwrites its beginning and ends with a NUL, a long one fills it without a NUL.
\<close>

definition slash :: u8 where "slash = 0x2F"

definition skipelem :: "u8 list \<Rightarrow> u8 list \<Rightarrow> (u8 list \<times> u8 list) option" where
  "skipelem path name =
     (let p = dropWhile (\<lambda>c. c = slash) path in
      if p = [] then None else
      let e = takeWhile (\<lambda>c. c \<noteq> slash) p;
          rest = dropWhile (\<lambda>c. c \<noteq> slash) p;
          name' = (if length e \<ge> DIRSIZ then put_bytes 0 (take DIRSIZ e) name
                   else put_bytes 0 (e @ [0]) name)
      in Some (dropWhile (\<lambda>c. c = slash) rest, name'))"

lemma length_dropWhile_slash: "length (dropWhile P xs) \<le> length xs"
  by (rule length_dropWhile_le)

lemma skipelem_shorter: "skipelem path name = Some (path', name') \<Longrightarrow> length path' < length path"
proof -
  assume a: "skipelem path name = Some (path', name')"
  let ?p = "dropWhile (\<lambda>c. c = slash) path"
  have ne: "?p \<noteq> []" and path': "path' = dropWhile (\<lambda>c. c = slash) (dropWhile (\<lambda>c. c \<noteq> slash) ?p)"
    using a by (auto simp: skipelem_def Let_def split: if_splits)
  then obtain c q where p: "?p = c # q" by (cases ?p) auto
  have "c \<noteq> slash" using hd_dropWhile [OF ne] p by simp
  then have "path' = dropWhile (\<lambda>c. c = slash) (dropWhile (\<lambda>c. c \<noteq> slash) q)" using path' p by simp
  then have "length path' \<le> length q" by (metis length_dropWhile_le order_trans)
  moreover have "length ?p \<le> length path" by (rule length_dropWhile_le)
  ultimately show ?thesis using p by simp
qed

function namex_loop :: "nat \<Rightarrow> u8 list \<Rightarrow> bool \<Rightarrow> u8 list \<Rightarrow> ('z fsst_scheme, nat option \<times> u8 list) kmon" where
  "namex_loop i path parent name =
     (case skipelem path name of
        None \<Rightarrow> if parent then thn (iput (Some i)) (ret (None, name)) else ret (Some i, name)
      | Some (path', name') \<Rightarrow>
          thn (ilock (Some i)) (
          bnd (ino_get i i_type) (\<lambda>ty.
          if ty \<noteq> T_DIR then thn (iunlockput (Some i)) (ret (None, name'))
          else if parent \<and> path' = [] then thn (iunlock (Some i)) (ret (Some i, name'))
          else
            bnd (dirlookup i name') (\<lambda>found.
            case found of
              None \<Rightarrow> thn (iunlockput (Some i)) (ret (None, name'))
            | Some (j, _) \<Rightarrow> thn (iunlockput (Some i)) (namex_loop j path' parent name')))))"
  by pat_completeness auto
termination by (relation "measure (\<lambda>(i, path, parent, name). length path)") (auto simp: skipelem_shorter)

declare namex_loop.simps [simp del]

definition namex :: "u8 list \<Rightarrow> bool \<Rightarrow> u8 list \<Rightarrow> ('z fsst_scheme, nat option \<times> u8 list) kmon" where
  "namex path parent name =
     (if path \<noteq> [] \<and> hd path = slash
      then bnd (iget ROOTDEV ROOTINO) (\<lambda>i. namex_loop i path parent name)
      else
        bnd curproc (\<lambda>p.
        bnd (gets (\<lambda>s. p_cwd (procs s ! p))) (\<lambda>cwd.
        bnd (idup cwd) (\<lambda>ip. namex_loop (the ip) path parent name))))"

definition namei :: "u8 list \<Rightarrow> ('z fsst_scheme, nat option) kmon" where
  "namei path = bnd (namex path False (replicate DIRSIZ 0)) (\<lambda>(ip, name). ret ip)"

definition nameiparent :: "u8 list \<Rightarrow> u8 list \<Rightarrow> ('z fsst_scheme, nat option \<times> u8 list) kmon" where
  "nameiparent path name = namex path True name"

end
