(* ===== verification/Fs_Tx.thy ===== *)
theory Fs_Tx
  imports Fs
begin

text \<open>
  The file system runs inside a transaction. \<open>tx b V H D bs s\<close> describes a state \<open>s\<close> of a running
  transaction by what the code above the log sees of it: \<open>V\<close>, the contents of all blocks; \<open>H\<close>, the
  buffers held; \<open>D\<close>, the blocks changed in a held buffer and not yet logged; \<open>bs\<close>, the logged blocks;
  and the base state \<open>b\<close>, with which \<open>s\<close> agrees on everything that is not block storage. The rules
  below give the block operations as steps on these values, and the operations of \<open>kernel/fs.c\<close>
  are then verified against them.
\<close>

subsection \<open>The view of a transaction\<close>

definition tx :: "'z logst_scheme \<Rightarrow> (u32 \<Rightarrow> block) \<Rightarrow> (nat \<rightharpoonup> u32) \<Rightarrow> u32 set \<Rightarrow> u32 list \<Rightarrow> 'z logst_scheme \<Rightarrow> bool" where
  "tx b V H D bs s \<longleftrightarrow> log_frame b s \<and> calm s \<and> bio_abs s V H (set bs) \<and> log_hdr bs s \<and>
     distinct bs \<and> 1 \<le> lg_outstanding s \<and> lg_size s = int LOGSIZE \<and> disk s = disk b \<and> dhist s = dhist b \<and>
     (\<forall>bno. V bno \<noteq> disk s bno \<longrightarrow> bno \<in> set bs \<or> bno \<in> D)"

lemma txD:
  assumes "tx b V H D bs s"
  shows "log_frame b s" "calm s" "bio_abs s V H (set bs)" "log_hdr bs s" "1 \<le> lg_outstanding s"
    "lg_size s = int LOGSIZE" "disk s = disk b" "dhist s = dhist b"
    "V bno \<noteq> disk s bno \<Longrightarrow> bno \<in> set bs \<or> bno \<in> D" "length (V bno) = BSIZE"
    "distinct bs"
  using assms bio_absD(6) by (auto simp: tx_def)

lemma tx_more: "tx b V H D bs s \<Longrightarrow> logst.more s = logst.more b"
  using log_frame_fields(9) txD(1) by blast

lemma tx_fields:
  assumes "tx b V H D bs s"
  shows "sb s = sb b" "inodes s = inodes b" "mem s = mem b" "procs s = procs b" "cur s = cur b"
    "sleeplk s (SInode i) = sleeplk b (SInode i)" "calm b"
proof -
  have "logst.more s = logst.more b" by (rule tx_more [OF assms])
  then show "sb s = sb b" "inodes s = inodes b" by (cases s; cases b; simp)+
qed (use log_frame_fields [OF txD(1) [OF assms]] txD(2) [OF assms] in auto)

lemma tx_start:
  assumes "calm s" "bio_abs s V Map.empty (set bs)" "log_hdr bs s" "distinct bs" "1 \<le> lg_outstanding s" "lg_size s = int LOGSIZE"
  shows "tx s V Map.empty {} bs s"
  using assms bio_absD(7) [OF assms(2)] by (auto simp: tx_def)

lemma card_bs: "card (set bs) \<le> length bs" by (rule card_length)

subsection \<open>Steps on the view\<close>

lemma wp_simps [simp]:
  "wp (ret a) Q = Q a" "wp (gets f) R = (\<lambda>s. R (f s) s)" "wp (modify g) U = (\<lambda>s. U () (g s))"
  "wp (whenM c m) U = (if c then wp m U else U ())"
  by (simp_all add: wp_def ret_def gets_def modify_def whenM_def fun_eq_iff)

lemma wp_steps: "wp (bnd m f) Q = wp m (\<lambda>a. wp (f a) Q)" "wp (thn k n) R = wp k (\<lambda>_. wp n R)"
  by (simp_all add: thn_def wp_bnd fun_eq_iff)

lemma tx_bread:
  assumes "tx b V H D bs s" "bno \<notin> ran H" "card (dom H) + length bs < NBUF"
    and "\<And>i t. H i = None \<Longrightarrow> tx b V (H(i \<mapsto> bno)) D bs t \<Longrightarrow> Q i t"
  shows "wp (bread ROOTDEV bno) Q s"
proof -
  note t = txD [OF assms(1)]
  have "card (dom H) + card (set bs) < NBUF" using assms(3) card_bs [of bs] by simp
  then obtain i u where u: "bread ROOTDEV bno s = Done i u" "H i = None" "bio_abs u V (H(i \<mapsto> bno)) (set bs)"
      "bio_frame s u" "disk u = disk s" "dhist u = dhist s"
    using bread_abs [OF t(2,3) assms(2)] by blast
  note f = log_frame_fields [OF bio_log_frame [OF u(4)]]
  have "log_frame b u" using log_frame_trans [OF t(1) bio_log_frame [OF u(4)]] .
  then have "tx b V (H(i \<mapsto> bno)) D bs u"
    using t u f log_hdr_frame [OF u(4)] unfolding tx_def by simp
  then show ?thesis using assms(4) u by (simp add: wp_Done)
qed

lemma tx_data:
  assumes "tx b V H D bs s" "H i = Some bno"
  shows "b_data (bufs s ! i) = V bno"
  using held_buf(4) [OF txD(3) [OF assms(1)] assms(2)] .

lemma tx_bdata: "tx b V H D bs s \<Longrightarrow> H i = Some bno \<Longrightarrow> wp (bdata i) Q s = Q (V bno) s"
  by (simp add: bdata_def tx_data)

lemma tx_upd:
  assumes "tx b V H D bs s" "H i = Some bno" "length (g (V bno)) = BSIZE"
    and "\<And>t. tx b (V(bno := g (V bno))) H (insert bno D) bs t \<Longrightarrow> Q () t"
  shows "wp (bdata_upd i g) Q s"
proof -
  note t = txD [OF assms(1)]
  let ?u = "buf_upd i (\<lambda>b. b\<lparr>b_data := g (b_data b)\<rparr>) s"
  have f: "bio_frame s ?u" by (rule bio_frame_upd)
  have "bio_abs ?u (V(bno := g (V bno))) H (set bs)" by (rule buf_data_abs [OF t(3) assms(2), of g]) (rule assms(3))
  moreover have "log_frame b ?u" using log_frame_trans [OF t(1) bio_log_frame [OF f]] .
  ultimately have "tx b (V(bno := g (V bno))) H (insert bno D) bs ?u"
    using t log_frame_fields [OF bio_log_frame [OF f]] log_hdr_frame [OF f, of bs] unfolding tx_def by auto
  then show ?thesis using assms(4) by (simp add: bdata_upd_def)
qed

lemma tx_log_write:
  assumes "tx b V H D bs s" "H i = Some bno" "length bs + 2 \<le> LOGSIZE"
    and "\<And>t. tx b V H (D - {bno}) (log_add bno bs) t \<Longrightarrow> Q () t"
  shows "wp (log_write i) Q s"
proof -
  note t = txD [OF assms(1)]
  obtain u where u: "log_write i s = Done () u" "bio_abs u V H (set (log_add bno bs))" "log_hdr (log_add bno bs) u"
      "log_frame s u" "disk u = disk s" "dhist u = dhist s"
    using log_write_abs [OF t(2,3,4) assms(2) _ _ t(5)] t(6) assms(3) by auto
  have "log_frame b u" using log_frame_trans [OF t(1) u(4)] .
  then have "tx b V H (D - {bno}) (log_add bno bs) u"
    using t u log_frame_fields [OF u(4)] unfolding tx_def by (auto simp: log_add_def)
  then show ?thesis using assms(4) u(1) by (simp add: wp_Done)
qed

lemma tx_brelse:
  assumes "tx b V H D bs s" "H i = Some bno" "bno \<notin> D"
    and "\<And>t. tx b V (H(i := None)) D bs t \<Longrightarrow> Q () t"
  shows "wp (brelse i) Q s"
proof -
  note t = txD [OF assms(1)]
  have "bno \<in> set bs \<or> V bno = disk s bno" using t(9) assms(3) by blast
  then obtain u where u: "brelse i s = Done () u" "bio_abs u V (H(i := None)) (set bs)" "bio_frame s u"
      "disk u = disk s" "dhist u = dhist s"
    using brelse_abs [OF t(2,3) assms(2)] by blast
  have "log_frame b u" using log_frame_trans [OF t(1) bio_log_frame [OF u(3)]] .
  then have "tx b V (H(i := None)) D bs u"
    using t u log_frame_fields [OF bio_log_frame [OF u(3)]] log_hdr_frame [OF u(3)] unfolding tx_def by auto
  then show ?thesis using assms(4) u(1) by (simp add: wp_Done)
qed

text \<open>Changing an inode of the table changes the base state.\<close>

lemma fsst_frame [simp]:
  "cpu_quiet (inodes_update f s) = cpu_quiet s" "lk_free lk (inodes_update f s) = lk_free lk s"
  "procs_free (inodes_update f s) = procs_free s" "no_sleeper ch (inodes_update f s) = no_sleeper ch s"
  "calm (inodes_update f s) = calm s" "curpid (inodes_update f s) = curpid s"
  "inodes (acquired lk s) = inodes s" "sb (acquired lk s) = sb s"
  "inodes_update f (acquired lk s) = acquired lk (inodes_update f s)"
  "log_hdr bs (inodes_update f s) = log_hdr bs s" "bio_abs (inodes_update f s) V H K = bio_abs s V H K"
  by (simp_all add: cpu_quiet_def lk_free_def mach_defs procs_free_def no_sleeper_def calm_def cur_def curpid_def
      acquired_def log_hdr_def) (rule bio_abs_frame; simp add: curpid_def cur_def)

definition ino_set :: "nat \<Rightarrow> (inode \<Rightarrow> inode) \<Rightarrow> 'z fsst_scheme \<Rightarrow> 'z fsst_scheme" where
  "ino_set i f s = s\<lparr>inodes := (inodes s)[i := f (inodes s ! i)]\<rparr>"

lemma log_frame_inodes:
  assumes "log_frame b s"
  shows "log_frame (b\<lparr>inodes := x\<rparr>) (s\<lparr>inodes := x\<rparr>)"
proof -
  have s: "s = b\<lparr>sleeplk := sleeplk s, bufs := bufs s, head_prev := head_prev s, head_next := head_next s,
      disk := disk s, dhist := dhist s, lh_n := lh_n s, lh_block := lh_block s\<rparr>"
    using assms by (simp add: log_frame_def)
  have "s\<lparr>inodes := x\<rparr> = (b\<lparr>inodes := x\<rparr>)\<lparr>sleeplk := sleeplk s, bufs := bufs s, head_prev := head_prev s,
      head_next := head_next s, disk := disk s, dhist := dhist s, lh_n := lh_n s, lh_block := lh_block s\<rparr>"
    by (subst s) simp
  moreover have "\<forall>i. sleeplk s (SInode i) = sleeplk b (SInode i)" using assms by (simp add: log_frame_def)
  ultimately show ?thesis by (simp add: log_frame_def)
qed

lemma tx_ino_set:
  assumes "tx b V H D bs s"
  shows "tx (ino_set i f b) V H D bs (ino_set i f s)"
  using assms tx_fields(2) [OF assms] log_frame_inodes [of b s "(inodes b)[i := f (inodes b ! i)]"]
  by (auto simp: tx_def ino_set_def)

lemma wp_ino_upd [simp]: "wp (ino_upd i f) Q s = Q () (ino_set i f s)"
  by (simp add: ino_upd_def ino_set_def)

lemma wp_ino_get [simp]: "wp (ino_get i f) Q s = Q (f (inodes s ! i)) s"
  by (simp add: ino_get_def)

lemma ino_set_simps [simp]:
  "sb (ino_set i f s) = sb s" "length (inodes (ino_set i f s)) = length (inodes s)"
  "i < length (inodes s) \<Longrightarrow> inodes (ino_set i f s) ! i = f (inodes s ! i)"
  "i \<noteq> j \<Longrightarrow> inodes (ino_set i f s) ! j = inodes s ! j"
  by (simp_all add: ino_set_def)

text \<open>The usual end of an operation on a held buffer: change it, log it, release it.\<close>

lemma tx_store:
  assumes "tx b V H D bs s" "H i = Some bno" "length (g (V bno)) = BSIZE" "length bs + 2 \<le> LOGSIZE"
    and "\<And>t. tx b (V(bno := g (V bno))) (H(i := None)) (D - {bno}) (log_add bno bs) t \<Longrightarrow> wp k Q t"
  shows "wp (thn (bdata_upd i g) (thn (log_write i) (thn (brelse i) k))) Q s"
  unfolding wp_steps
proof (rule tx_upd [OF assms(1,2), where g = g, OF assms(3)])
  fix u assume u: "tx b (V(bno := g (V bno))) H (insert bno D) bs u"
  show "wp (log_write i) (\<lambda>_. wp (brelse i) (\<lambda>_. wp k Q)) u"
  proof (rule tx_log_write [OF u assms(2,4)])
    fix v assume "tx b (V(bno := g (V bno))) H (insert bno D - {bno}) (log_add bno bs) v"
    then have v: "tx b (V(bno := g (V bno))) H (D - {bno}) (log_add bno bs) v" by simp
    show "wp (brelse i) (\<lambda>_. wp k Q) v" by (rule tx_brelse [OF v assms(2)]) (use assms(5) in simp_all)
  qed
qed

lemma tx_store_end:
  assumes "tx b V H D bs s" "H i = Some bno" "length (g (V bno)) = BSIZE" "length bs + 2 \<le> LOGSIZE"
    and "\<And>t. tx b (V(bno := g (V bno))) (H(i := None)) (D - {bno}) (log_add bno bs) t \<Longrightarrow> Q () t"
  shows "wp (thn (bdata_upd i g) (thn (log_write i) (brelse i))) Q s"
proof -
  have "wp (thn (bdata_upd i g) (thn (log_write i) (thn (brelse i) (ret ())))) Q s"
    by (rule tx_store [OF assms(1,2), where g = g, OF assms(3,4)]) (use assms(5) in simp)
  then show ?thesis by (simp add: wp_steps)
qed

end
