(* ===== verification/Fs_Blocks.thy ===== *)
theory Fs_Blocks
  imports Fs_Tx
begin

text \<open>
  The free map of \<open>kernel/fs.c\<close>: \<open>used\<close> says which blocks the map marks as taken. \<open>balloc\<close> takes the first
  free block, marks and zeroes it; \<open>bfree\<close> clears the mark.
\<close>

subsection \<open>Bits of the map\<close>

definition used :: "superblock \<Rightarrow> (u32 \<Rightarrow> block) \<Rightarrow> nat \<Rightarrow> bool" where
  "used g V n \<longleftrightarrow> V (BBLOCK n g) ! (n mod BPB div 8) AND bit_mask (n mod BPB) \<noteq> 0"

definition bm_set :: "superblock \<Rightarrow> nat \<Rightarrow> (u32 \<Rightarrow> block) \<Rightarrow> u32 \<Rightarrow> block" where
  "bm_set g n V = V(BBLOCK n g := (V (BBLOCK n g))[n mod BPB div 8 := V (BBLOCK n g) ! (n mod BPB div 8) OR bit_mask (n mod BPB)])"

definition bm_clear :: "superblock \<Rightarrow> nat \<Rightarrow> (u32 \<Rightarrow> block) \<Rightarrow> u32 \<Rightarrow> block" where
  "bm_clear g n V = V(BBLOCK n g := (V (BBLOCK n g))[n mod BPB div 8 := V (BBLOCK n g) ! (n mod BPB div 8) AND NOT (bit_mask (n mod BPB))])"

lemma mask_bit: "x AND bit_mask k \<noteq> 0 \<longleftrightarrow> bit x (k mod 8)"
proof -
  have "x AND bit_mask k = (if bit x (k mod 8) then bit_mask k else 0)"
    by (rule bit_word_eqI) (auto simp: bit_mask_def bit_simps)
  moreover have "bit (bit_mask k) (k mod 8)" by (simp add: bit_mask_def bit_simps)
  then have "bit_mask k \<noteq> 0" by (metis bit_0_eq bot_apply bot_bool_def)
  ultimately show ?thesis by simp
qed

lemma BPB_facts: "BPB = 8 * BSIZE" "BPB mod 8 = 0" "0 < BPB" "n mod BPB div 8 < BSIZE" "n mod BPB mod 8 = n mod 8"
proof -
  have "n mod BPB < BSIZE * 8" by (simp add: BPB_def BSIZE_def)
  then show "n mod BPB div 8 < BSIZE" by (simp add: less_mult_imp_div_less)
  show "n mod BPB mod 8 = n mod 8" by (simp add: BPB_def BSIZE_def mod_mod_cancel)
qed (simp_all add: BPB_def BSIZE_def)

lemma used_bit: "used g V n \<longleftrightarrow> bit (V (BBLOCK n g) ! (n mod BPB div 8)) (n mod 8)"
  using BPB_facts(5) [of n] by (simp add: used_def mask_bit)

lemma BBLOCK_eq:
  assumes "n < 2 ^ 32" "m < 2 ^ 32"
  shows "BBLOCK n g = BBLOCK m g \<longleftrightarrow> n div BPB = m div BPB"
proof -
  have "n div BPB < 2 ^ 32" "m div BPB < 2 ^ 32"
    using assms div_le_dividend [of n BPB] div_le_dividend [of m BPB] by linarith+
  then have "(of_nat (n div BPB) :: u32) = of_nat (m div BPB) \<longleftrightarrow> n div BPB = m div BPB"
    by (simp add: of_nat_inverse word_unat_eq_iff unat_of_nat take_bit_nat_eq_self)
  then show ?thesis by (simp add: BBLOCK_def)
qed

lemma bit_pos_eq:
  assumes "n div BPB = m div BPB" "n mod BPB div 8 = m mod BPB div 8" "n mod 8 = m mod 8"
  shows "n = m"
proof -
  have "n mod BPB mod 8 = m mod BPB mod 8" using assms(3) BPB_facts(5) by simp
  then have "n mod BPB = m mod BPB" using assms(2) by (metis div_mult_mod_eq)
  then show ?thesis using assms(1) by (metis div_mult_mod_eq)
qed

lemma used_bm_set:
  assumes "n < 2 ^ 32" "m < 2 ^ 32" "length (V (BBLOCK n g)) = BSIZE"
  shows "used g (bm_set g n V) m \<longleftrightarrow> m = n \<or> used g V m"
proof (cases "BBLOCK m g = BBLOCK n g \<and> m mod BPB div 8 = n mod BPB div 8")
  case True
  then have "m mod 8 = n mod 8 \<longleftrightarrow> m = n" using bit_pos_eq [of m n] BBLOCK_eq [OF assms(2,1)] by blast
  moreover have "bit (bit_mask (n mod BPB)) (m mod 8) \<longleftrightarrow> m mod 8 = n mod 8"
    using BPB_facts(5) [of n] by (auto simp: bit_mask_def bit_simps)
  ultimately show ?thesis using True assms(3) BPB_facts(4) [of n] by (auto simp: used_bit bm_set_def bit_simps)
next
  case False
  then have "m \<noteq> n" by blast
  then show ?thesis using False by (auto simp: used_bit bm_set_def nth_upd)
qed

lemma used_bm_clear:
  assumes "n < 2 ^ 32" "m < 2 ^ 32" "length (V (BBLOCK n g)) = BSIZE"
  shows "used g (bm_clear g n V) m \<longleftrightarrow> m \<noteq> n \<and> used g V m"
proof (cases "BBLOCK m g = BBLOCK n g \<and> m mod BPB div 8 = n mod BPB div 8")
  case True
  then have "m mod 8 = n mod 8 \<longleftrightarrow> m = n" using bit_pos_eq [of m n] BBLOCK_eq [OF assms(2,1)] by blast
  moreover have "bit (bit_mask (n mod BPB)) (m mod 8) \<longleftrightarrow> m mod 8 = n mod 8"
    using BPB_facts(5) [of n] by (auto simp: bit_mask_def bit_simps)
  ultimately show ?thesis using True assms(3) BPB_facts(4) [of n] by (auto simp: used_bit bm_clear_def bit_simps)
next
  case False
  then have "m \<noteq> n" by blast
  then show ?thesis using False by (auto simp: used_bit bm_clear_def nth_upd)
qed

lemma used_upd: "BBLOCK n g \<noteq> a \<Longrightarrow> used g (V(a := d)) n = used g V n"
  by (simp add: used_def)

lemma bm_clear_set: "\<not> used g V n \<Longrightarrow> bm_clear g n (bm_set g n V) = V"
proof -
  assume "\<not> used g V n"
  then have z: "V (BBLOCK n g) ! (n mod BPB div 8) AND bit_mask (n mod BPB) = 0" by (simp add: used_def)
  let ?x = "V (BBLOCK n g) ! (n mod BPB div 8)" and ?m = "bit_mask (n mod BPB)"
  have "(?x OR ?m) AND NOT ?m = ?x"
  proof (rule bit_word_eqI)
    fix k assume "k < LENGTH(8)"
    then show "bit ((?x OR ?m) AND NOT ?m) k = bit ?x k"
      using z by (metis bit_and_iff bit_not_iff bit_or_iff bit_0_eq bot_apply bot_bool_def possible_bit_word)
  qed
  then show ?thesis by (auto simp: bm_set_def bm_clear_def nth_upd list_update_beyond intro!: ext)
qed

subsection \<open>\<open>balloc\<close>\<close>

lemma free_bit_None: "free_bit d n = None \<longleftrightarrow> (\<forall>i < n. d ! (i div 8) AND bit_mask i \<noteq> 0)"
  by (auto simp: free_bit_def find_None_iff)

lemma find_upt:
  assumes "k < n" "P k" "\<And>j. j < k \<Longrightarrow> \<not> P j"
  shows "List.find P [0..<n] = Some k"
  using assms by (auto simp: find_Some_iff intro!: exI [of _ k])

lemma fun_upd_None [simp]: "H i = None \<Longrightarrow> H(i := None) = H"
  by (rule fun_upd_idem)

lemma length_log_add: "length (log_add x bs) \<le> Suc (length bs)"
  by (simp add: log_add_def)

lemma bzero_tx:
  assumes "tx b V H D bs s" "bno \<notin> ran H" "card (dom H) + length bs < NBUF" "length bs + 2 \<le> LOGSIZE"
    and "\<And>t. tx b (V(bno := replicate BSIZE 0)) H (D - {bno}) (log_add bno bs) t \<Longrightarrow> Q () t"
  shows "wp (bzero ROOTDEV bno) Q s"
  unfolding bzero_def wp_bnd
proof (rule tx_bread [OF assms(1-3)])
  fix i t assume i: "H i = None" and t: "tx b V (H(i \<mapsto> bno)) D bs t"
  show "wp (thn (bdata_upd i (\<lambda>d. replicate BSIZE 0)) (thn (log_write i) (brelse i))) Q t"
    by (rule tx_store_end [OF t, of i bno]) (use assms(4,5) i in simp_all)
qed

text \<open>What allocating block \<open>n\<close> does to the contents of the disk.\<close>

definition take_block :: "superblock \<Rightarrow> nat \<Rightarrow> (u32 \<Rightarrow> block) \<Rightarrow> u32 \<Rightarrow> block" where
  "take_block g n V = (bm_set g n V)(of_nat n := replicate BSIZE 0)"

lemma balloc_hit:
  assumes "tx b V H {} bs s" "n mod BPB = bi" "BBLOCK n (sb b) \<notin> ran H" "of_nat n \<notin> ran H"
    and "card (dom H) + length bs + 1 < NBUF" "length bs + 3 \<le> LOGSIZE"
    and "free_bit (V (BBLOCK n (sb b))) (min BPB (unat (sb_size (sb b)) - n div BPB * BPB)) = Some bi"
    and "\<And>t. tx b (take_block (sb b) n V) H {} (log_add (of_nat n) (log_add (BBLOCK n (sb b)) bs)) t \<Longrightarrow> Q (of_nat n) t"
  shows "wp (balloc_loop ROOTDEV (n div BPB * BPB # rest)) Q s"
proof -
  let ?g = "sb b" and ?bb = "BBLOCK n (sb b)"
  have n: "n div BPB * BPB + bi = n" using assms(2) div_mult_mod_eq [of n BPB] by simp
  have bb: "BBLOCK (n div BPB * BPB) ?g = ?bb" using BPB_facts(3) by (simp add: BBLOCK_def)
  have sbs: "sb s = ?g" by (rule tx_fields(1) [OF assms(1)])
  show ?thesis
    unfolding balloc_loop.simps wp_bnd wp_simps sbs bb
  proof (rule tx_bread [OF assms(1,3)])
    fix i t assume i: "H i = None" and t: "tx b V (H(i \<mapsto> ?bb)) {} bs t"
    have d: "wp (bdata i) R t = R (V ?bb) t" for R using tx_bdata [OF t, of i] by simp
    let ?f = "\<lambda>d. d[bi div 8 := d ! (bi div 8) OR bit_mask bi]"
    have bm: "V(?bb := ?f (V ?bb)) = bm_set ?g n V" using assms(2) by (simp add: bm_set_def)
    show "wp (bdata i) (\<lambda>d. wp (case free_bit d (min BPB (unat (sb_size ?g) - n div BPB * BPB)) of
          None \<Rightarrow> thn (brelse i) (if 2 ^ 31 \<le> n div BPB * BPB + BPB then fault else balloc_loop ROOTDEV rest)
        | Some bi \<Rightarrow> thn (bdata_upd i (\<lambda>d. d[bi div 8 := d ! (bi div 8) OR bit_mask bi])) (thn (log_write i) (thn (brelse i)
           (thn (bzero ROOTDEV (of_nat (n div BPB * BPB + bi))) (ret (of_nat (n div BPB * BPB + bi))))))) Q) t"
      unfolding d assms(7) option.case n
    proof (rule tx_store [OF t, of i ?bb ?f])
      fix u assume "tx b (V(?bb := ?f (V ?bb))) ((H(i \<mapsto> ?bb))(i := None)) ({} - {?bb}) (log_add ?bb bs) u"
      then have u: "tx b (bm_set ?g n V) H {} (log_add ?bb bs) u" unfolding bm using i by simp
      show "wp (thn (bzero ROOTDEV (of_nat n)) (ret (of_nat n))) Q u"
        unfolding wp_steps using assms(5,6) length_log_add [of ?bb bs]
        by (intro bzero_tx [OF u assms(4)]) (auto simp: take_block_def [symmetric] assms(8))
    qed (use assms(6) txD(10) [OF t] in simp_all)
  qed (use assms(5) in simp)
qed

definition first_free :: "superblock \<Rightarrow> (u32 \<Rightarrow> block) \<Rightarrow> nat \<Rightarrow> bool" where
  "first_free g V n \<longleftrightarrow> n < unat (sb_size g) \<and> \<not> used g V n \<and> (\<forall>m < n. used g V m)"

lemma block_bit:
  assumes "i < BPB"
  shows "used g V (j * BPB + i) \<longleftrightarrow> V (BBLOCK (j * BPB) g) ! (i div 8) AND bit_mask i \<noteq> 0"
  using assms BPB_facts(3) by (simp add: used_def BBLOCK_def)

lemma free_bit_first:
  assumes "first_free g V n"
  shows "free_bit (V (BBLOCK n g)) (min BPB (unat (sb_size g) - n div BPB * BPB)) = Some (n mod BPB)"
proof -
  have n: "n div BPB * BPB + n mod BPB = n" "n mod BPB < BPB" using BPB_facts(3) by simp_all
  have bb: "BBLOCK (n div BPB * BPB) g = BBLOCK n g" using BPB_facts(3) by (simp add: BBLOCK_def)
  have u: "V (BBLOCK n g) ! (i div 8) AND bit_mask i \<noteq> 0 \<longleftrightarrow> used g V (n div BPB * BPB + i)" if "i < BPB" for i
    using block_bit [OF that, of g V "n div BPB"] unfolding bb by simp
  have "n mod BPB < unat (sb_size g) - n div BPB * BPB" using assms n(1) unfolding first_free_def by linarith
  moreover have "V (BBLOCK n g) ! (n mod BPB div 8) AND bit_mask (n mod BPB) = 0"
    using assms by (simp add: first_free_def used_def)
  moreover have "V (BBLOCK n g) ! (j div 8) AND bit_mask j \<noteq> 0" if "j < n mod BPB" for j
  proof -
    have "n div BPB * BPB + j < n" using n(1) that by linarith
    then show ?thesis using u [of j] assms that n(2) unfolding first_free_def by simp
  qed
  ultimately show ?thesis unfolding free_bit_def using n(2) by (intro find_upt) auto
qed

lemma balloc_loop_tx:
  assumes "first_free (sb b) V n" "n < 2 ^ 31" "\<And>m. m \<le> n \<Longrightarrow> BBLOCK m (sb b) \<notin> ran H" "of_nat n \<notin> ran H"
    and "card (dom H) + length bs + 1 < NBUF" "length bs + 3 \<le> LOGSIZE"
    and "\<And>t. tx b (take_block (sb b) n V) H {} (log_add (of_nat n) (log_add (BBLOCK n (sb b)) bs)) t \<Longrightarrow> Q (of_nat n) t"
    and "tx b V H {} bs s" "j + k = n div BPB" "n div BPB < m"
  shows "wp (balloc_loop ROOTDEV (map (\<lambda>i. i * BPB) [j..<m])) Q s"
  using assms(8,9)
proof (induction k arbitrary: j s)
  case 0
  then have "[j..<m] = n div BPB # [Suc j..<m]" using assms(10) by (simp add: upt_conv_Cons)
  moreover have "wp (balloc_loop ROOTDEV (n div BPB * BPB # rest)) Q s" for rest
    by (rule balloc_hit [OF 0(1) refl assms(3) [OF order_refl] assms(4-6) free_bit_first [OF assms(1)]]) (rule assms(7))
  ultimately show ?case by simp
next
  case (Suc k)
  let ?bb = "BBLOCK (j * BPB) (sb b)"
  have j: "[j..<m] = j # [Suc j..<m]" "Suc j + k = n div BPB" using Suc.prems(2) assms(10) by (simp_all add: upt_conv_Cons)
  have "j * BPB + BPB \<le> n div BPB * BPB" using j(2) by (metis add_leD1 add_mult_distrib mult_Suc mult_le_mono1 add.commute order_refl)
  then have jn: "j * BPB + BPB \<le> n" using div_block [of BPB n] BPB_facts(3) by linarith
  have "V ?bb ! (i div 8) AND bit_mask i \<noteq> 0" if "i < min BPB x" for i x
    using block_bit [of i "sb b" V j] assms(1) that jn unfolding first_free_def by simp
  then have none: "free_bit (V ?bb) (min BPB x) = None" for x unfolding free_bit_None by blast
  have sbs: "sb s = sb b" by (rule tx_fields(1) [OF Suc.prems(1)])
  have nr: "?bb \<notin> ran H" using assms(3) jn by simp
  have ov: "(2 ^ 31 \<le> j * BPB + BPB) = False" using order_le_less_trans [OF jn assms(2)] by (simp only: not_le eq_False)
  show ?case
    unfolding j(1) list.map balloc_loop.simps wp_steps wp_simps sbs ov
  proof (rule tx_bread [OF Suc.prems(1) nr])
    fix i t assume i: "H i = None" and t: "tx b V (H(i \<mapsto> ?bb)) {} bs t"
    have d: "wp (bdata i) R t = R (V ?bb) t" for R using tx_bdata [OF t, of i] by simp
    show "wp (bdata i) (\<lambda>d. wp (case free_bit d (min BPB (unat (sb_size (sb b)) - j * BPB)) of
          None \<Rightarrow> thn (brelse i) (if False then fault else balloc_loop ROOTDEV (map (\<lambda>i. i * BPB) [Suc j..<m]))
        | Some bi \<Rightarrow> thn (bdata_upd i (\<lambda>d. d[bi div 8 := d ! (bi div 8) OR bit_mask bi])) (thn (log_write i) (thn (brelse i)
           (thn (bzero ROOTDEV (of_nat (j * BPB + bi))) (ret (of_nat (j * BPB + bi))))))) Q) t"
      unfolding d none option.case if_False wp_steps
      by (rule tx_brelse [OF t, of i ?bb]) (use i Suc.IH [OF _ j(2)] in simp_all)
  qed (use assms(5) in simp)
qed

lemma balloc_tx:
  assumes "tx b V H {} bs s" "first_free (sb b) V n" "n < 2 ^ 31" "\<And>m. m \<le> n \<Longrightarrow> BBLOCK m (sb b) \<notin> ran H" "of_nat n \<notin> ran H"
    and "card (dom H) + length bs + 1 < NBUF" "length bs + 3 \<le> LOGSIZE"
    and "\<And>t. tx b (take_block (sb b) n V) H {} (log_add (of_nat n) (log_add (BBLOCK n (sb b)) bs)) t \<Longrightarrow> Q (of_nat n) t"
  shows "wp (balloc ROOTDEV) Q s"
proof -
  let ?z = "unat (sb_size (sb b))"
  have "n < ?z" using assms(2) by (simp add: first_free_def)
  then have "n + BPB \<le> ?z + BPB - 1" using BPB_facts(3) by linarith
  then have "(n + BPB) div BPB \<le> (?z + BPB - 1) div BPB" by (rule div_le_mono)
  moreover have "(n + BPB) div BPB = Suc (n div BPB)" using div_add_self2 [of BPB n] BPB_facts(3) by linarith
  ultimately have "n div BPB < (?z + BPB - 1) div BPB" by simp
  moreover have "sb s = sb b" by (rule tx_fields(1) [OF assms(1)])
  ultimately show ?thesis
    unfolding balloc_def wp_steps wp_simps
    by (intro balloc_loop_tx [where n = n and k = "n div BPB" and b = b and bs = bs]) (use assms in simp_all)
qed

subsection \<open>\<open>bfree\<close>\<close>

lemma bfree_tx:
  assumes "tx b V H {} bs s" "BBLOCK (unat a) (sb b) \<notin> ran H" "used (sb b) V (unat a)"
    and "card (dom H) + length bs < NBUF" "length bs + 2 \<le> LOGSIZE"
    and "\<And>t. tx b (bm_clear (sb b) (unat a) V) H {} (log_add (BBLOCK (unat a) (sb b)) bs) t \<Longrightarrow> Q () t"
  shows "wp (bfree ROOTDEV a) Q s"
proof -
  let ?bb = "BBLOCK (unat a) (sb b)"
  have sbs: "sb s = sb b" by (rule tx_fields(1) [OF assms(1)])
  show ?thesis
    unfolding bfree_def wp_steps wp_simps sbs
  proof (rule tx_bread [OF assms(1,2,4)])
    fix i t assume i: "H i = None" and t: "tx b V (H(i \<mapsto> ?bb)) {} bs t"
    let ?bi = "unat a mod BPB"
    let ?f = "\<lambda>d. d[?bi div 8 := d ! (?bi div 8) AND NOT (bit_mask ?bi)]"
    have d: "wp (bdata i) R t = R (V ?bb) t" for R using tx_bdata [OF t, of i] by simp
    have bm: "V(?bb := ?f (V ?bb)) = bm_clear (sb b) (unat a) V" by (simp add: bm_clear_def)
    have bit: "V ?bb ! (?bi div 8) AND bit_mask ?bi \<noteq> 0" using assms(3) by (simp add: used_def)
    show "wp (bdata i) (\<lambda>d. wp (if d ! (?bi div 8) AND bit_mask ?bi = 0 then panic ''freeing free block''
        else thn (bdata_upd i ?f) (thn (log_write i) (brelse i))) Q) t"
      unfolding d if_not_P [OF bit]
      by (rule tx_store_end [OF t, of i ?bb ?f]) (use i assms(5,6) txD(10) [OF t] bm in simp_all)
  qed
qed

lemma bfree_free_panics:
  assumes "tx b V H {} bs s" "BBLOCK (unat a) (sb b) \<notin> ran H" "\<not> used (sb b) V (unat a)"
    and "card (dom H) + length bs < NBUF"
  shows "bfree ROOTDEV a s = Panic ''freeing free block''"
proof -
  let ?bb = "BBLOCK (unat a) (sb b)"
  have sbs: "sb s = sb b" by (rule tx_fields(1) [OF assms(1)])
  have "wp (bread ROOTDEV ?bb) (\<lambda>i t. b_data (bufs t ! i) = V ?bb) s"
    by (rule tx_bread [OF assms(1,2,4)]) (rule tx_data, assumption, simp)
  then obtain i t where "bread ROOTDEV ?bb s = Done i t" "b_data (bufs t ! i) = V ?bb" by (auto simp: wp_Done)
  then show ?thesis using assms(3) sbs by (simp add: bfree_def bdata_def used_def kmon_simps bnd_run)
qed

end
