(* ===== verification/Fs_Files.thy ===== *)
theory Fs_Files
  imports Fs_Blocks
begin

text \<open>
  The contents of files. \<open>faddr V ip k\<close> is the disk block that holds block \<open>k\<close> of a file, through the
  direct slots or the indirect block of its inode. \<open>bmap\<close> finds it or allocates it; \<open>readi\<close> and \<open>writei\<close>
  read and change the sequence of bytes those blocks make up.
\<close>

subsection \<open>The layout of the disk\<close>

definition datastart :: "superblock \<Rightarrow> nat" where
  "datastart g = unat (sb_bmapstart g) + unat (sb_size g) div BPB + 1"

definition sb_ok :: "superblock \<Rightarrow> bool" where
  "sb_ok g \<longleftrightarrow> unat (sb_logstart g) + LOGSIZE \<le> unat (sb_inodestart g) \<and> unat (sb_inodestart g) + unat (sb_ninodes g) div IPB + 1 \<le> unat (sb_bmapstart g) \<and> datastart g \<le> unat (sb_size g)"

text \<open>The blocks that file-system calls change: inodes, free map and data, but not the log.\<close>

definition fsblk :: "superblock \<Rightarrow> u32 set" where
  "fsblk g = {x. unat (sb_inodestart g) \<le> unat x}"

text \<open>The blocks before the data blocks are marked as used, and block numbers fit a C int.\<close>

definition map_ok :: "superblock \<Rightarrow> (u32 \<Rightarrow> block) \<Rightarrow> bool" where
  "map_ok g V \<longleftrightarrow> unat (sb_size g) \<le> 2 ^ 31 \<and> (\<forall>n < datastart g. used g V n)"

lemma size_lt: "unat (sb_size g) < 2 ^ 32" using unsigned_less [of "sb_size g"] by simp

lemma unat_add_small:
  fixes a :: u32
  assumes "n + unat a < 2 ^ 32"
  shows "unat (of_nat n + a) = n + unat a"
proof -
  have "unat (of_nat n :: u32) = n" using assms by (simp add: unat_of_nat take_bit_nat_eq_self)
  then show ?thesis using assms unat_add_lem [of "of_nat n :: u32" a] by simp
qed

lemma BBLOCK_bounds:
  assumes "sb_ok g" "n < unat (sb_size g)"
  shows "unat (sb_bmapstart g) \<le> unat (BBLOCK n g)" "unat (BBLOCK n g) < datastart g"
proof -
  have "n div BPB \<le> unat (sb_size g) div BPB" using assms(2) by (intro div_le_mono) simp
  moreover have "n div BPB + unat (sb_bmapstart g) < 2 ^ 32"
    using calculation assms(1) size_lt [of g] by (simp add: sb_ok_def datastart_def)
  ultimately show "unat (sb_bmapstart g) \<le> unat (BBLOCK n g)" "unat (BBLOCK n g) < datastart g"
    using unat_add_small [of "n div BPB" "sb_bmapstart g"] by (simp_all add: BBLOCK_def datastart_def)
qed

lemma IBLOCK_bounds:
  assumes "sb_ok g" "n < unat (sb_ninodes g)"
  shows "unat (IBLOCK n g) < unat (sb_bmapstart g)" "unat (IBLOCK n g) = n div IPB + unat (sb_inodestart g)"
proof -
  have "n div IPB \<le> unat (sb_ninodes g) div IPB" using assms(2) by (intro div_le_mono) simp
  moreover have "n div IPB + unat (sb_inodestart g) < 2 ^ 32"
    using calculation assms(1) size_lt [of g] by (simp add: sb_ok_def datastart_def)
  ultimately show "unat (IBLOCK n g) < unat (sb_bmapstart g)" "unat (IBLOCK n g) = n div IPB + unat (sb_inodestart g)"
    using unat_add_small [of "n div IPB" "sb_inodestart g"] assms(1) by (simp_all add: IBLOCK_def sb_ok_def)
qed

lemma unat_of_block: "n < unat (sb_size g) \<Longrightarrow> unat (of_nat n :: u32) = n"
  using size_lt [of g] by (simp add: unat_of_nat take_bit_nat_eq_self)

subsection \<open>Taking a block\<close>

definition nfree :: "superblock \<Rightarrow> (u32 \<Rightarrow> block) \<Rightarrow> nat" where
  "nfree g V = card {n. n < unat (sb_size g) \<and> \<not> used g V n}"

lemma ex_first_free:
  assumes "0 < nfree g V"
  shows "\<exists>n. first_free g V n"
proof -
  let ?P = "\<lambda>n. n < unat (sb_size g) \<and> \<not> used g V n"
  have "{n. ?P n} \<noteq> {}" using assms unfolding nfree_def by (metis card.empty less_irrefl)
  then have ex: "?P (LEAST n. ?P n)" by (metis (mono_tags, lifting) Collect_empty_eq LeastI_ex)
  moreover have "used g V m" if "m < (LEAST n. ?P n)" for m
    using not_less_Least [OF that] ex that by auto
  ultimately show ?thesis unfolding first_free_def by blast
qed

lemma first_free_int: "map_ok g V \<Longrightarrow> first_free g V n \<Longrightarrow> n < 2 ^ 31"
  by (simp add: first_free_def map_ok_def)

lemma first_free_data: "map_ok g V \<Longrightarrow> first_free g V n \<Longrightarrow> datastart g \<le> n"
  by (metis first_free_def map_ok_def not_le_imp_less)

lemma take_block_new [simp]: "take_block g n V (of_nat n) = replicate BSIZE 0"
  by (simp add: take_block_def)

lemma take_block_other:
  assumes "sb_ok g" "n < unat (sb_size g)" "datastart g \<le> unat x \<or> unat x < unat (sb_bmapstart g)" "x \<noteq> of_nat n"
  shows "take_block g n V x = V x"
  using BBLOCK_bounds [OF assms(1,2)] assms(3,4) by (auto simp: take_block_def bm_set_def)

lemma used_take_block:
  assumes "sb_ok g" "datastart g \<le> n" "n < unat (sb_size g)" "m < unat (sb_size g)" "\<And>x. length (V x) = BSIZE"
  shows "used g (take_block g n V) m \<longleftrightarrow> m = n \<or> used g V m"
proof -
  have "BBLOCK m g \<noteq> of_nat n" using BBLOCK_bounds(2) [OF assms(1,4)] unat_of_block [OF assms(3)] assms(2) by auto
  then have "used g (take_block g n V) m = used g (bm_set g n V) m" by (simp add: take_block_def used_upd)
  then show ?thesis using used_bm_set [of n m V g] assms(3-5) size_lt [of g] by auto
qed

lemma length_bm_set: "length (V x) = BSIZE \<Longrightarrow> length (bm_set g n V x) = BSIZE"
  by (auto simp: bm_set_def)

lemma nfree_take_block:
  assumes "sb_ok g" "map_ok g V" "first_free g V n" "\<And>x. length (V x) = BSIZE"
  shows "nfree g (take_block g n V) = nfree g V - 1" "map_ok g (take_block g n V)"
proof -
  have n: "datastart g \<le> n" "n < unat (sb_size g)" "\<not> used g V n"
    using first_free_data [OF assms(2,3)] assms(3) by (auto simp: first_free_def)
  note u = used_take_block [OF assms(1) n(1,2), of _ V, OF _ assms(4)]
  have "{m. m < unat (sb_size g) \<and> \<not> used g (take_block g n V) m} = {m. m < unat (sb_size g) \<and> \<not> used g V m} - {n}"
    using u by auto
  then show "nfree g (take_block g n V) = nfree g V - 1" unfolding nfree_def using n by (simp add: card_Diff_singleton)
  show "map_ok g (take_block g n V)" using u assms(1,2) by (auto simp: map_ok_def sb_ok_def)
qed

subsection \<open>The blocks of a file\<close>

definition faddr :: "(u32 \<Rightarrow> block) \<Rightarrow> inode \<Rightarrow> nat \<Rightarrow> u32" where
  "faddr V ip k = (if k < NDIRECT then i_addrs ip ! k
     else if i_addrs ip ! NDIRECT = 0 then 0 else get32 (4 * (k - NDIRECT)) (V (i_addrs ip ! NDIRECT)))"

definition data_blk :: "superblock \<Rightarrow> (u32 \<Rightarrow> block) \<Rightarrow> u32 \<Rightarrow> bool" where
  "data_blk g V a \<longleftrightarrow> datastart g \<le> unat a \<and> unat a < unat (sb_size g) \<and> used g V (unat a)"

definition file_ok :: "superblock \<Rightarrow> (u32 \<Rightarrow> block) \<Rightarrow> inode \<Rightarrow> bool" where
  "file_ok g V ip \<longleftrightarrow> length (i_addrs ip) = NDIRECT + 1 \<and> i_dev ip = ROOTDEV \<and>
     (i_addrs ip ! NDIRECT \<noteq> 0 \<longrightarrow> data_blk g V (i_addrs ip ! NDIRECT)) \<and>
     (\<forall>k < MAXFILE. faddr V ip k \<noteq> 0 \<longrightarrow> data_blk g V (faddr V ip k) \<and> faddr V ip k \<noteq> i_addrs ip ! NDIRECT) \<and>
     (\<forall>k < MAXFILE. \<forall>j < MAXFILE. faddr V ip k = faddr V ip j \<and> faddr V ip k \<noteq> 0 \<longrightarrow> k = j)"

lemma file_okD:
  assumes "file_ok g V ip"
  shows "length (i_addrs ip) = NDIRECT + 1" "i_dev ip = ROOTDEV"
    "i_addrs ip ! NDIRECT \<noteq> 0 \<Longrightarrow> data_blk g V (i_addrs ip ! NDIRECT)"
    "k < MAXFILE \<Longrightarrow> faddr V ip k \<noteq> 0 \<Longrightarrow> data_blk g V (faddr V ip k)"
    "k < MAXFILE \<Longrightarrow> faddr V ip k \<noteq> 0 \<Longrightarrow> faddr V ip k \<noteq> i_addrs ip ! NDIRECT"
    "k < MAXFILE \<Longrightarrow> j < MAXFILE \<Longrightarrow> faddr V ip k = faddr V ip j \<Longrightarrow> faddr V ip k \<noteq> 0 \<Longrightarrow> k = j"
  using assms unfolding file_ok_def by blast+

lemma data_blk_take:
  assumes "sb_ok g" "map_ok g V" "first_free g V n" "\<And>x. length (V x) = BSIZE" "data_blk g V a"
  shows "data_blk g (take_block g n V) a" "take_block g n V a = V a" "a \<noteq> of_nat n"
proof -
  have n: "datastart g \<le> n" "n < unat (sb_size g)" "\<not> used g V n"
    using first_free_data [OF assms(2,3)] assms(3) by (auto simp: first_free_def)
  show ne: "a \<noteq> of_nat n" using assms(5) n unat_of_block [OF n(2)] by (auto simp: data_blk_def)
  show "data_blk g (take_block g n V) a" using assms(5) used_take_block [OF assms(1) n(1,2) _ assms(4)] by (auto simp: data_blk_def)
  show "take_block g n V a = V a" using take_block_other [OF assms(1) n(2) _ ne] assms(5) by (auto simp: data_blk_def)
qed

lemma data_blk_new:
  assumes "sb_ok g" "map_ok g V" "first_free g V n" "\<And>x. length (V x) = BSIZE"
  shows "data_blk g (take_block g n V) (of_nat n)" "(of_nat n :: u32) \<noteq> 0" "\<not> data_blk g V (of_nat n)"
proof -
  have n: "datastart g \<le> n" "n < unat (sb_size g)" "\<not> used g V n"
    using first_free_data [OF assms(2,3)] assms(3) by (auto simp: first_free_def)
  note un = unat_of_block [OF n(2)]
  show "data_blk g (take_block g n V) (of_nat n)" using n un used_take_block [OF assms(1) n(1,2,2) assms(4)] by (simp add: data_blk_def)
  show "(of_nat n :: u32) \<noteq> 0" using un n(1) by (auto simp: datastart_def)
  show "\<not> data_blk g V (of_nat n)" using n un by (simp add: data_blk_def)
qed

lemma fsblk_data: "sb_ok g \<Longrightarrow> data_blk g V a \<Longrightarrow> a \<in> fsblk g"
  by (auto simp: fsblk_def data_blk_def sb_ok_def datastart_def)

lemma fsblk_new:
  assumes "sb_ok g" "map_ok g V" "first_free g V n" "\<And>x. length (V x) = BSIZE"
  shows "BBLOCK n g \<in> fsblk g" "of_nat n \<in> fsblk g"
  using BBLOCK_bounds(1) [OF assms(1), of n] assms(1,3) fsblk_data [OF assms(1) data_blk_new(1) [OF assms]]
  by (auto simp: fsblk_def first_free_def sb_ok_def)

text \<open>
  \<open>grown g V ip k V' ip' a\<close>: the file has got block \<open>a\<close> as its block \<open>k\<close>, new and zeroed if it had none,
  its other blocks are the same, and nothing else on the disk has changed but the free map, the
  file's own indirect block and blocks that were free.
\<close>

definition grown :: "superblock \<Rightarrow> (u32 \<Rightarrow> block) \<Rightarrow> inode \<Rightarrow> nat \<Rightarrow> (u32 \<Rightarrow> block) \<Rightarrow> inode \<Rightarrow> u32 \<Rightarrow> bool" where
  "grown g V ip k V' ip' a \<longleftrightarrow> a \<noteq> 0 \<and> file_ok g V' ip' \<and> map_ok g V' \<and> ip' = ip\<lparr>i_addrs := i_addrs ip'\<rparr> \<and>
     (\<forall>j < MAXFILE. faddr V' ip' j = (if j = k then a else faddr V ip j)) \<and>
     (if faddr V ip k = 0 then V' a = replicate BSIZE 0 \<and> \<not> data_blk g V a else a = faddr V ip k) \<and>
     (\<forall>x. data_blk g V x \<and> x \<noteq> i_addrs ip ! NDIRECT \<longrightarrow> data_blk g V' x \<and> V' x = V x) \<and>
     (\<forall>x. unat x < unat (sb_bmapstart g) \<longrightarrow> V' x = V x) \<and> nfree g V \<le> nfree g V' + 2 \<and>
     (i_addrs ip' ! NDIRECT = i_addrs ip ! NDIRECT \<or> \<not> data_blk g V (i_addrs ip' ! NDIRECT))"

lemma grownD:
  assumes "grown g V ip k V' ip' a"
  shows "a \<noteq> 0" "file_ok g V' ip'" "map_ok g V'" "ip' = ip\<lparr>i_addrs := i_addrs ip'\<rparr>"
    "j < MAXFILE \<Longrightarrow> faddr V' ip' j = (if j = k then a else faddr V ip j)"
    "faddr V ip k = 0 \<Longrightarrow> V' a = replicate BSIZE 0" "faddr V ip k = 0 \<Longrightarrow> \<not> data_blk g V a"
    "faddr V ip k \<noteq> 0 \<Longrightarrow> a = faddr V ip k"
    "data_blk g V x \<Longrightarrow> x \<noteq> i_addrs ip ! NDIRECT \<Longrightarrow> data_blk g V' x"
    "data_blk g V x \<Longrightarrow> x \<noteq> i_addrs ip ! NDIRECT \<Longrightarrow> V' x = V x"
    "unat x < unat (sb_bmapstart g) \<Longrightarrow> V' x = V x" "nfree g V \<le> nfree g V' + 2"
    "i_addrs ip' ! NDIRECT = i_addrs ip ! NDIRECT \<or> \<not> data_blk g V (i_addrs ip' ! NDIRECT)"
  using assms unfolding grown_def by (blast, blast, blast, blast, blast, metis, metis, metis, blast, blast, blast, blast, blast)

lemma grown_same:
  assumes "file_ok g V ip" "map_ok g V" "k < MAXFILE" "faddr V ip k \<noteq> 0"
  shows "grown g V ip k V ip (faddr V ip k)"
  using assms by (simp add: grown_def)

lemma low_not_new: "sb_ok g \<Longrightarrow> map_ok g V \<Longrightarrow> first_free g V n \<Longrightarrow> unat x < unat (sb_bmapstart g) \<Longrightarrow> take_block g n V x = V x"
proof -
  assume g: "sb_ok g" "map_ok g V" "first_free g V n" and x: "unat x < unat (sb_bmapstart g)"
  have n: "n < unat (sb_size g)" "datastart g \<le> n" using g(3) first_free_data [OF g(2,3)] by (simp_all add: first_free_def)
  then have "x \<noteq> of_nat n" using unat_of_block [OF n(1)] x by (auto simp: datastart_def)
  then show ?thesis using take_block_other [OF g(1) n(1)] x by blast
qed

lemma file_ok_take:
  assumes "sb_ok g" "map_ok g V" "first_free g V n" "\<And>x. length (V x) = BSIZE" "file_ok g V ip"
  shows "file_ok g (take_block g n V) ip" "faddr (take_block g n V) ip k = faddr V ip k"
proof -
  note d = data_blk_take [OF assms(1-4)]
  show f: "faddr (take_block g n V) ip k = faddr V ip k" for k
    using file_okD(3) [OF assms(5)] d(2) by (simp add: faddr_def)
  show "file_ok g (take_block g n V) ip" using assms(5) d(1) unfolding file_ok_def f by blast
qed

lemma faddr_set_direct:
  assumes "length (i_addrs ip) = NDIRECT + 1" "k < NDIRECT"
  shows "faddr V (set_addr k a ip) j = (if j = k then a else faddr V ip j)"
  using assms by (simp add: faddr_def set_addr_def)

lemma grown_direct:
  assumes g: "sb_ok g" "map_ok g V" "first_free g V n" "\<And>x. length (V x) = BSIZE" and ip: "file_ok g V ip"
    and k: "k < NDIRECT" "i_addrs ip ! k = 0"
  shows "grown g V ip k (take_block g n V) (set_addr k (of_nat n) ip) (of_nat n)"
proof -
  let ?V = "take_block g n V" and ?ip = "set_addr k (of_nat n) ip" and ?a = "of_nat n :: u32"
  note d = data_blk_take [OF g] and new = data_blk_new [OF g]
  note ft = file_ok_take [OF g ip]
  have f: "faddr ?V ?ip j = (if j = k then ?a else faddr V ip j)" for j
    using faddr_set_direct [OF file_okD(1) [OF ip] k(1), of ?V ?a j] ft(2) by simp
  have ind: "i_addrs ?ip ! NDIRECT = i_addrs ip ! NDIRECT" using k(1) by (simp add: set_addr_def)
  have ne: "faddr V ip j \<noteq> ?a" if "j < MAXFILE" for j
    using file_okD(4) [OF ip that] d(3) new(2) by (cases "faddr V ip j = 0") auto
  have ind_ne: "i_addrs ip ! NDIRECT \<noteq> ?a" using file_okD(3) [OF ip] d(3) new(2) by (cases "i_addrs ip ! NDIRECT = 0") auto
  have "file_ok g ?V ?ip"
    unfolding file_ok_def f ind
    using file_okD(1-6) [OF ip] d(1) new(1) ne ne [symmetric] ind_ne by (auto simp: set_addr_def)
  moreover have "faddr V ip k = 0" using k by (simp add: faddr_def)
  moreover have "map_ok g ?V" "nfree g V \<le> nfree g ?V + 2" using nfree_take_block [OF g] by simp_all
  ultimately show ?thesis
    using f new d low_not_new [OF g(1-3)] ind by (simp add: grown_def set_addr_def)
qed

lemma ind_alloc:
  assumes g: "sb_ok g" "map_ok g V" "first_free g V n" "\<And>x. length (V x) = BSIZE" and ip: "file_ok g V ip"
    and k: "i_addrs ip ! NDIRECT = 0"
  defines "V1 \<equiv> take_block g n V" and "ip1 \<equiv> set_addr NDIRECT (of_nat n) ip"
  shows "file_ok g V1 ip1" "\<And>j. j < MAXFILE \<Longrightarrow> faddr V1 ip1 j = faddr V ip j" "i_addrs ip1 ! NDIRECT = of_nat n"
    "ip1 = ip\<lparr>i_addrs := i_addrs ip1\<rparr>"
proof -
  note d = data_blk_take [OF g] and new = data_blk_new [OF g] and l = file_okD(1) [OF ip]
  show ind: "i_addrs ip1 ! NDIRECT = of_nat n" using l by (simp add: ip1_def set_addr_def)
  show f: "faddr V1 ip1 j = faddr V ip j" if "j < MAXFILE" for j
  proof (cases "j < NDIRECT")
    case True
    then show ?thesis by (simp add: faddr_def ip1_def set_addr_def)
  next
    case False
    then show ?thesis using False k ind new(2) by (simp add: faddr_def V1_def get32_zeros)
  qed
  have ne: "faddr V ip j \<noteq> of_nat n" if "j < MAXFILE" for j
    using file_okD(4) [OF ip that] d(3) new(2) by (cases "faddr V ip j = 0") auto
  show "file_ok g V1 ip1"
    unfolding file_ok_def ind using file_okD(1-6) [OF ip] d(1) new(1) ne f by (auto simp: ip1_def set_addr_def V1_def)
qed (simp add: ip1_def set_addr_def)

lemma ind_slot: "NDIRECT \<le> k \<Longrightarrow> k < MAXFILE \<Longrightarrow> 4 * (k - NDIRECT) + 4 \<le> BSIZE"
  by (simp add: MAXFILE_def NINDIRECT_def NDIRECT_def BSIZE_def)

lemma used_data_upd: "sb_ok g \<Longrightarrow> n < unat (sb_size g) \<Longrightarrow> datastart g \<le> unat a \<Longrightarrow> used g (V(a := d)) n = used g V n"
  using BBLOCK_bounds(2) [of g n] by (intro used_upd) auto

lemma data_upd:
  assumes "sb_ok g" "datastart g \<le> unat a"
  shows "data_blk g (V(a := d)) x = data_blk g V x" "map_ok g (V(a := d)) = map_ok g V" "nfree g (V(a := d)) = nfree g V"
proof -
  note u = used_data_upd [OF assms(1) _ assms(2)]
  show "data_blk g (V(a := d)) x = data_blk g V x" using u by (auto simp: data_blk_def)
  show "map_ok g (V(a := d)) = map_ok g V" using u assms(1) by (auto simp: map_ok_def sb_ok_def)
  have "{n. n < unat (sb_size g) \<and> \<not> used g (V(a := d)) n} = {n. n < unat (sb_size g) \<and> \<not> used g V n}" using u by auto
  then show "nfree g (V(a := d)) = nfree g V" by (simp add: nfree_def)
qed

lemma grown_indirect:
  assumes g: "sb_ok g" "map_ok g V" "first_free g V n" "\<And>x. length (V x) = BSIZE" and ip: "file_ok g V ip"
    and k: "NDIRECT \<le> k" "k < MAXFILE" "i_addrs ip ! NDIRECT \<noteq> 0" "faddr V ip k = 0"
  defines "ind \<equiv> i_addrs ip ! NDIRECT"
  shows "grown g V ip k ((take_block g n V)(ind := put32 (4 * (k - NDIRECT)) (of_nat n) (V ind))) ip (of_nat n)"
proof -
  let ?V = "(take_block g n V)(ind := put32 (4 * (k - NDIRECT)) (of_nat n) (V ind))" and ?a = "of_nat n :: u32"
  note d = data_blk_take [OF g] and new = data_blk_new [OF g] and slot = ind_slot [OF k(1,2)]
  have i: "data_blk g V ind" using file_okD(3) [OF ip] k(3) by (simp add: ind_def)
  have ds: "datastart g \<le> unat ind" using i by (simp add: data_blk_def)
  have ni: "?a \<noteq> ind" using i new(3) by auto
  note up = data_upd [OF g(1) ds, of "take_block g n V"]
  have f: "faddr ?V ip j = (if j = k then ?a else faddr V ip j)" if "j < MAXFILE" for j
  proof (cases "j < NDIRECT")
    case True
    then show ?thesis using k(1) by (simp add: faddr_def)
  next
    case False
    then have "j \<noteq> k \<Longrightarrow> 4 * (j - NDIRECT) + 4 \<le> 4 * (k - NDIRECT) \<or> 4 * (k - NDIRECT) + 4 \<le> 4 * (j - NDIRECT)"
      using k(1) by auto
    then show ?thesis
      using False k(3) slot ind_slot [of j] that g(4) [of ind] by (auto simp: faddr_def ind_def [symmetric] field_simps2)
  qed
  have ne: "faddr V ip j \<noteq> ?a" if "j < MAXFILE" for j
    using file_okD(4) [OF ip that] d(3) new(2) by (cases "faddr V ip j = 0") auto
  have "file_ok g ?V ip"
    unfolding file_ok_def up using f file_okD(1-6) [OF ip] d(1) new(1) ne ne [symmetric] ni
    by (auto simp: ind_def)
  moreover have "map_ok g ?V" "nfree g V \<le> nfree g ?V + 2" using nfree_take_block [OF g] up by simp_all
  moreover have "unat x < unat (sb_bmapstart g) \<Longrightarrow> ?V x = V x" for x
    using low_not_new [OF g(1-3), of x] ds by (auto simp: datastart_def)
  ultimately show ?thesis using f new d k(4) ni up(1) by (auto simp: grown_def ind_def)
qed

lemma grown_after_ind:
  assumes g: "sb_ok g" "map_ok g V" "first_free g V n" "\<And>x. length (V x) = BSIZE" and ip: "file_ok g V ip"
    and k: "i_addrs ip ! NDIRECT = 0" "k < MAXFILE" "faddr V ip k = 0"
    and gr: "grown g (take_block g n V) (set_addr NDIRECT (of_nat n) ip) k V' ip' a" "nfree g (take_block g n V) \<le> nfree g V' + 1"
  shows "grown g V ip k V' ip' a"
proof -
  note i = ind_alloc [OF g ip k(1)] and d = data_blk_take [OF g] and new = data_blk_new [OF g]
  have "nfree g V \<le> nfree g V' + 2" using gr(2) nfree_take_block(1) [OF g] by simp
  moreover have "ip' = ip\<lparr>i_addrs := i_addrs ip'\<rparr>"
    using gr(1) i(4) unfolding grown_def by (metis inode.surjective inode.update_convs(10) set_addr_def)
  moreover have "\<not> data_blk g V a" using gr(1) i(2) [OF k(2)] k(3) d(1) by (auto simp: grown_def)
  moreover have "data_blk g V' x \<and> V' x = V x" if "data_blk g V x" for x
    using gr(1) d [OF that] i(3) unfolding grown_def by metis
  moreover have "\<not> data_blk g V (i_addrs ip' ! NDIRECT)"
    using gr(1) i(3) d(1) [of "i_addrs ip' ! NDIRECT"] new(3) unfolding grown_def by metis
  ultimately show ?thesis
    using gr(1) i(2) k low_not_new [OF g(1-3)] by (simp add: grown_def)
qed

subsection \<open>\<open>bmap\<close>\<close>

lemma ino_set_twice: "ino_set i f (ino_set i h b) = ino_set i (\<lambda>x. f (h x)) b"
  by (cases "i < length (inodes b)") (simp_all add: ino_set_def list_update_beyond)

lemma ino_set_id: "ino_set i (\<lambda>_. inodes b ! i) b = b"
  by (simp add: ino_set_def)

lemma ino_set_cong: "f (inodes b ! i) = h (inodes b ! i) \<Longrightarrow> ino_set i f b = ino_set i h b"
  by (simp add: ino_set_def)

lemma bmap_slot_tx:
  assumes t: "tx b V Map.empty {} bs s" and g: "sb_ok (sb b)" "map_ok (sb b) V" "0 < nfree (sb b) V"
    and ip: "file_ok (sb b) V (inodes b ! i)" "k \<le> NDIRECT" and room: "length bs + 3 \<le> LOGSIZE"
    and old: "i_addrs (inodes b ! i) ! k \<noteq> 0 \<Longrightarrow> Q (i_addrs (inodes b ! i) ! k) s"
    and new: "\<And>n t. i_addrs (inodes b ! i) ! k = 0 \<Longrightarrow> first_free (sb b) V n \<Longrightarrow>
        tx (ino_set i (set_addr k (of_nat n)) b) (take_block (sb b) n V) Map.empty {} (log_add (of_nat n) (log_add (BBLOCK n (sb b)) bs)) t \<Longrightarrow>
        Q (of_nat n) t"
  shows "wp (bmap_slot i k) Q s"
proof -
  have ino: "inodes s ! i = inodes b ! i" using tx_fields(2) [OF t] by simp
  obtain n where n: "first_free (sb b) V n" using ex_first_free [OF g(3)] by blast
  have "(of_nat n :: u32) \<noteq> 0" by (rule data_blk_new(2) [OF g(1,2) n txD(10) [OF t]])
  then have "wp (balloc ROOTDEV) (\<lambda>a. wp (if a = 0 then ret 0 else thn (ino_upd i (set_addr k a)) (ret a)) Q) s"
    if "i_addrs (inodes b ! i) ! k = 0"
    using room new [OF that n tx_ino_set]
    by (intro balloc_tx [OF t n first_free_int [OF g(2) n]]) (simp_all add: wp_steps NBUF_def LOGSIZE_def)
  then show ?thesis unfolding bmap_slot_def wp_steps wp_ino_get ino if_distrib [of wp] using old file_okD(2) [OF ip(1)] ino by (simp add: wp_steps)
qed

text \<open>The second half of \<open>bmap\<close>: looking up or filling an entry of the indirect block \<open>ind\<close>.\<close>

definition bmap_ind :: "nat \<Rightarrow> nat \<Rightarrow> u32 \<Rightarrow> ('z fsst_scheme, u32) kmon" where
  "bmap_ind i j ind =
     bnd (ino_get i i_dev) (\<lambda>dev.
     bnd (bread dev ind) (\<lambda>bp.
     bnd (bdata bp) (\<lambda>d.
     bnd (if get32 (4 * j) d = 0 then
            bnd (balloc dev) (\<lambda>addr.
            thn (whenM (addr \<noteq> 0) (thn (bdata_upd bp (put32 (4 * j) addr)) (log_write bp)))
                (ret addr))
          else ret (get32 (4 * j) d)) (\<lambda>addr.
     thn (brelse bp) (ret addr)))))"

lemma bmap_far:
  "NDIRECT \<le> k \<Longrightarrow> k < MAXFILE \<Longrightarrow>
     bmap i k = bnd (bmap_slot i NDIRECT) (\<lambda>addr. if addr = 0 then ret 0 else bmap_ind i (k - NDIRECT) addr)"
proof -
  assume "NDIRECT \<le> k" "k < MAXFILE"
  then have "k - NDIRECT < NINDIRECT" "\<not> k < NDIRECT" by (simp_all add: MAXFILE_def)
  then show ?thesis unfolding bmap_def bmap_ind_def by simp
qed

lemma bmap_ind_tx:
  assumes t: "tx b V Map.empty {} bs s" and g: "sb_ok (sb b)" "map_ok (sb b) V" "0 < nfree (sb b) V"
    and ip: "file_ok (sb b) V (inodes b ! i)" "NDIRECT \<le> k" "k < MAXFILE" and room: "length bs + 4 \<le> LOGSIZE"
    and ind: "ind = i_addrs (inodes b ! i) ! NDIRECT" "ind \<noteq> 0"
    and old: "\<And>t. faddr V (inodes b ! i) k \<noteq> 0 \<Longrightarrow> tx b V Map.empty {} bs t \<Longrightarrow> Q (faddr V (inodes b ! i) k) t"
    and new: "\<And>n t. faddr V (inodes b ! i) k = 0 \<Longrightarrow> first_free (sb b) V n \<Longrightarrow>
        tx b ((take_block (sb b) n V)(ind := put32 (4 * (k - NDIRECT)) (of_nat n) (V ind))) Map.empty {}
          (log_add ind (log_add (of_nat n) (log_add (BBLOCK n (sb b)) bs))) t \<Longrightarrow> Q (of_nat n) t"
  shows "wp (bmap_ind i (k - NDIRECT) ind) Q s"
proof -
  let ?j = "k - NDIRECT" and ?g = "sb b"
  have dev: "i_dev (inodes s ! i) = ROOTDEV" using tx_fields(2) [OF t] file_okD(2) [OF ip(1)] by simp
  have f: "faddr V (inodes b ! i) k = get32 (4 * ?j) (V ind)" using ip(2) ind by (simp add: faddr_def)
  have dat: "data_blk ?g V ind" using file_okD(3) [OF ip(1)] ind by simp
  obtain n where n: "first_free ?g V n" using ex_first_free [OF g(3)] by blast
  note dt = data_blk_take [OF g(1,2) n txD(10) [OF t] dat] and nz = data_blk_new(2) [OF g(1,2) n txD(10) [OF t]]
  have bn: "BBLOCK m ?g \<noteq> ind" if "m \<le> n" for m
    using BBLOCK_bounds(2) [OF g(1), of m] n that dat by (auto simp: first_free_def data_blk_def)
  show ?thesis
    unfolding bmap_ind_def wp_steps wp_ino_get dev
  proof (rule tx_bread [OF t])
    fix bp u assume u: "tx b V ([bp \<mapsto> ind]) {} bs u"
    have rel: "wp (brelse bp) R v" if "tx b W [bp \<mapsto> ind] {} cs v" "\<And>t. tx b W Map.empty {} cs t \<Longrightarrow> R () t" for W cs v R
      by (rule tx_brelse [OF that(1), of bp ind]) (use that(2) in simp_all)
    have al: "wp (balloc ROOTDEV) (\<lambda>a. wp (whenM (a \<noteq> 0) (thn (bdata_upd bp (put32 (4 * ?j) a)) (log_write bp)))
        (\<lambda>_. wp (ret a) (\<lambda>a. wp (brelse bp) (\<lambda>_. wp (ret a) Q)))) u" if z: "faddr V (inodes b ! i) k = 0"
    proof (rule balloc_tx [OF u n first_free_int [OF g(2) n]])
      fix v assume v: "tx b (take_block ?g n V) [bp \<mapsto> ind] {} (log_add (of_nat n) (log_add (BBLOCK n ?g) bs)) v"
      let ?cs = "log_add (of_nat n) (log_add (BBLOCK n ?g) bs)"
      have l: "length ?cs + 2 \<le> LOGSIZE" using room length_log_add [of "BBLOCK n ?g" bs] length_log_add [of "of_nat n" "log_add (BBLOCK n ?g) bs"] by simp
      show "wp (whenM ((of_nat n :: u32) \<noteq> 0) (thn (bdata_upd bp (put32 (4 * ?j) (of_nat n))) (log_write bp)))
        (\<lambda>_. wp (ret (of_nat n)) (\<lambda>a. wp (brelse bp) (\<lambda>_. wp (ret a) Q))) v"
        unfolding wp_simps wp_steps if_P [OF nz]
      proof (rule tx_upd [OF v, of bp ind])
        fix w assume "tx b ((take_block ?g n V)(ind := put32 (4 * ?j) (of_nat n) (take_block ?g n V ind))) [bp \<mapsto> ind] {ind} ?cs w"
        then have w: "tx b ((take_block ?g n V)(ind := put32 (4 * ?j) (of_nat n) (V ind))) [bp \<mapsto> ind] {ind} ?cs w" by (simp only: dt(2))
        show "wp (log_write bp) (\<lambda>_. wp (brelse bp) (\<lambda>_. Q (of_nat n))) w"
        proof (rule tx_log_write [OF w _ l])
          fix x assume "tx b ((take_block ?g n V)(ind := put32 (4 * ?j) (of_nat n) (V ind))) [bp \<mapsto> ind] ({ind} - {ind}) (log_add ind ?cs) x"
          then show "wp (brelse bp) (\<lambda>_. Q (of_nat n)) x" using new [OF z n] by (intro rel) simp_all
        qed simp
      qed (use dt(2) txD(10) [OF t, of ind] ind_slot [OF ip(2,3)] in simp_all)
    qed (use bn dt(3) room in \<open>auto simp: NBUF_def LOGSIZE_def MAXOPBLOCKS_def\<close>)
    have d: "wp (bdata bp) R u = R (V ind) u" for R using tx_bdata [OF u, of bp] by simp
    show "wp (bdata bp) (\<lambda>d. wp (if get32 (4 * ?j) d = 0 then bnd (balloc ROOTDEV) (\<lambda>addr.
            thn (whenM (addr \<noteq> 0) (thn (bdata_upd bp (put32 (4 * ?j) addr)) (log_write bp))) (ret addr))
          else ret (get32 (4 * ?j) d)) (\<lambda>a. wp (brelse bp) (\<lambda>_. wp (ret a) Q))) u"
      unfolding d using al old rel [OF u] f by (simp add: wp_steps)
  qed (use room in \<open>auto simp: NBUF_def LOGSIZE_def\<close>)
qed

lemma length_log_add2:
  "length (log_add x (log_add y bs)) \<le> length bs + 2" "length (log_add z (log_add x (log_add y bs))) \<le> length bs + 3"
  using length_log_add [of y bs] length_log_add [of x "log_add y bs"] length_log_add [of z "log_add x (log_add y bs)"] by simp_all

lemma bmap_tx:
  assumes t: "tx b V Map.empty {} bs s" and g: "sb_ok (sb b)" "map_ok (sb b) V" "2 \<le> nfree (sb b) V"
    and ip: "file_ok (sb b) V (inodes b ! i)" "k < MAXFILE" "i < length (inodes b)" and room: "length bs + 6 \<le> LOGSIZE"
    and Q: "\<And>V' ip' a bs' t. grown (sb b) V (inodes b ! i) k V' ip' a \<Longrightarrow> length bs' \<le> length bs + 5 \<Longrightarrow> set bs' \<subseteq> set bs \<union> fsblk (sb b) \<Longrightarrow>
        tx (ino_set i (\<lambda>_. ip') b) V' Map.empty {} bs' t \<Longrightarrow> Q a t"
  shows "wp (bmap i k) Q s"
proof -
  let ?g = "sb b" and ?ip = "inodes b ! i"
  note len = txD(10) [OF t]
  have same: "Q (faddr V ?ip k) u" if "faddr V ?ip k \<noteq> 0" "tx b V Map.empty {} bs u" for u
    by (rule Q [OF grown_same [OF ip(1) g(2) ip(2) that(1)]]) (use that(2) in \<open>simp_all add: ino_set_id\<close>)
  show ?thesis
  proof (cases "k < NDIRECT")
    case True
    have k: "faddr V ?ip k = i_addrs ?ip ! k" using True by (simp add: faddr_def)
    have "wp (bmap_slot i k) Q s"
    proof (rule bmap_slot_tx [OF t g(1,2) _ ip(1)])
      fix n u assume n: "i_addrs ?ip ! k = 0" "first_free ?g V n" and u: "tx (ino_set i (set_addr k (of_nat n)) b)
        (take_block ?g n V) Map.empty {} (log_add (of_nat n) (log_add (BBLOCK n ?g) bs)) u"
      have "ino_set i (set_addr k (of_nat n)) b = ino_set i (\<lambda>_. set_addr k (of_nat n) ?ip) b" by (rule ino_set_cong) simp
      then show "Q (of_nat n) u"
        by (intro Q [OF grown_direct [OF g(1,2) n(2) len ip(1) True n(1)], of "log_add (of_nat n) (log_add (BBLOCK n ?g) bs)"])
          (use u length_log_add2(1) [of "of_nat n" "BBLOCK n ?g" bs] fsblk_new [OF g(1,2) n(2) len] in simp_all)
    qed (use True room g(3) same t k in simp_all)
    then show ?thesis using True by (simp add: bmap_def)
  next
    case False
    then have k: "NDIRECT \<le> k" by simp
    show ?thesis
      unfolding bmap_far [OF k ip(2)] wp_steps
    proof (rule bmap_slot_tx [OF t g(1,2) _ ip(1)])
      assume z: "i_addrs ?ip ! NDIRECT \<noteq> 0"
      have "wp (bmap_ind i (k - NDIRECT) (i_addrs ?ip ! NDIRECT)) Q s"
      proof (rule bmap_ind_tx [OF t g(1,2) _ ip(1) k ip(2) _ refl z])
        fix n u assume n: "faddr V ?ip k = 0" "first_free ?g V n" and u: "tx b ((take_block ?g n V)(i_addrs ?ip ! NDIRECT :=
            put32 (4 * (k - NDIRECT)) (of_nat n) (V (i_addrs ?ip ! NDIRECT)))) Map.empty {}
            (log_add (i_addrs ?ip ! NDIRECT) (log_add (of_nat n) (log_add (BBLOCK n ?g) bs))) u"
        show "Q (of_nat n) u"
          by (rule Q [OF grown_indirect [OF g(1,2) n(2) len ip(1) k ip(2) z n(1)]])
            (use u length_log_add2(2) [of "i_addrs ?ip ! NDIRECT" "of_nat n" "BBLOCK n ?g" bs] fsblk_new [OF g(1,2) n(2) len]
              fsblk_data [OF g(1) file_okD(3) [OF ip(1) z]] in \<open>auto simp: ino_set_id\<close>)
      qed (use g(3) room same in simp_all)
      then show "wp (if i_addrs ?ip ! NDIRECT = 0 then ret 0 else bmap_ind i (k - NDIRECT) (i_addrs ?ip ! NDIRECT)) Q s"
        using z by simp
    next
      fix n u assume z: "i_addrs ?ip ! NDIRECT = 0" and n: "first_free ?g V n"
        and u: "tx (ino_set i (set_addr NDIRECT (of_nat n)) b) (take_block ?g n V) Map.empty {} (log_add (of_nat n) (log_add (BBLOCK n ?g) bs)) u"
      let ?V = "take_block ?g n V" and ?jp = "set_addr NDIRECT (of_nat n) ?ip" and ?b = "ino_set i (set_addr NDIRECT (of_nat n)) b"
      let ?cs = "log_add (of_nat n) (log_add (BBLOCK n ?g) bs)"
      note ia = ind_alloc [OF g(1,2) n len ip(1) z] and nf = nfree_take_block [OF g(1,2) n len]
      have nz: "(of_nat n :: u32) \<noteq> 0" by (rule data_blk_new(2) [OF g(1,2) n len])
      have f0: "faddr V ?ip k = 0" using z k by (simp add: faddr_def)
      have cs: "length ?cs \<le> length bs + 2" by (rule length_log_add2)
      have jp: "inodes ?b ! i = ?jp" using ip(3) by simp
      have "wp (bmap_ind i (k - NDIRECT) (of_nat n)) Q u"
      proof (rule bmap_ind_tx [OF u, where k = k], unfold jp ino_set_simps(1))
        fix m v assume m: "faddr ?V ?jp k = 0" "first_free ?g ?V m" and v: "tx ?b ((take_block ?g m ?V)(of_nat n :=
            put32 (4 * (k - NDIRECT)) (of_nat m) (?V (of_nat n)))) Map.empty {} (log_add (of_nat n) (log_add (of_nat m) (log_add (BBLOCK m ?g) ?cs))) v"
        let ?W = "(take_block ?g m ?V)(of_nat n := put32 (4 * (k - NDIRECT)) (of_nat m) (?V (of_nat n)))"
        have lV: "length (?V x) = BSIZE" for x using txD(10) [OF u] .
        have gr: "grown ?g ?V ?jp k ?W ?jp (of_nat m)"
          using grown_indirect [OF g(1) nf(2) m(2) lV ia(1) k ip(2) _ m(1)] nz unfolding ia(3) by simp
        have "datastart ?g \<le> unat (of_nat n :: u32)" using data_blk_new(1) [OF g(1,2) n len] by (simp add: data_blk_def)
        then have "nfree ?g ?V \<le> nfree ?g ?W + 1"
          using data_upd(3) [OF g(1), of "of_nat n"] nfree_take_block(1) [OF g(1) nf(2) m(2) lV] by simp
        then have gr: "grown ?g V ?ip k ?W ?jp (of_nat m)" by (rule grown_after_ind [OF g(1,2) n len ip(1) z ip(2) f0 gr])
        have b: "?b = ino_set i (\<lambda>_. ?jp) b" by (rule ino_set_cong) simp
        show "Q (of_nat m) v"
          by (rule Q [OF gr]) (use v b cs length_log_add2(2) [of "of_nat n" "of_nat m" "BBLOCK m ?g" ?cs]
              fsblk_new [OF g(1,2) n len] fsblk_new [OF g(1) nf(2) m(2) lV] in auto)
      qed (use ia ip(2) k f0 nz g nf cs room in simp_all)
      then show "wp (if (of_nat n :: u32) = 0 then ret 0 else bmap_ind i (k - NDIRECT) (of_nat n)) Q u" using nz by simp
    qed (use g(3) room in simp_all)
  qed
qed

end
