(* ===== verification/Fs_Rw.thy ===== *)
theory Fs_Rw
  imports Fs_Files
begin

text \<open>
  Reading and writing files. The contents of a file is the sequence of its bytes up to its size;
  \<open>readi\<close> returns a part of it, \<open>writei\<close> replaces a part or extends it, and both leave every block that
  does not belong to the file alone.
\<close>

subsection \<open>Contents\<close>

definition fbyte :: "(u32 \<Rightarrow> block) \<Rightarrow> inode \<Rightarrow> nat \<Rightarrow> u8" where
  "fbyte V ip p = (if faddr V ip (p div BSIZE) = 0 then 0 else V (faddr V ip (p div BSIZE)) ! (p mod BSIZE))"

definition content :: "(u32 \<Rightarrow> block) \<Rightarrow> inode \<Rightarrow> u8 list" where
  "content V ip = map (fbyte V ip) [0..<unat (i_size ip)]"

definition fblocks :: "(u32 \<Rightarrow> block) \<Rightarrow> inode \<Rightarrow> u32 set" where
  "fblocks V ip = insert (i_addrs ip ! NDIRECT) (faddr V ip ` {..<MAXFILE})"

text \<open>No holes below the size, and the size is legal.\<close>

definition full :: "(u32 \<Rightarrow> block) \<Rightarrow> inode \<Rightarrow> bool" where
  "full V ip \<longleftrightarrow> unat (i_size ip) \<le> MAXFILE * BSIZE \<and> (\<forall>k. k * BSIZE < unat (i_size ip) \<longrightarrow> faddr V ip k \<noteq> 0)"

lemma length_content [simp]: "length (content V ip) = unat (i_size ip)"
  by (simp add: content_def)

lemma BSIZE_pos [simp]: "0 < BSIZE" by (simp add: BSIZE_def)

lemma same_block:
  assumes "j < block_room n off"
  shows "(off + j) div BSIZE = off div BSIZE" "(off + j) mod BSIZE = off mod BSIZE + j"
proof -
  have l: "off mod BSIZE + j < BSIZE" using assms unfolding block_room_def by linarith
  have "off + j = off div BSIZE * BSIZE + (off mod BSIZE + j)" using div_mult_mod_eq [of off BSIZE] by linarith
  then show "(off + j) div BSIZE = off div BSIZE" "(off + j) mod BSIZE = off mod BSIZE + j"
    using l by (metis BSIZE_pos add.commute add.right_neutral div_less div_mult_self3 less_not_refl2, metis l mod_less mod_mult_self3)
qed

lemma range_block: "off \<le> p \<Longrightarrow> p < off + n \<Longrightarrow> off mod BSIZE + n \<le> BSIZE \<Longrightarrow> p div BSIZE = off div BSIZE"
proof -
  assume "off \<le> p" "p < off + n" "off mod BSIZE + n \<le> BSIZE"
  then have "p - off < block_room n off" "off + (p - off) = p" unfolding block_room_def by linarith+
  then show ?thesis using same_block(1) [of "p - off" n off] by simp
qed

lemma block_room_le: "block_room n off \<le> n" "off mod BSIZE + block_room n off \<le> BSIZE"
  using mod_less_divisor [OF BSIZE_pos, of off] unfolding block_room_def by linarith+

lemma get_bytes_fbyte:
  assumes "faddr V ip (off div BSIZE) \<noteq> 0" "length (V (faddr V ip (off div BSIZE))) = BSIZE"
  shows "get_bytes (off mod BSIZE) (block_room n off) (V (faddr V ip (off div BSIZE))) = map (fbyte V ip) [off..<off + block_room n off]"
proof (rule nth_equalityI)
  have l: "off mod BSIZE + block_room n off \<le> length (V (faddr V ip (off div BSIZE)))" using block_room_le(2) assms(2) by simp
  then show "length (get_bytes (off mod BSIZE) (block_room n off) (V (faddr V ip (off div BSIZE)))) =
      length (map (fbyte V ip) [off..<off + block_room n off])" by simp
  fix j assume "j < length (get_bytes (off mod BSIZE) (block_room n off) (V (faddr V ip (off div BSIZE))))"
  then have j: "j < block_room n off" using l by simp
  show "get_bytes (off mod BSIZE) (block_room n off) (V (faddr V ip (off div BSIZE))) ! j = map (fbyte V ip) [off..<off + block_room n off] ! j"
    using j nth_get_bytes [OF l j] same_block [OF j] assms(1) by (simp add: fbyte_def)
qed

subsection \<open>\<open>readi\<close>\<close>

lemma bmap_read:
  assumes t: "tx b V Map.empty {} bs s" and ip: "file_ok g V (inodes b ! i)" "k < MAXFILE" and m: "faddr V (inodes b ! i) k \<noteq> 0"
    and room: "length bs < NBUF" and Q: "\<And>t. tx b V Map.empty {} bs t \<Longrightarrow> Q (faddr V (inodes b ! i) k) t"
  shows "wp (bmap i k) Q s"
proof -
  let ?ip = "inodes b ! i"
  have ino: "inodes s ! i = ?ip" using tx_fields(2) [OF t] by simp
  show ?thesis
  proof (cases "k < NDIRECT")
    case True
    then have "i_addrs ?ip ! k \<noteq> 0" "faddr V ?ip k = i_addrs ?ip ! k" using m by (simp_all add: faddr_def)
    then show ?thesis using True Q [OF t] ino by (simp add: bmap_def bmap_slot_def wp_steps)
  next
    case False
    then have k: "NDIRECT \<le> k" by simp
    let ?ind = "i_addrs ?ip ! NDIRECT"
    have z: "?ind \<noteq> 0" and f: "faddr V ?ip k = get32 (4 * (k - NDIRECT)) (V ?ind)" using m k by (auto simp: faddr_def split: if_splits)
    have dev: "i_dev ?ip = ROOTDEV" by (rule file_okD(2) [OF ip(1)])
    have "wp (bmap_ind i (k - NDIRECT) ?ind) Q s"
      unfolding bmap_ind_def wp_steps wp_ino_get ino dev
    proof (rule tx_bread [OF t])
      fix bp u assume u: "tx b V ([bp \<mapsto> ?ind]) {} bs u"
      have d: "wp (bdata bp) R u = R (V ?ind) u" for R using tx_bdata [OF u, of bp] by simp
      show "wp (bdata bp) (\<lambda>d. wp (if get32 (4 * (k - NDIRECT)) d = 0 then bnd (balloc ROOTDEV) (\<lambda>addr.
            thn (whenM (addr \<noteq> 0) (thn (bdata_upd bp (put32 (4 * (k - NDIRECT)) addr)) (log_write bp))) (ret addr))
          else ret (get32 (4 * (k - NDIRECT)) d)) (\<lambda>a. wp (brelse bp) (\<lambda>_. wp (ret a) Q))) u"
        unfolding d using m f Q by (simp, intro tx_brelse [OF u, of bp ?ind]) simp_all
    qed (use room in simp_all)
    then show ?thesis using z ino unfolding bmap_far [OF k ip(2)] by (simp add: bmap_slot_def wp_steps)
  qed
qed

lemma either_copyout_DObj: "calm s \<Longrightarrow> either_copyout_obj DObj bs s = Done 0 s"
  using calmD [of s] myproc_quiet [of s] by (simp add: either_copyout_obj_def kmon_simps bnd_run)

lemma upt_split: "m \<le> n \<Longrightarrow> [off..<off + n] = [off..<off + m] @ [off + m..<off + n]"
  using upt_add_eq_append [of off "off + m" "n - m"] by simp

lemma off_block: "off < z \<Longrightarrow> z \<le> MAXFILE * BSIZE \<Longrightarrow> off div BSIZE < MAXFILE \<and> off div BSIZE * BSIZE < z"
  using less_mult_imp_div_less [of off MAXFILE BSIZE] div_times_less_eq_dividend [of off BSIZE] by linarith

lemma readi_loop_tx:
  assumes ip: "file_ok g V (inodes b ! i)" "full V (inodes b ! i)" and room: "length bs < NBUF"
    and t: "tx b V Map.empty {} bs s" "off + n \<le> unat (i_size (inodes b ! i))"
    and Q: "\<And>t. tx b V Map.empty {} bs t \<Longrightarrow>
      Q (int (length got + n), got @ map (fbyte V (inodes b ! i)) [off..<off + n]) t"
  shows "wp (readi_loop i DObj off n got) Q s"
  using t Q
proof (induction n arbitrary: off got s rule: less_induct)
  case (less n)
  let ?ip = "inodes b ! i"
  show ?case
  proof (cases "n = 0")
    case True
    then show ?thesis using less.prems(1) less.prems(3) [of s] by (subst readi_loop.simps) simp
  next
    case False
    let ?k = "off div BSIZE" and ?m = "block_room n off"
    have k: "?k < MAXFILE" "?k * BSIZE < unat (i_size ?ip)"
      using off_block [of off "unat (i_size ?ip)"] less.prems(2) ip(2) False by (simp_all add: full_def)
    then have a: "faddr V ?ip ?k \<noteq> 0" using ip(2) by (simp add: full_def)
    have m: "0 < ?m" "?m \<le> n" using False block_room_pos block_room_le by simp_all
    let ?d = "map (fbyte V ?ip) [off..<off + ?m]"
    have g: "get_bytes (off mod BSIZE) ?m (V (faddr V ?ip ?k)) = ?d" by (rule get_bytes_fbyte [OF a txD(10) [OF t(1)]])
    have step: "wp (readi_loop i DObj (off + ?m) (n - ?m) (got @ ?d)) Q u" if "tx b V Map.empty {} bs u" for u
    proof (rule less.IH)
      fix v assume v: "tx b V Map.empty {} bs v"
      have "(got @ ?d) @ map (fbyte V ?ip) [off + ?m..<off + ?m + (n - ?m)] = got @ map (fbyte V ?ip) [off..<off + n]"
        using upt_split [OF m(2), of off] m(2) by simp
      then show "Q (int (length (got @ ?d) + (n - ?m)), (got @ ?d) @ map (fbyte V ?ip) [off + ?m..<off + ?m + (n - ?m)]) v"
        using less.prems(3) [OF v] m(2) by simp
    qed (use m less.prems(2) that in simp_all)
    show ?thesis
      unfolding readi_loop.simps [of i DObj off n] if_not_P [OF False] wp_steps
    proof (rule bmap_read [OF less.prems(1) ip(1) k(1) a room])
      fix u assume u: "tx b V Map.empty {} bs u"
      have dev: "i_dev (inodes u ! i) = ROOTDEV" using tx_fields(2) [OF u] file_okD(2) [OF ip(1)] by simp
      show "wp (if faddr V ?ip ?k = 0 then ret (int (length got), got) else bnd (ino_get i i_dev) (\<lambda>dev.
          bnd (bread dev (faddr V ?ip ?k)) (\<lambda>bp. bnd (bdata bp) (\<lambda>d.
          bnd (either_copyout_obj DObj (get_bytes (off mod BSIZE) ?m d)) (\<lambda>r. thn (brelse bp) (
          if r = -1 then ret (-1, got) else readi_loop i (dst_add DObj ?m) (off + ?m) (n - ?m)
            (got @ get_bytes (off mod BSIZE) ?m d))))))) Q u"
        unfolding if_not_P [OF a] wp_steps wp_ino_get dev
      proof (rule tx_bread [OF u])
        fix bp v assume v: "tx b V [bp \<mapsto> faddr V ?ip ?k] {} bs v"
        have d: "wp (bdata bp) R v = R (V (faddr V ?ip ?k)) v" for R using tx_bdata [OF v, of bp] by simp
        have co: "wp (either_copyout_obj DObj x) R v = R 0 v" for R x
          using either_copyout_DObj [OF txD(2) [OF v]] by (simp add: wp_def)
        show "wp (bdata bp) (\<lambda>d. wp (either_copyout_obj DObj (get_bytes (off mod BSIZE) ?m d)) (\<lambda>r. wp (brelse bp) (\<lambda>_.
            wp (if r = -1 then ret (-1, got) else readi_loop i (dst_add DObj ?m) (off + ?m) (n - ?m)
            (got @ get_bytes (off mod BSIZE) ?m d)) Q))) v"
          unfolding d co g by (rule tx_brelse [OF v, of bp]) (use step in simp_all)
      qed (use room in simp_all)
    qed
  qed
qed

lemma take_drop_upt: "take n (drop off (map f [0..<z])) = map f [off..<min (off + n) z]"
  by (rule nth_equalityI) auto

lemma readi_tx:
  assumes t: "tx b V Map.empty {} bs s" and ip: "file_ok g V (inodes b ! i)" "full V (inodes b ! i)"
    and room: "length bs < NBUF" and off: "unat off + unat n < 2 ^ 32"
    and Q: "\<And>t ds. tx b V Map.empty {} bs t \<Longrightarrow> ds = take (unat n) (drop (unat off) (content V (inodes b ! i))) \<Longrightarrow> Q (int (length ds), ds) t"
  shows "wp (readi i DObj off n) Q s"
proof -
  let ?ip = "inodes b ! i"
  let ?z = "i_size ?ip"
  let ?n = "unat (if off + n > ?z then ?z - off else n)"
  have ino: "inodes s ! i = ?ip" using tx_fields(2) [OF t] by simp
  have on: "unat (off + n) = unat off + unat n" using off unat_add_lem [of off n] by simp
  then have nw: "\<not> off + n < off" by (simp add: word_less_nat_alt)
  show ?thesis
  proof (cases "off > ?z")
    case True
    then have "[] = take (unat n) (drop (unat off) (content V ?ip))" by (simp add: word_less_nat_alt)
    from Q [OF t this] show ?thesis using True ino by (simp add: readi_def wp_steps)
  next
    case False
    then have le: "unat off \<le> unat ?z" by (simp add: word_less_nat_alt)
    have n: "unat off + ?n = min (unat off + unat n) (unat ?z)"
      using le on unat_sub [of off ?z] by (auto simp: word_less_nat_alt word_le_nat_alt)
    have ds: "map (fbyte V ?ip) [unat off..<unat off + ?n] = take (unat n) (drop (unat off) (content V ?ip))"
      unfolding n content_def take_drop_upt ..
    have "wp (readi_loop i DObj (unat off) ?n []) Q s"
    proof (rule readi_loop_tx [OF ip room t])
      fix u assume u: "tx b V Map.empty {} bs u"
      show "Q (int (length [] + ?n), [] @ map (fbyte V ?ip) [unat off..<unat off + ?n]) u"
        using Q [OF u ds] by simp
    qed (use n in simp)
    then show ?thesis using False nw ino by (auto simp: readi_def wp_steps)
  qed
qed

subsection \<open>What a write does\<close>

definition fframe :: "superblock \<Rightarrow> (u32 \<Rightarrow> block) \<Rightarrow> inode \<Rightarrow> (u32 \<Rightarrow> block) \<Rightarrow> inode \<Rightarrow> bool" where
  "fframe g V ip V' ip' \<longleftrightarrow>
     (\<forall>x. data_blk g V x \<and> x \<notin> fblocks V ip \<longrightarrow> data_blk g V' x \<and> V' x = V x \<and> x \<notin> fblocks V' ip') \<and>
     (\<forall>x. unat x < unat (sb_bmapstart g) \<longrightarrow> V' x = V x)"

definition wrote :: "superblock \<Rightarrow> (u32 \<Rightarrow> block) \<Rightarrow> inode \<Rightarrow> nat \<Rightarrow> u8 list \<Rightarrow> (u32 \<Rightarrow> block) \<Rightarrow> inode \<Rightarrow> bool" where
  "wrote g V ip off ds V' ip' \<longleftrightarrow> file_ok g V' ip' \<and> map_ok g V' \<and> ip' = ip\<lparr>i_addrs := i_addrs ip'\<rparr> \<and>
     (\<forall>p < MAXFILE * BSIZE. fbyte V' ip' p = (if off \<le> p \<and> p < off + length ds then ds ! (p - off) else fbyte V ip p)) \<and>
     (\<forall>k < MAXFILE. faddr V' ip' k = 0 \<longleftrightarrow> faddr V ip k = 0 \<and> (\<forall>p. off \<le> p \<and> p < off + length ds \<longrightarrow> p div BSIZE \<noteq> k)) \<and>
     fframe g V ip V' ip'"

lemma fframe_refl: "fframe g V ip V ip"
  by (simp add: fframe_def)

lemma fframe_trans: "fframe g V ip V' ip' \<Longrightarrow> fframe g V' ip' V'' ip'' \<Longrightarrow> fframe g V ip V'' ip''"
  by (simp add: fframe_def)

lemma wrote_nil: "file_ok g V ip \<Longrightarrow> map_ok g V \<Longrightarrow> wrote g V ip off [] V ip"
  by (auto simp: wrote_def fframe_refl)

lemma wrote_trans:
  assumes 1: "wrote g V ip off ds V1 ip1" and 2: "wrote g V1 ip1 (off + length ds) es V2 ip2"
  shows "wrote g V ip off (ds @ es) V2 ip2"
proof -
  have "fbyte V2 ip2 p = (if off \<le> p \<and> p < off + length (ds @ es) then (ds @ es) ! (p - off) else fbyte V ip p)"
    if "p < MAXFILE * BSIZE" for p
    using 1 2 that by (auto simp: wrote_def nth_append)
  moreover have "(faddr V2 ip2 k = 0) = (faddr V ip k = 0 \<and> (\<forall>p. off \<le> p \<and> p < off + length (ds @ es) \<longrightarrow> p div BSIZE \<noteq> k))"
    if "k < MAXFILE" for k
  proof -
    have "(off \<le> p \<and> p < off + length (ds @ es)) =
        (off \<le> p \<and> p < off + length ds \<or> off + length ds \<le> p \<and> p < off + length ds + length es)" for p by auto
    then show ?thesis using 1 2 that unfolding wrote_def by metis
  qed
  moreover have "ip2 = ip\<lparr>i_addrs := i_addrs ip2\<rparr>" using 1 2 unfolding wrote_def by (metis inode.surjective inode.update_convs(10))
  moreover have "fframe g V ip V2 ip2" using 1 2 fframe_trans unfolding wrote_def by blast
  moreover have "file_ok g V2 ip2" "map_ok g V2" using 2 by (simp_all add: wrote_def)
  ultimately show ?thesis unfolding wrote_def by blast
qed

lemma fblocks_data: "file_ok g V ip \<Longrightarrow> x \<in> fblocks V ip \<Longrightarrow> x = 0 \<or> data_blk g V x"
  using file_okD(3,4) [of g V ip] by (auto simp: fblocks_def)

lemma grown_fbyte:
  assumes "file_ok g V ip" "grown g V ip k V1 ip1 a" "p < MAXFILE * BSIZE"
  shows "fbyte V1 ip1 p = fbyte V ip p"
proof -
  let ?j = "p div BSIZE"
  have j: "?j < MAXFILE" using less_mult_imp_div_less [OF assms(3)] .
  have f: "faddr V1 ip1 ?j = (if ?j = k then a else faddr V ip ?j)" "a \<noteq> 0" "faddr V ip k = 0 \<Longrightarrow> V1 a = replicate BSIZE 0"
    by (rule grownD(5,1,6) [OF assms(2)]; use j in simp)+
  note same = grownD(8) [OF assms(2)]
  show ?thesis
  proof (cases "faddr V ip ?j = 0")
    case True
    then show ?thesis using f by (auto simp: fbyte_def)
  next
    case False
    then have "V1 (faddr V ip ?j) = V (faddr V ip ?j)"
      using grownD(10) [OF assms(2)] file_okD(4,5) [OF assms(1) j] by blast
    moreover have "faddr V1 ip1 ?j = faddr V ip ?j"
      using f(1) same False by auto
    ultimately show ?thesis by (simp add: fbyte_def)
  qed
qed

lemma wrote_step:
  assumes g: "sb_ok g" and ip: "file_ok g V ip" and gr: "grown g V ip (off div BSIZE) V1 ip1 a"
    and ds: "0 < length ds" "off mod BSIZE + length ds \<le> BSIZE" and k: "off div BSIZE < MAXFILE" and l: "length (V1 a) = BSIZE"
  defines "V2 \<equiv> V1(a := put_bytes (off mod BSIZE) ds (V1 a))"
  shows "wrote g V ip off ds V2 ip1"
proof -
  let ?k = "off div BSIZE"
  have f1: "faddr V1 ip1 j = (if j = ?k then a else faddr V ip j)" if "j < MAXFILE" for j by (rule grownD(5) [OF gr that])
  have ok1: "file_ok g V1 ip1" and a0: "a \<noteq> 0" by (rule grownD(2) [OF gr], rule grownD(1) [OF gr])
  have a: "data_blk g V1 a" "a \<noteq> i_addrs ip1 ! NDIRECT" using file_okD(4,5) [OF ok1 k] f1 [OF k] a0 by simp_all
  have ds_a: "datastart g \<le> unat a" using a(1) by (simp add: data_blk_def)
  note up = data_upd [OF g ds_a, of V1 "put_bytes (off mod BSIZE) ds (V1 a)", folded V2_def]
  have f2: "faddr V2 ip1 j = faddr V1 ip1 j" for j using a(2) by (simp add: faddr_def V2_def)
  have ok2: "file_ok g V2 ip1" using ok1 unfolding file_ok_def f2 up(1) .
  have byte: "fbyte V2 ip1 p = (if off \<le> p \<and> p < off + length ds then ds ! (p - off) else fbyte V ip p)"
    if p: "p < MAXFILE * BSIZE" for p
  proof -
    let ?j = "p div BSIZE"
    have j: "?j < MAXFILE" using less_mult_imp_div_less [OF p] .
    have "fbyte V2 ip1 p = (if off \<le> p \<and> p < off + length ds then ds ! (p - off) else fbyte V1 ip1 p)"
    proof (cases "?j = ?k")
      case True
      have eq: "p = ?k * BSIZE + p mod BSIZE" "off = ?k * BSIZE + off mod BSIZE" using True div_mult_mod_eq [of p BSIZE] div_mult_mod_eq [of off BSIZE] by simp_all
      then have in_r: "off mod BSIZE \<le> p mod BSIZE \<and> p mod BSIZE < off mod BSIZE + length ds \<longleftrightarrow> off \<le> p \<and> p < off + length ds"
        and diff: "p mod BSIZE - off mod BSIZE = p - off" by linarith+
      show ?thesis
        using nth_put_bytes [of "off mod BSIZE" ds "V1 a" "p mod BSIZE"] l ds(2) f1 [OF j] f2 True a0 in_r diff
        by (auto simp: fbyte_def V2_def)
    next
      case False
      have "\<not> (off \<le> p \<and> p < off + length ds)"
        using range_block [of off p "length ds"] ds(2) False by blast
      moreover have "faddr V1 ip1 ?j \<noteq> a" if "faddr V1 ip1 ?j \<noteq> 0"
        using file_okD(6) [OF ok1 j k _ that] f1 [OF k] False by auto
      ultimately show ?thesis using f2 by (auto simp: fbyte_def V2_def)
    qed
    then show ?thesis using grown_fbyte [OF ip gr p] by simp
  qed
  have zero: "(faddr V2 ip1 j = 0) = (faddr V ip j = 0 \<and> (\<forall>p. off \<le> p \<and> p < off + length ds \<longrightarrow> p div BSIZE \<noteq> j))"
    if j: "j < MAXFILE" for j
  proof -
    have "p div BSIZE = ?k" if "off \<le> p" "p < off + length ds" for p
      using range_block [of off p "length ds"] ds(2) that by blast
    then have "(\<forall>p. off \<le> p \<and> p < off + length ds \<longrightarrow> p div BSIZE \<noteq> j) \<longleftrightarrow> j \<noteq> ?k" using ds(1) by (metis less_add_same_cancel1 order_refl)
    then show ?thesis using f1 [OF j] f2 [of j] a0 by simp
  qed
  have "fframe g V ip V2 ip1"
    unfolding fframe_def
  proof (intro conjI allI impI)
    fix x assume x: "data_blk g V x \<and> x \<notin> fblocks V ip"
    then have xi: "x \<noteq> i_addrs ip ! NDIRECT" and xf: "\<And>j. j < MAXFILE \<Longrightarrow> x \<noteq> faddr V ip j" by (auto simp: fblocks_def)
    have xa: "x \<noteq> a" using grownD(7,8) [OF gr] x xf [OF k] by blast
    show "data_blk g V2 x" "V2 x = V x" using grownD(9,10) [OF gr, of x] x xi xa unfolding up(1) by (simp_all add: V2_def)
    have "x \<noteq> i_addrs ip1 ! NDIRECT" using grownD(13) [OF gr] x xi by metis
    then show "x \<notin> fblocks V2 ip1" using f1 f2 xf xa by (auto simp: fblocks_def)
  next
    fix x :: u32 assume x: "unat x < unat (sb_bmapstart g)"
    then have "x \<noteq> a" using ds_a by (auto simp: datastart_def)
    then show "V2 x = V x" using grownD(11) [OF gr x] by (simp add: V2_def)
  qed
  moreover have "map_ok g V2" "ip1 = ip\<lparr>i_addrs := i_addrs ip1\<rparr>" using grownD(3) [OF gr] up(2) by simp (rule grownD(4) [OF gr])
  ultimately show ?thesis unfolding wrote_def by (intro conjI allI impI ok2 byte zero)
qed

subsection \<open>\<open>writei\<close>\<close>

text \<open>Copying from the source gives the bytes \<open>ds\<close>, in whatever pieces.\<close>

definition src_ok :: "'z procst_scheme \<Rightarrow> ksrc \<Rightarrow> u8 list \<Rightarrow> bool" where
  "src_ok b src ds \<longleftrightarrow> (\<forall>(t :: 'z procst_scheme) k m. calm t \<and> mem t = mem b \<and> procs t = procs b \<and> cur t = cur b \<and> k + m \<le> length ds \<longrightarrow>
     either_copyin_obj (src_add src k) m t = Done (0, get_bytes k m ds) t)"

lemma src_add_add: "src_add (src_add src k) m = src_add src (k + m)"
  by (cases src) (simp_all add: add.assoc add.commute)

lemma src_ok_add: "src_ok b src ds \<Longrightarrow> k \<le> length ds \<Longrightarrow> src_ok b (src_add src k) (drop k ds)"
  unfolding src_ok_def src_add_add
proof (intro allI impI)
  fix t :: "'a procst_scheme" and j m
  assume s: "\<forall>(t :: 'a procst_scheme) k m. calm t \<and> mem t = mem b \<and> procs t = procs b \<and> cur t = cur b \<and> k + m \<le> length ds \<longrightarrow>
      either_copyin_obj (src_add src k) m t = Done (0, get_bytes k m ds) t"
    and k: "k \<le> length ds" and t: "calm t \<and> mem t = mem b \<and> procs t = procs b \<and> cur t = cur b \<and> j + m \<le> length (drop k ds)"
  have "k + j + m \<le> length ds" using t k by auto
  then show "either_copyin_obj (src_add src (k + j)) m t = Done (0, get_bytes j m (drop k ds)) t"
    using s t by (simp add: get_bytes_def add.commute)
qed

lemma src_ok_SObj: "src_ok b (SObj ds) ds"
  unfolding src_ok_def
proof (intro allI impI)
  fix t :: "'z procst_scheme" and k m assume a: "calm t \<and> mem t = mem b \<and> procs t = procs b \<and> cur t = cur b \<and> k + m \<le> length ds"
  show "either_copyin_obj (src_add (SObj ds) k) m t = Done (0, get_bytes k m ds) t"
    using calmD [of t] myproc_quiet [of t] a by (simp add: either_copyin_obj_def kmon_simps bnd_run get_bytes_def)
qed

lemma src_ok_wp:
  fixes b :: "'z fsst_scheme"
  assumes "src_ok b src ds" "tx b V H D bs s" "m \<le> length ds"
  shows "wp (either_copyin_obj src m) R s = R (0, take m ds) s"
proof -
  have "either_copyin_obj (src_add src 0) m s = Done (0, get_bytes 0 m ds) s"
    using assms(1,3) tx_fields(3-5) [OF assms(2)] txD(2) [OF assms(2)] unfolding src_ok_def by simp
  moreover have "src_add src 0 = src" by (cases src) simp_all
  ultimately show ?thesis by (simp add: wp_def get_bytes_def)
qed

lemma src_ok_ino_set [simp]: "src_ok (ino_set i f b) src ds = src_ok b src ds"
  by (simp add: src_ok_def ino_set_def cur_def mach_defs)

text \<open>The number of blocks a range of a file touches.\<close>

definition span :: "nat \<Rightarrow> nat \<Rightarrow> nat" where
  "span off n = (if n = 0 then 0 else (off + n - 1) div BSIZE - off div BSIZE + 1)"

lemma span_step:
  assumes "0 < n"
  shows "span off n = Suc (span (off + block_room n off) (n - block_room n off))"
proof (cases "n \<le> BSIZE - off mod BSIZE")
  case True
  then have m: "block_room n off = n" by (simp add: block_room_def)
  have "(off + n - 1) div BSIZE = off div BSIZE"
    using range_block [of off "off + n - 1" n] assms True block_room_le(2) [of off n] m by simp
  then show ?thesis using assms m by (simp add: span_def)
next
  case False
  let ?m = "BSIZE - off mod BSIZE"
  have m: "block_room n off = ?m" using False by (simp add: block_room_def)
  have lt: "off mod BSIZE < BSIZE" by simp
  have "off + ?m = off div BSIZE * BSIZE + BSIZE" using div_mult_mod_eq [of off BSIZE] lt by linarith
  then have q: "(off + ?m) div BSIZE = off div BSIZE + 1" by (simp add: div_add_self2)
  have "(off + ?m) div BSIZE \<le> (off + n - 1) div BSIZE" using False by (intro div_le_mono) simp
  moreover have "off + ?m + (n - ?m) - 1 = off + n - 1" using False by linarith
  ultimately show ?thesis using q m False assms by (simp add: span_def) arith
qed

lemma writei_loop_tx:
  fixes b :: "'z fsst_scheme"
  assumes g: "sb_ok (sb b)" and src: "src_ok b src ds" and off: "off + length ds \<le> MAXFILE * BSIZE"
    and t: "tx b V Map.empty {} bs s" "map_ok (sb b) V" "file_ok (sb b) V (inodes b ! i)" "i < length (inodes b)"
    and room: "2 * span off (length ds) \<le> nfree (sb b) V" "length bs + 6 * span off (length ds) + 1 \<le> LOGSIZE"
    and Q: "\<And>V' ip' bs' t. wrote (sb b) V (inodes b ! i) off ds V' ip' \<Longrightarrow> length bs' \<le> length bs + 6 * span off (length ds) \<Longrightarrow>
        set bs' \<subseteq> set bs \<union> fsblk (sb b) \<Longrightarrow>
        tx (ino_set i (\<lambda>_. ip') b) V' Map.empty {} bs' t \<Longrightarrow> Q (tot + length ds, off + length ds) t"
  shows "wp (writei_loop i src off (length ds) tot) Q s"
  using assms
proof (induction "length ds" arbitrary: ds b src off V bs s tot rule: less_induct)
  case (less ds)
  note src = less.prems(2) and t = less.prems(4) and ip = less.prems(6) and Q = less.prems(10)
  let ?g = "sb b" and ?ip = "inodes b ! i" and ?n = "length ds"
  show ?case
  proof (cases "?n = 0")
    case True
    have "Q (tot + ?n, off + ?n) s"
      by (rule Q [of V ?ip bs]) (use wrote_nil [OF ip less.prems(5)] True t in \<open>simp_all add: ino_set_id\<close>)
    then show ?thesis using True by (subst writei_loop.simps) simp
  next
    case False
    let ?k = "off div BSIZE" and ?m = "block_room ?n off"
    let ?d = "take ?m ds"
    have m: "0 < ?m" "?m \<le> ?n" "length ?d = ?m" using False block_room_pos block_room_le(1) [of ?n off] by simp_all
    have k: "?k < MAXFILE" using off_block [of off "off + ?n"] less.prems(3) False by simp
    have sp: "span off ?n = Suc (span (off + ?m) (?n - ?m))" using span_step False by simp
    have r: "2 \<le> nfree ?g V" "length bs + 6 \<le> LOGSIZE" using less.prems(8,9) sp by simp_all
    show ?thesis
      unfolding writei_loop.simps [of i src off ?n] if_not_P [OF False] wp_steps
    proof (rule bmap_tx [OF t less.prems(1,5) r(1) ip k less.prems(7) r(2)])
      fix V1 ip1 a bs1 u
      assume gr: "grown ?g V ?ip ?k V1 ip1 a" and l1: "length bs1 \<le> length bs + 5" "set bs1 \<subseteq> set bs \<union> fsblk ?g" and u: "tx (ino_set i (\<lambda>_. ip1) b) V1 Map.empty {} bs1 u"
      have dev: "i_dev (inodes u ! i) = ROOTDEV"
        using tx_fields(2) [OF u] file_okD(2) [OF grownD(2) [OF gr]] less.prems(7) by simp
      let ?V2 = "V1(a := put_bytes (off mod BSIZE) ?d (V1 a))" and ?b1 = "ino_set i (\<lambda>_. ip1) b"
      have fit: "off mod BSIZE + ?m \<le> BSIZE" by (rule block_room_le)
      have w1: "wrote ?g V ?ip off ?d ?V2 ip1"
        using m fit by (intro wrote_step [OF less.prems(1) ip gr _ _ k txD(10) [OF u]]) simp_all
      have da: "data_blk ?g V1 a" using file_okD(4) [OF grownD(2) [OF gr] k] grownD(5) [OF gr k] grownD(1) [OF gr] by simp
      then have "datastart ?g \<le> unat a" by (simp add: data_blk_def)
      then have nf: "nfree ?g V \<le> nfree ?g ?V2 + 2" using data_upd(3) [OF less.prems(1)] grownD(12) [OF gr] by simp
      have rest: "wp (writei_loop i (src_add src ?m) (off + ?m) (?n - ?m) (tot + ?m)) Q v"
        if v: "tx ?b1 ?V2 Map.empty {} (log_add a bs1) v" for v
      proof -
        have lb: "length (log_add a bs1) \<le> length bs + 6" using length_log_add [of a bs1] l1 by simp
        have "wp (writei_loop i (src_add src ?m) (off + ?m) (length (drop ?m ds)) (tot + ?m)) Q v"
        proof (rule less.hyps [OF _ _ _ _ v])
          fix V' ip' bs' t
          assume w2: "wrote (sb ?b1) ?V2 (inodes ?b1 ! i) (off + ?m) (drop ?m ds) V' ip'"
            and lb': "length bs' \<le> length (log_add a bs1) + 6 * span (off + ?m) (length (drop ?m ds))"
            and st: "set bs' \<subseteq> set (log_add a bs1) \<union> fsblk (sb ?b1)"
            and t': "tx (ino_set i (\<lambda>_. ip') ?b1) V' Map.empty {} bs' t"
          have "wrote ?g V ?ip off (?d @ drop ?m ds) V' ip'"
            using wrote_trans [OF w1, of "drop ?m ds" V' ip'] w2 m(3) less.prems(7) by simp
          then have w: "wrote ?g V ?ip off ds V' ip'" by simp
          have "ino_set i (\<lambda>_. ip') ?b1 = ino_set i (\<lambda>_. ip') b" by (simp add: ino_set_twice)
          moreover have "set bs' \<subseteq> set bs \<union> fsblk ?g" using st l1(2) fsblk_data [OF less.prems(1) da] by auto
          ultimately have "Q (tot + ?n, off + ?n) t" using t' lb lb' sp by (intro Q [OF w, of bs']) simp_all
          then show "Q (tot + ?m + length (drop ?m ds), off + ?m + length (drop ?m ds)) t" using m(2) by simp
        qed (use m less.prems(1,3,7,8,9) w1 nf sp lb src_ok_add [OF src m(2)] in \<open>auto simp: wrote_def\<close>)
        then show ?thesis by simp
      qed
      show "wp (if a = 0 then ret (tot, off) else bnd (ino_get i i_dev) (\<lambda>dev. bnd (bread dev a) (\<lambda>bp.
          bnd (either_copyin_obj src ?m) (\<lambda>(r, bs). thn (bdata_upd bp (put_bytes (off mod BSIZE) bs)) (
          if r = -1 then thn (brelse bp) (ret (tot, off)) else thn (log_write bp) (thn (brelse bp)
          (writei_loop i (src_add src ?m) (off + ?m) (?n - ?m) (tot + ?m)))))))) Q u"
        unfolding if_not_P [OF grownD(1) [OF gr]] wp_steps wp_ino_get dev
      proof (rule tx_bread [OF u])
        fix bp v assume v: "tx ?b1 V1 [bp \<mapsto> a] {} bs1 v"
        have ci: "wp (either_copyin_obj src ?m) R v = R (0, ?d) v" for R
          by (rule src_ok_wp [OF _ v m(2)]) (use src in simp)
        have "wp (thn (bdata_upd bp (put_bytes (off mod BSIZE) ?d)) (thn (log_write bp) (thn (brelse bp)
            (writei_loop i (src_add src ?m) (off + ?m) (?n - ?m) (tot + ?m))))) Q v"
          by (rule tx_store [OF v, of bp a]) (use m fit l1 less.prems(9) sp rest txD(10) [OF u] in simp_all)
        then show "wp (either_copyin_obj src ?m) (\<lambda>x. wp (case x of (r, bs) \<Rightarrow> thn (bdata_upd bp (put_bytes (off mod BSIZE) bs)) (
          if r = -1 then thn (brelse bp) (ret (tot, off)) else thn (log_write bp) (thn (brelse bp)
          (writei_loop i (src_add src ?m) (off + ?m) (?n - ?m) (tot + ?m))))) Q) v"
          unfolding ci by simp
      qed (use l1 less.prems(9) sp in \<open>simp_all add: NBUF_def LOGSIZE_def\<close>)
    qed
  qed
qed

end
