(* ===== verification/Fs_Inode.thy ===== *)
theory Fs_Inode
  imports Fs_Rw
begin

text \<open>
  Inodes on the disk: \<open>iupdate\<close> writes the fields of an inode into its slot of an inode block, \<open>ilock\<close>
  reads them back, and no other slot is touched. With this \<open>writei\<close> as a whole is verified: data blocks,
  free map, indirect block, size and disk inode.
\<close>

subsection \<open>The disk inode\<close>

lemma concat_le_nth:
  "j < length as \<Longrightarrow> get_bytes (4 * j) 4 (concat (map (to_le 4) (as :: u32 list))) = to_le 4 (as ! j)"
proof (induction as arbitrary: j)
  case (Cons a as)
  have l: "length (to_le 4 a) = 4" by simp
  show ?case
  proof (cases j)
    case 0
    then show ?thesis using l by (simp add: get_bytes_def del: length_to_le)
  next
    case (Suc i)
    have "drop (4 * j) (to_le 4 a @ concat (map (to_le 4) as)) = drop (4 * i) (concat (map (to_le 4) as))"
      using l Suc by (simp del: length_to_le)
    then show ?thesis using Cons.IH [of i] Cons.prems Suc by (simp add: get_bytes_def)
  qed
qed simp

lemma length_concat_le [simp]: "length (concat (map (to_le 4) (as :: u32 list))) = 4 * length as"
  by (induction as) simp_all

lemma get_bytes_sub: "j + n \<le> m \<Longrightarrow> get_bytes (k + j) n d = get_bytes j n (get_bytes k m d)"
  by (simp add: get_bytes_def drop_take min_def add.commute)

definition dinode_slot :: "nat \<Rightarrow> inode \<Rightarrow> block \<Rightarrow> bool" where
  "dinode_slot k ip d \<longleftrightarrow> length d = BSIZE \<and> k + DINODE_SIZE \<le> BSIZE \<and> length (i_addrs ip) = NDIRECT + 1"

lemma length_put_dinode: "dinode_slot k ip d \<Longrightarrow> length (put_dinode k ip d) = BSIZE"
  by (simp add: dinode_slot_def put_dinode_def DINODE_SIZE_def NDIRECT_def)

lemma addrs_put_dinode:
  assumes "dinode_slot k ip d" "j < NDIRECT + 1"
  shows "get32 (k + 12 + 4 * j) (put_dinode k ip d) = i_addrs ip ! j"
proof -
  let ?as = "concat (map (to_le 4) (i_addrs ip))"
  let ?d = "put32 (k + 8) (i_size ip) (put16 (k + 6) (i_nlink ip) (put16 (k + 4) (i_minor ip) (put16 (k + 2) (i_major ip) (put16 k (i_type ip) d))))"
  have l: "length ?as = 52" "k + 12 + length ?as \<le> length ?d"
    using assms(1) by (simp_all add: dinode_slot_def NDIRECT_def DINODE_SIZE_def)
  have "get_bytes (k + 12 + 4 * j) 4 (put_bytes (k + 12) ?as ?d) = get_bytes (4 * j) 4 (get_bytes (k + 12) 52 (put_bytes (k + 12) ?as ?d))"
    using assms(2) by (intro get_bytes_sub) (simp add: NDIRECT_def)
  also have "\<dots> = to_le 4 (i_addrs ip ! j)"
    using l assms concat_le_nth [of j "i_addrs ip"] by (simp add: dinode_slot_def)
  finally show ?thesis by (simp add: put_dinode_def get_le_bytes)
qed

lemma get_put_dinode:
  assumes "dinode_slot k ip d"
  shows "get_dinode k (put_dinode k ip d) jp = ip\<lparr>i_dev := i_dev jp, i_inum := i_inum jp, i_ref := i_ref jp, i_valid := i_valid jp\<rparr>"
proof -
  have "map (\<lambda>j. get32 (k + 12 + 4 * j) (put_dinode k ip d)) [0..<NDIRECT + 1] = i_addrs ip"
    using addrs_put_dinode [OF assms] assms by (intro nth_equalityI) (auto simp: dinode_slot_def simp del: upt_Suc)
  moreover have "get16 k (put_dinode k ip d) = i_type ip" "get16 (k + 2) (put_dinode k ip d) = i_major ip"
    "get16 (k + 4) (put_dinode k ip d) = i_minor ip" "get16 (k + 6) (put_dinode k ip d) = i_nlink ip"
    "get32 (k + 8) (put_dinode k ip d) = i_size ip"
    using assms by (simp_all add: put_dinode_def dinode_slot_def DINODE_SIZE_def NDIRECT_def field_simps2)
  ultimately show ?thesis by (simp add: get_dinode_def del: upt_Suc)
qed

lemma get_put_dinode_other:
  assumes "dinode_slot k ip d" "j + DINODE_SIZE \<le> k \<or> k + DINODE_SIZE \<le> j" "j + DINODE_SIZE \<le> BSIZE"
  shows "get_dinode j (put_dinode k ip d) jp = get_dinode j d jp"
proof -
  have e: "get_bytes (j + m) n (put_dinode k ip d) = get_bytes (j + m) n d" if "m + n \<le> 64" for n m
    using assms that by (auto simp: put_dinode_def dinode_slot_def DINODE_SIZE_def NDIRECT_def get_put_bytes_other field_simps2)
  have "get_bytes (j + 12 + 4 * i) 4 (put_dinode k ip d) = get_bytes (j + 12 + 4 * i) 4 d" if "i < NDIRECT + 1" for i
    using e [of "12 + 4 * i" 4] that by (simp add: NDIRECT_def add.assoc)
  then show ?thesis using e [of 0 2] e [of 2 2] e [of 4 2] e [of 6 2] e [of 8 4]
    by (simp add: get_dinode_def get_le_bytes del: upt_Suc)
qed

lemma dinode_at_fits: "dinode_at n + DINODE_SIZE \<le> BSIZE"
proof -
  have "n mod IPB < IPB" by (simp add: IPB_def BSIZE_def DINODE_SIZE_def)
  then have "n mod IPB * DINODE_SIZE + DINODE_SIZE \<le> IPB * DINODE_SIZE"
    by (metis add.commute less_eq_Suc_le mult_Suc mult_le_mono1)
  then show ?thesis by (simp add: dinode_at_def IPB_def BSIZE_def DINODE_SIZE_def)
qed

lemma dinode_at_apart:
  assumes "n mod IPB \<noteq> m mod IPB"
  shows "dinode_at n + DINODE_SIZE \<le> dinode_at m \<or> dinode_at m + DINODE_SIZE \<le> dinode_at n"
proof -
  have "i * DINODE_SIZE + DINODE_SIZE \<le> j * DINODE_SIZE" if "i < j" for i j
    using that by (metis add.commute less_eq_Suc_le mult_Suc mult_le_mono1)
  then show ?thesis using assms unfolding dinode_at_def by (metis linorder_neq_iff)
qed

subsection \<open>\<open>iupdate\<close>\<close>

text \<open>Inode number \<open>n\<close> as the disk holds it.\<close>

definition dinode :: "superblock \<Rightarrow> (u32 \<Rightarrow> block) \<Rightarrow> nat \<Rightarrow> inode \<Rightarrow> inode" where
  "dinode g V n jp = get_dinode (dinode_at n) (V (IBLOCK n g)) jp"

definition put_inode :: "superblock \<Rightarrow> inode \<Rightarrow> (u32 \<Rightarrow> block) \<Rightarrow> u32 \<Rightarrow> block" where
  "put_inode g ip V = V(IBLOCK (unat (i_inum ip)) g :=
     put_dinode (dinode_at (unat (i_inum ip))) ip (V (IBLOCK (unat (i_inum ip)) g)))"

lemma dinode_put_same:
  assumes "length (V (IBLOCK (unat (i_inum ip)) g)) = BSIZE" "length (i_addrs ip) = NDIRECT + 1"
  shows "dinode g (put_inode g ip V) (unat (i_inum ip)) jp = ip\<lparr>i_dev := i_dev jp, i_inum := i_inum jp, i_ref := i_ref jp, i_valid := i_valid jp\<rparr>"
  using assms dinode_at_fits [of "unat (i_inum ip)"] by (simp add: dinode_def put_inode_def get_put_dinode dinode_slot_def)

lemma dinode_put_other:
  assumes "length (V (IBLOCK (unat (i_inum ip)) g)) = BSIZE" "length (i_addrs ip) = NDIRECT + 1"
    and "sb_ok g" "n < unat (sb_ninodes g)" "unat (i_inum ip) < unat (sb_ninodes g)" "n \<noteq> unat (i_inum ip)"
  shows "dinode g (put_inode g ip V) n jp = dinode g V n jp"
proof (cases "IBLOCK n g = IBLOCK (unat (i_inum ip)) g")
  case True
  then have "n div IPB = unat (i_inum ip) div IPB" using IBLOCK_bounds(2) [OF assms(3,4)] IBLOCK_bounds(2) [OF assms(3,5)] by simp
  then have "n mod IPB \<noteq> unat (i_inum ip) mod IPB" using assms(6) by (metis div_mult_mod_eq)
  then have "dinode_at n + DINODE_SIZE \<le> dinode_at (unat (i_inum ip)) \<or> dinode_at (unat (i_inum ip)) + DINODE_SIZE \<le> dinode_at n"
    by (rule dinode_at_apart)
  then show ?thesis
    using assms(1,2) True dinode_at_fits by (simp add: dinode_def put_inode_def get_put_dinode_other dinode_slot_def)
qed (simp add: dinode_def put_inode_def)

lemma iupdate_tx:
  fixes b :: "'z fsst_scheme"
  assumes t: "tx b V Map.empty {} bs s" and ip: "length (i_addrs (inodes b ! i)) = NDIRECT + 1" "i_dev (inodes b ! i) = ROOTDEV"
    and room: "length bs + 2 \<le> LOGSIZE"
    and Q: "\<And>bs' t. length bs' \<le> length bs + 1 \<Longrightarrow> set bs' = insert (IBLOCK (unat (i_inum (inodes b ! i))) (sb b)) (set bs) \<Longrightarrow>
       tx b (put_inode (sb b) (inodes b ! i) V) Map.empty {} bs' t \<Longrightarrow> Q () t"
  shows "wp (iupdate i) Q s"
proof -
  let ?ip = "inodes b ! i" and ?n = "unat (i_inum (inodes b ! i))"
  let ?a = "IBLOCK ?n (sb b)"
  have ino: "inodes s ! i = ?ip" "sb s = sb b" using tx_fields [OF t] by simp_all
  show ?thesis
    unfolding iupdate_def wp_steps wp_ino_get wp_simps id_apply ino ip(2)
  proof (rule tx_bread [OF t])
    fix bp u assume u: "tx b V [bp \<mapsto> ?a] {} bs u"
    have "length (put_dinode (dinode_at ?n) ?ip (V ?a)) = BSIZE"
      using length_put_dinode [of "dinode_at ?n" ?ip "V ?a"] dinode_at_fits [of ?n] ip(1) txD(10) [OF t] by (simp add: dinode_slot_def)
    then have "wp (thn (bdata_upd bp (put_dinode (dinode_at ?n) ?ip)) (thn (log_write bp) (brelse bp))) Q u"
      using room Q length_log_add [of ?a bs] by (intro tx_store_end [OF u, of bp ?a]) (simp_all add: put_inode_def)
    then show "wp (bdata_upd bp (put_dinode (dinode_at ?n) ?ip)) (\<lambda>_. wp (log_write bp) (\<lambda>_. wp (brelse bp) Q)) u"
      by (simp add: wp_steps)
  qed (use room in \<open>simp_all add: NBUF_def LOGSIZE_def\<close>)
qed

subsection \<open>\<open>writei\<close> as a whole\<close>

text \<open>
  \<open>updated g V ip off ds V' ip'\<close>: the file's contents has \<open>ds\<close> at offset \<open>off\<close> and is otherwise as before, its
  disk inode is the inode in memory, and nothing that is not the file's own, and was not free, has changed.
\<close>

definition updated :: "superblock \<Rightarrow> (u32 \<Rightarrow> block) \<Rightarrow> inode \<Rightarrow> nat \<Rightarrow> u8 list \<Rightarrow> (u32 \<Rightarrow> block) \<Rightarrow> inode \<Rightarrow> bool" where
  "updated g V ip off ds V' ip' \<longleftrightarrow>
     ip' = ip\<lparr>i_addrs := i_addrs ip', i_size := i_size ip'\<rparr> \<and> unat (i_size ip') = max (unat (i_size ip)) (off + length ds) \<and>
     file_ok g V' ip' \<and> full V' ip' \<and> map_ok g V' \<and>
     content V' ip' = take off (content V ip) @ ds @ drop (off + length ds) (content V ip) \<and>
     (\<forall>jp. dinode g V' (unat (i_inum ip)) jp = ip'\<lparr>i_dev := i_dev jp, i_inum := i_inum jp, i_ref := i_ref jp, i_valid := i_valid jp\<rparr>) \<and>
     (\<forall>n jp. n < unat (sb_ninodes g) \<and> n \<noteq> unat (i_inum ip) \<longrightarrow> dinode g V' n jp = dinode g V n jp) \<and>
     (\<forall>x. data_blk g V x \<and> x \<notin> fblocks V ip \<longrightarrow> data_blk g V' x \<and> V' x = V x \<and> x \<notin> fblocks V' ip') \<and>
     (\<forall>x. unat x < unat (sb_bmapstart g) \<and> x \<noteq> IBLOCK (unat (i_inum ip)) g \<longrightarrow> V' x = V x)"

lemma updatedD:
  assumes "updated g V ip off ds V' ip'"
  shows "unat (i_size ip') = max (unat (i_size ip)) (off + length ds)" "file_ok g V' ip'" "full V' ip'" "map_ok g V'"
    "content V' ip' = take off (content V ip) @ ds @ drop (off + length ds) (content V ip)"
    "dinode g V' (unat (i_inum ip)) jp = ip'\<lparr>i_dev := i_dev jp, i_inum := i_inum jp, i_ref := i_ref jp, i_valid := i_valid jp\<rparr>"
    "n < unat (sb_ninodes g) \<Longrightarrow> n \<noteq> unat (i_inum ip) \<Longrightarrow> dinode g V' n jp = dinode g V n jp"
    "data_blk g V x \<Longrightarrow> x \<notin> fblocks V ip \<Longrightarrow> V' x = V x"
    "data_blk g V x \<Longrightarrow> x \<notin> fblocks V ip \<Longrightarrow> data_blk g V' x"
    "data_blk g V x \<Longrightarrow> x \<notin> fblocks V ip \<Longrightarrow> x \<notin> fblocks V' ip'"
    "ip' = ip\<lparr>i_addrs := i_addrs ip', i_size := i_size ip'\<rparr>"
  using assms unfolding updated_def by blast+

lemma faddr_data:
  assumes "\<And>x. datastart g \<le> unat x \<Longrightarrow> V' x = V x" "file_ok g V ip" "i_addrs ip' = i_addrs ip"
  shows "faddr V' ip' k = faddr V ip k"
  using assms(1) [of "i_addrs ip ! NDIRECT"] file_okD(3) [OF assms(2)] assms(3) by (auto simp: faddr_def data_blk_def)

text \<open>Changing blocks below the free map does not concern files.\<close>

lemma low_change:
  assumes g: "sb_ok g" and same: "\<forall>x. unat (sb_bmapstart g) \<le> unat x \<longrightarrow> V' x = V x" and ip: "file_ok g V ip"
    and ip': "i_addrs ip' = i_addrs ip" "i_dev ip' = i_dev ip"
  shows "faddr V' ip' k = faddr V ip k" "file_ok g V' ip'" "map_ok g V' = map_ok g V" "data_blk g V' x = data_blk g V x"
    "p < MAXFILE * BSIZE \<Longrightarrow> fbyte V' ip' p = fbyte V ip p" "fblocks V' ip' = fblocks V ip"
proof -
  have ds: "datastart g \<le> unat x \<Longrightarrow> V' x = V x" for x using same by (simp add: datastart_def)
  show f: "faddr V' ip' k = faddr V ip k" for k by (rule faddr_data [OF ds ip ip'(1)])
  have u: "used g V' n = used g V n" if "n < unat (sb_size g)" for n
    using same BBLOCK_bounds(1) [OF g that] by (simp add: used_def)
  show d: "data_blk g V' x = data_blk g V x" for x using u by (auto simp: data_blk_def)
  show "map_ok g V' = map_ok g V" using u g by (auto simp: map_ok_def sb_ok_def)
  show "file_ok g V' ip'" using ip unfolding file_ok_def f d ip' .
  show "fblocks V' ip' = fblocks V ip" using f ip'(1) by (simp add: fblocks_def)
  show "fbyte V' ip' p = fbyte V ip p" if "p < MAXFILE * BSIZE"
    using f ds file_okD(4) [OF ip less_mult_imp_div_less [OF that]] by (auto simp: fbyte_def data_blk_def)
qed

lemma put_inode_low:
  "sb_ok g \<Longrightarrow> unat (i_inum ip) < unat (sb_ninodes g) \<Longrightarrow> unat (sb_bmapstart g) \<le> unat x \<Longrightarrow> put_inode g ip V x = V x"
  using IBLOCK_bounds(1) [of g "unat (i_inum ip)"] by (auto simp: put_inode_def)

lemma updated_wrote:
  assumes g: "sb_ok g" "unat (i_inum ip) < unat (sb_ninodes g)" and w: "wrote g V ip off ds V1 ip1"
    and off: "full V ip" "off \<le> unat (i_size ip)" "off + length ds \<le> MAXFILE * BSIZE"
    and z: "unat z = max (unat (i_size ip)) (off + length ds)" and l: "\<And>x. length (V1 x) = BSIZE"
  defines "ip2 \<equiv> ip1\<lparr>i_size := z\<rparr>"
  shows "updated g V ip off ds (put_inode g ip2 V1) ip2"
proof -
  let ?V = "put_inode g ip2 V1"
  have ok1: "file_ok g V1 ip1" "map_ok g V1" and ff: "fframe g V ip V1 ip1" and ip1: "ip1 = ip\<lparr>i_addrs := i_addrs ip1\<rparr>"
    and byte: "\<And>p. p < MAXFILE * BSIZE \<Longrightarrow> fbyte V1 ip1 p = (if off \<le> p \<and> p < off + length ds then ds ! (p - off) else fbyte V ip p)"
    and zero: "\<And>k. k < MAXFILE \<Longrightarrow> faddr V1 ip1 k = 0 \<longleftrightarrow> faddr V ip k = 0 \<and> (\<forall>p. off \<le> p \<and> p < off + length ds \<longrightarrow> p div BSIZE \<noteq> k)"
    using w unfolding wrote_def by blast+
  have ip2: "ip2 = ip\<lparr>i_addrs := i_addrs ip2, i_size := i_size ip2\<rparr>"
    unfolding ip2_def by (subst ip1) simp
  have inum: "i_inum ip2 = i_inum ip" "i_inum ip1 = i_inum ip" by (subst ip2, simp, subst ip1, simp)
  have lc: "i_addrs ip2 = i_addrs ip1" "i_dev ip2 = i_dev ip1" by (simp_all add: ip2_def)
  have low: "\<forall>x. unat (sb_bmapstart g) \<le> unat x \<longrightarrow> ?V x = V1 x" using put_inode_low [of g ip2 _ V1] g inum by simp
  note c = low_change [OF g(1) low ok1(1) lc]
  have mz: "unat z \<le> MAXFILE * BSIZE" using z off(1,3) by (simp add: full_def)
  have "full ?V ip2"
    unfolding full_def c(1)
  proof (intro conjI allI impI)
    fix k assume k: "k * BSIZE < unat (i_size ip2)"
    moreover have "unat (i_size ip2) = unat z" by (simp add: ip2_def)
    ultimately have "k * BSIZE < MAXFILE * BSIZE" using mz by linarith
    then have kM: "k < MAXFILE" by simp
    show "faddr V1 ip1 k \<noteq> 0"
    proof (cases "k * BSIZE < unat (i_size ip)")
      case True
      then show ?thesis using off(1) zero [OF kM] by (simp add: full_def)
    next
      case False
      then have "off \<le> k * BSIZE \<and> k * BSIZE < off + length ds" "k * BSIZE div BSIZE = k" using k z off(2) by (auto simp: ip2_def)
      then show ?thesis using zero [OF kM] by blast
    qed
  qed (use mz in \<open>simp add: ip2_def\<close>)
  moreover have "content ?V ip2 = take off (content V ip) @ ds @ drop (off + length ds) (content V ip)"
  proof (rule nth_equalityI)
    show "length (content ?V ip2) = length (take off (content V ip) @ ds @ drop (off + length ds) (content V ip))"
      using z off(2) by (simp add: ip2_def)
    fix p assume "p < length (content ?V ip2)"
    then have p: "p < unat z" by (simp add: ip2_def)
    then have "content ?V ip2 ! p = (if off \<le> p \<and> p < off + length ds then ds ! (p - off) else fbyte V ip p)"
      using c(5) [of p] byte [of p] mz by (simp add: content_def ip2_def)
    then show "content ?V ip2 ! p = (take off (content V ip) @ ds @ drop (off + length ds) (content V ip)) ! p"
      using p z off(2) by (auto simp: content_def nth_append)
  qed
  moreover have "length (i_addrs ip2) = NDIRECT + 1" using file_okD(1) [OF ok1(1)] lc by simp
  note dp = dinode_put_same [OF l this] dinode_put_other [OF l this g(1)]
  have lowV: "V1 x = V x" if "unat x < unat (sb_bmapstart g)" for x using ff that by (simp add: fframe_def)
  have "dinode g ?V n jp = dinode g V n jp" if "n < unat (sb_ninodes g)" "n \<noteq> unat (i_inum ip)" for n jp
    using dp(2) [where n = n and jp = jp] that g lowV [OF IBLOCK_bounds(1) [OF g(1) that(1)]] inum by (simp add: dinode_def)
  moreover have "dinode g ?V (unat (i_inum ip)) jp = ip2\<lparr>i_dev := i_dev jp, i_inum := i_inum jp, i_ref := i_ref jp, i_valid := i_valid jp\<rparr>" for jp
    using dp(1) [where jp = jp] inum by simp
  moreover have "data_blk g ?V x \<and> ?V x = V x \<and> x \<notin> fblocks ?V ip2" if "data_blk g V x" "x \<notin> fblocks V ip" for x
    using ff that low c(4,6) by (auto simp: fframe_def data_blk_def datastart_def)
  moreover have "?V x = V x" if "unat x < unat (sb_bmapstart g)" "x \<noteq> IBLOCK (unat (i_inum ip)) g" for x
    using lowV [OF that(1)] that(2) inum by (simp add: put_inode_def)
  moreover have "unat (i_size ip2) = max (unat (i_size ip)) (off + length ds)" using z by (simp add: ip2_def)
  ultimately show ?thesis using c(2,3) ok1(2) ip2 unfolding updated_def by blast
qed

lemma writei_tx:
  fixes b :: "'z fsst_scheme"
  assumes g: "sb_ok (sb b)" "unat (i_inum (inodes b ! i)) < unat (sb_ninodes (sb b))" and src: "src_ok b src ds"
    and t: "tx b V Map.empty {} bs s" "map_ok (sb b) V" "file_ok (sb b) V (inodes b ! i)" "full V (inodes b ! i)" "i < length (inodes b)"
    and off: "unat off \<le> unat (i_size (inodes b ! i))" "unat off + length ds \<le> MAXFILE * BSIZE" "unat n = length ds"
    and room: "2 * span (unat off) (length ds) \<le> nfree (sb b) V" "length bs + 6 * span (unat off) (length ds) + 2 \<le> LOGSIZE"
    and Q: "\<And>V' ip' bs' t. updated (sb b) V (inodes b ! i) (unat off) ds V' ip' \<Longrightarrow>
        length bs' \<le> length bs + 6 * span (unat off) (length ds) + 1 \<Longrightarrow> IBLOCK (unat (i_inum (inodes b ! i))) (sb b) \<in> set bs' \<Longrightarrow>
        set bs' \<subseteq> set bs \<union> fsblk (sb b) \<Longrightarrow>
        tx (ino_set i (\<lambda>_. ip') b) V' Map.empty {} bs' t \<Longrightarrow> Q (int (length ds)) t"
  shows "wp (writei i src off n) Q s"
proof -
  let ?g = "sb b" and ?ip = "inodes b ! i" and ?o = "unat off" and ?n = "length ds"
  have ino: "inodes s ! i = ?ip" using tx_fields(2) [OF t(1)] by simp
  have lim: "MAXFILE * BSIZE < 2 ^ 32" by (simp add: MAXFILE_def NDIRECT_def NINDIRECT_def BSIZE_def)
  have on: "unat (off + n) = ?o + ?n" using off(2,3) lim unat_add_lem [of off n] by simp
  then have guards: "\<not> (off > i_size ?ip \<or> off + n < off)" "\<not> unat (off + n) > MAXFILE * BSIZE"
    using off by (simp_all add: word_less_nat_alt)
  have loop: "wp (writei_loop i src ?o ?n 0) (\<lambda>(tot, off'). wp (bnd (ino_get i i_size) (\<lambda>size.
      thn (whenM (off' > unat size) (ino_upd i (\<lambda>ip. ip\<lparr>i_size := of_nat off'\<rparr>))) (thn (iupdate i) (ret (int tot))))) Q) s"
  proof (rule writei_loop_tx [OF g(1) src off(2) t(1,2,3,5) room(1)])
    fix V1 ip1 bs1 u
    assume w: "wrote ?g V ?ip ?o ds V1 ip1" and l1: "length bs1 \<le> length bs + 6 * span ?o ?n" "set bs1 \<subseteq> set bs \<union> fsblk ?g"
      and u: "tx (ino_set i (\<lambda>_. ip1) b) V1 Map.empty {} bs1 u"
    let ?b1 = "ino_set i (\<lambda>_. ip1) b" and ?z = "if ?o + ?n > unat (i_size ?ip) then of_nat (?o + ?n) else i_size ?ip"
    let ?ip2 = "ip1\<lparr>i_size := ?z\<rparr>"
    have ip1: "inodes u ! i = ip1" "i_size ip1 = i_size ?ip" "i_inum ip1 = i_inum ?ip"
      using tx_fields(2) [OF u] t(5) w unfolding wrote_def by (simp, metis inode.select_convs(9) inode.surjective inode.update_convs(10), metis inode.select_convs(2) inode.surjective inode.update_convs(10))
    have z: "unat ?z = max (unat (i_size ?ip)) (?o + ?n)"
      using off(2) lim by (auto simp: unat_of_nat take_bit_nat_eq_self simp del: of_nat_add)
    have up: "updated ?g V ?ip ?o ds (put_inode ?g ?ip2 V1) ?ip2"
      by (rule updated_wrote [OF g w t(4) off(1,2) z txD(10) [OF u]])
    have fin: "wp (iupdate i) (\<lambda>_. Q (int ?n)) v" if v: "tx (ino_set i (\<lambda>_. ?ip2) b) V1 Map.empty {} bs1 v" for v
    proof -
      let ?b2 = "ino_set i (\<lambda>_. ?ip2) b"
      have b2: "inodes ?b2 ! i = ?ip2" using t(5) by simp
      have ok: "file_ok ?g V1 ip1" using w by (simp add: wrote_def)
      show ?thesis
      proof (rule iupdate_tx [OF v, where i = i, unfolded b2 ino_set_simps(1)])
        fix bs' w
        assume l: "length bs' \<le> length bs1 + 1" and st: "set bs' = insert (IBLOCK (unat (i_inum ?ip2)) ?g) (set bs1)"
          and w: "tx ?b2 (put_inode ?g ?ip2 V1) Map.empty {} bs' w"
        have "i_inum ?ip2 = i_inum ?ip" using ip1(3) by simp
        then have st': "set bs' = insert (IBLOCK (unat (i_inum ?ip)) ?g) (set bs1)" using st by metis
        have "unat (sb_inodestart ?g) \<le> unat (IBLOCK (unat (i_inum ?ip)) ?g)" using IBLOCK_bounds(2) [OF g] by simp
        then have "set bs' \<subseteq> set bs \<union> fsblk ?g" using st' l1(2) by (auto simp: fsblk_def)
        then show "Q (int ?n) w" by (intro Q [OF up _ _ _ w]) (use l l1 st' in simp_all)
      qed (use file_okD(1,2) [OF ok] l1 room(2) in simp_all)
    qed
    have "wp (iupdate i) (\<lambda>_. Q (int ?n)) (if unat (i_size ?ip) < ?o + ?n then ino_set i (\<lambda>ip. ip\<lparr>i_size := of_nat (?o + ?n)\<rparr>) u else u)"
    proof (rule fin)
      have "ino_set i (\<lambda>ip. ip\<lparr>i_size := of_nat (?o + ?n)\<rparr>) ?b1 = ino_set i (\<lambda>_. ip1\<lparr>i_size := of_nat (?o + ?n)\<rparr>) b"
        by (simp add: ino_set_twice)
      moreover have "ip1\<lparr>i_size := i_size ?ip\<rparr> = ip1" using ip1(2) by (cases ip1) simp
      ultimately show "tx (ino_set i (\<lambda>_. ?ip2) b) V1 Map.empty {} bs1
          (if unat (i_size ?ip) < ?o + ?n then ino_set i (\<lambda>ip. ip\<lparr>i_size := of_nat (?o + ?n)\<rparr>) u else u)"
        using u tx_ino_set [OF u, of i "\<lambda>ip. ip\<lparr>i_size := of_nat (?o + ?n)\<rparr>"] by simp
    qed
    then show "(case (0 + ?n, ?o + ?n) of (tot, off') \<Rightarrow> wp (bnd (ino_get i i_size) (\<lambda>size.
      thn (whenM (off' > unat size) (ino_upd i (\<lambda>ip. ip\<lparr>i_size := of_nat off'\<rparr>))) (thn (iupdate i) (ret (int tot))))) Q) u"
      using ip1 by (simp add: wp_steps split: if_splits)
  qed (use room(2) in simp)
  then show ?thesis
    unfolding writei_def wp_steps wp_ino_get ino if_not_P [OF guards(1)] if_not_P [OF guards(2)] off(3)
    by (rule wp_mono) (auto simp: wp_steps)
qed

end
