(* ===== verification/Log_Crash.thy ===== *)
theory Log_Crash
  imports Log
begin

text \<open>
  Crash safety of the log. A crash keeps a prefix of the disk writes a commit has issued; booting
  runs \<open>initlog\<close>, which may itself be interrupted any number of times. The disk that the first
  complete recovery leaves is, outside the log, the one before the transaction or the one with all
  of it.
\<close>

subsection \<open>Recovery\<close>

definition rec_writes :: "u32 \<Rightarrow> (u32 \<Rightarrow> block) \<Rightarrow> (u32 \<times> block) list" where
  "rec_writes a D = home_writes a (hdr_blocks (D a)) D @ [(a, hdr_bytes [] (D a))]"

text \<open>A disk whose log header can be read: a count in range and a transaction.\<close>

definition log_valid :: "u32 \<Rightarrow> (u32 \<Rightarrow> block) \<Rightarrow> bool" where
  "log_valid a D \<longleftrightarrow> length (D a) = BSIZE \<and> 0 \<le> sint (get32 0 (D a)) \<and> trans_ok a (hdr_blocks (D a))"

lemma log_valid_count: "log_valid a D \<Longrightarrow> sint (get32 0 (D a)) \<le> int LOGSIZE"
  by (auto simp: log_valid_def trans_ok_def hdr_blocks_def)

lemma recover_abs:
  assumes s: "calm s" "bio_abs s D Map.empty {}" "disk s = D" "lg_dev s = ROOTDEV" "lg_start s = a"
    and h: "length (lh_block s) = LOGSIZE" "log_valid a D"
  shows "\<exists>t. recover_from_log s = Done () t \<and> bio_abs t (disk t) Map.empty {} \<and> log_hdr [] t \<and> log_frame s t \<and>
    disk t = dapply (rec_writes a D) D \<and> dhist t = dhist s @ rec_writes a D"
proof -
  let ?bs = "hdr_blocks (D a)"
  have tr: "trans_ok a ?bs" using h(2) by (simp add: log_valid_def)
  obtain t1 where 1: "read_head s = Done () t1" "bio_abs t1 D Map.empty {}" "log_hdr ?bs t1" "log_frame s t1"
      "disk t1 = D" "dhist t1 = dhist s"
    using read_head_abs [OF s(1,2,4,5) h(1)] log_valid_count [OF h(2)] h(2) s(3) by (auto simp: log_valid_def)
  have f1: "calm t1" "lg_start t1 = a" using log_frame_fields [OF 1(4)] s by simp_all
  let ?hw = "home_writes a ?bs D"
  obtain t2 where 2: "install_trans True t1 = Done () t2" "bio_abs t2 (dapply ?hw D) Map.empty {}" "bio_frame t1 t2"
      "disk t2 = dapply ?hw D" "dhist t2 = dhist s @ ?hw"
    using install_trans_abs [OF f1(1) _ 1(3) f1(2) tr, of D True] 1(2,5,6) by auto
  define t3 where "t3 = t2\<lparr>lh_n := 0\<rparr>"
  have f3: "calm t3" "log_hdr [] t3" "lg_start t3 = a" "bio_abs t3 (dapply ?hw D) Map.empty {}"
    using bio_frame_calm(1) [OF 2(3)] log_hdr_frame [OF 2(3)] bio_frame_log(1) [OF 2(3)] f1 2(2) 1(3) log_hdr_reset [of ?bs t2]
    by (simp_all add: t3_def)
  have da: "dapply ?hw D a = D a"
    using trans_okD(3) [OF tr] by (intro dapply_other) (simp add: fst_home_writes)
  obtain t4 where 4: "write_head t3 = Done () t4"
      "bio_abs t4 ((dapply ?hw D)(a := hdr_bytes [] (D a))) Map.empty {}" "bio_frame t3 t4"
      "disk t4 = (disk t3)(a := hdr_bytes [] (D a))" "dhist t4 = dhist t3 @ [(a, hdr_bytes [] (D a))]"
    using write_head_abs [OF f3(1,4,2,3)] unfolding da by (auto simp: NBUF_def MAXOPBLOCKS_def)
  have d4: "disk t4 = dapply (rec_writes a D) D" "dhist t4 = dhist s @ rec_writes a D"
    using 4(4,5) 2(4,5) by (simp_all add: rec_writes_def t3_def)
  moreover have "bio_abs t4 (disk t4) Map.empty {}" using 4(2,4) 2(4) by (simp add: t3_def)
  moreover have "log_hdr [] t4" using f3(2) log_hdr_frame [OF 4(3)] by simp
  moreover have "log_frame t2 t3" by (simp add: t3_def)
  then have "log_frame s t4" using log_frame_trans bio_log_frame 1(4) 2(3) 4(3) by metis
  moreover have "recover_from_log s = Done () t4"
    using 1(1) 2(1) 4(1) by (simp add: recover_from_log_def kmon_simps bnd_run t3_def)
  ultimately show ?thesis by blast
qed

text \<open>The machine after a reboot: an empty cache over the disk \<open>D\<close>.\<close>

definition booted :: "(u32 \<Rightarrow> block) \<Rightarrow> 'z logst_scheme \<Rightarrow> bool" where
  "booted D r \<longleftrightarrow> calm r \<and> bio_abs r D Map.empty {} \<and> disk r = D \<and> length (lh_block r) = LOGSIZE"

lemma initlog_abs:
  assumes r: "booted D r" and h: "log_valid (sb_logstart sb) D"
  shows "\<exists>t. initlog ROOTDEV sb r = Done () t \<and> bio_abs t (disk t) Map.empty {} \<and> log_hdr [] t \<and> calm t \<and>
    disk t = dapply (rec_writes (sb_logstart sb) D) D \<and> dhist t = dhist r @ rec_writes (sb_logstart sb) D \<and>
    lg_start t = sb_logstart sb \<and> lg_size t = sint (sb_nlog sb) \<and> logst.more t = logst.more r \<and>
    lg_outstanding t = lg_outstanding r \<and> lg_committing t = lg_committing r"
proof -
  let ?u = "r\<lparr>splk := (splk r)(LkLog := \<lparr>sl_locked = False, sl_name = ''log'', sl_cpu = None\<rparr>),
    lg_start := sb_logstart sb, lg_size := sint (sb_nlog sb), lg_dev := ROOTDEV\<rparr>"
  have pid: "curpid ?u = curpid r" by (simp add: curpid_def cur_def)
  have c: "calm ?u" using r by (auto simp: booted_def calm_def cpu_quiet_def lk_free_def cur_def no_sleeper_def mach_defs)
  have a: "bio_abs ?u D Map.empty {}"
    using r bio_abs_frame [OF _ _ _ _ _ pid, of D Map.empty "{}"] by (simp add: booted_def)
  have lb: "length (lh_block ?u) = LOGSIZE" "disk ?u = D" using r by (simp_all add: booted_def)
  obtain t where t: "recover_from_log ?u = Done () t" "bio_abs t (disk t) Map.empty {}" "log_hdr [] t" "log_frame ?u t"
      "disk t = dapply (rec_writes (sb_logstart sb) D) D" "dhist t = dhist r @ rec_writes (sb_logstart sb) D"
    using recover_abs [OF c a lb(2) _ _ lb(1) h] by auto
  have "initlog ROOTDEV sb r = Done () t"
    using t(1) BSIZE_log by (simp add: initlog_def initlock_def kmon_simps) (simp add: BSIZE_def LOGSIZE_def MAXOPBLOCKS_def)
  then show ?thesis using t log_frame_fields [OF t(4)] c by auto
qed

subsection \<open>Crashes\<close>

text \<open>The contents that recovery gives a disk.\<close>

definition settled :: "u32 \<Rightarrow> (u32 \<Rightarrow> block) \<Rightarrow> u32 \<Rightarrow> block" where
  "settled a D = dapply (home_writes a (hdr_blocks (D a)) D) D"

text \<open>
  The disks that a machine which stopped with the disk \<open>D\<close> can have after any number of recoveries
  that were cut short: the machine boots with an empty cache, and of the disk writes that its
  \<open>initlog\<close> does, in the order \<open>initlog\<close> does them, the disk has received the first \<open>j\<close>.
\<close>

inductive crashes :: "superblock \<Rightarrow> (u32 \<Rightarrow> block) \<Rightarrow> (u32 \<Rightarrow> block) \<Rightarrow> bool" for g D where
  crash_none: "crashes g D D"
| crash_again: "crashes g D E \<Longrightarrow> booted E (r :: logst) \<Longrightarrow> initlog ROOTDEV g r = Done () u \<Longrightarrow>
    crashes g D (dapply (take j (drop (length (dhist r)) (dhist u))) E)"

lemma recovered_settled: "b \<noteq> a \<Longrightarrow> dapply (rec_writes a D) D b = settled a D b"
  by (simp add: rec_writes_def settled_def)

lemma trans_ok_Nil [simp]: "trans_ok a []"
  by (simp add: trans_ok_def LOGSIZE_def MAXOPBLOCKS_def)

lemma hdr_empty:
  assumes "get32 0 d = 0"
  shows "hdr_blocks d = []"
  using assms by (simp add: hdr_blocks_def)

lemma hdr_bytes_Nil:
  assumes "length d = BSIZE"
  shows "length (hdr_bytes [] d) = BSIZE" "get32 0 (hdr_bytes [] d) = 0"
  using hdr_bytes_facts [of "[]" d] assms by simp_all

lemma log_valid_empty: "length (D a) = BSIZE \<Longrightarrow> get32 0 (D a) = 0 \<Longrightarrow> log_valid a D \<and> settled a D = D"
  by (simp add: log_valid_def hdr_empty settled_def home_writes_def)

text \<open>Two disks with the same header and log blocks settle alike, except where no log entry points.\<close>

lemma settled_cong:
  assumes "E a = D a" "hdr_blocks (D a) = bs" "length bs \<le> LOGSIZE" "\<And>i. i < length bs \<Longrightarrow> E (log_blk a i) = D (log_blk a i)"
  shows "settled a E b = (if b \<in> set bs then settled a D b else E b)"
proof -
  have hw: "home_writes a bs E = home_writes a bs D"
    using assms(4) by (simp add: home_writes_def)
  show ?thesis
  proof (cases "b \<in> set bs")
    case True
    then have "b \<in> fst ` set (home_writes a bs D)" by (simp add: fst_home_writes)
    from dapply_cong [OF this, of E D] show ?thesis using True assms(1,2) by (simp add: settled_def hw)
  next
    case False
    then show ?thesis using assms(1,2) by (simp add: settled_def dapply_other fst_home_writes)
  qed
qed

lemma rec_prefix:
  assumes v: "log_valid a D" and E_def: "E = dapply (take j (rec_writes a D)) D"
  shows "log_valid a E" "b \<notin> log_region a \<Longrightarrow> settled a E b = settled a D b"
proof -
  let ?bs = "hdr_blocks (D a)"
  let ?hw = "home_writes a ?bs D"
  have tr: "trans_ok a ?bs" and len: "length (D a) = BSIZE" using v by (simp_all add: log_valid_def)
  have "log_valid a E \<and> (b \<notin> log_region a \<longrightarrow> settled a E b = settled a D b)"
  proof (cases "j \<le> length ?bs")
    case True
    then have E: "E = dapply (take j ?hw) D"
      by (simp add: E_def rec_writes_def home_writes_def)
    have other: "E c = D c" if "c \<notin> set ?bs" for c
      unfolding E using that set_take_subset_fst [of c j ?hw] by (intro dapply_other) (auto simp: fst_home_writes)
    have "E a = D a" "\<And>i. i < length ?bs \<Longrightarrow> E (log_blk a i) = D (log_blk a i)"
      using other trans_okD(3,4) [OF tr] tr by (auto simp: trans_ok_def)
    then have "log_valid a E" "settled a E b = (if b \<in> set ?bs then settled a D b else E b)"
      using v settled_cong [of E a D ?bs] tr by (simp_all add: log_valid_def trans_ok_def)
    moreover have "settled a D b = D b" if "b \<notin> set ?bs"
      unfolding settled_def by (rule dapply_other) (simp add: fst_home_writes that)
    ultimately show ?thesis using other by auto
  next
    case False
    then have E: "E = (dapply ?hw D)(a := hdr_bytes [] (D a))"
      by (simp add: E_def rec_writes_def home_writes_def)
    have "log_valid a E \<and> settled a E = E"
      by (rule log_valid_empty) (simp_all add: E hdr_bytes_Nil len)
    moreover have "b \<noteq> a" if "b \<notin> log_region a" using that by (auto simp: log_region_def)
    ultimately show ?thesis by (simp add: E settled_def)
  qed
  then show "log_valid a E" "b \<notin> log_region a \<Longrightarrow> settled a E b = settled a D b" by blast+
qed

lemma crashes_settled:
  assumes "crashes g D E" "log_valid (sb_logstart g) D"
  shows "log_valid (sb_logstart g) E \<and>
    (\<forall>b. b \<notin> log_region (sb_logstart g) \<longrightarrow> settled (sb_logstart g) E b = settled (sb_logstart g) D b)"
  using assms
proof (induction rule: crashes.induct)
  case crash_none
  then show ?case by simp
next
  case (crash_again E r u j)
  then have E: "log_valid (sb_logstart g) E" by simp
  have "drop (length (dhist r)) (dhist u) = rec_writes (sb_logstart g) E"
    using initlog_abs [OF crash_again.hyps(2) E] crash_again.hyps(3) by auto
  then show ?case using crash_again rec_prefix [OF E refl] by simp
qed

lemma commit_prefix:
  assumes tr: "trans_ok a bs" and d: "length (D a) = BSIZE" "get32 0 (D a) = 0"
    and V: "\<And>b. b \<notin> set bs \<Longrightarrow> b \<notin> log_region a \<Longrightarrow> V b = D b"
    and E_def: "E = dapply (take k (commit_writes a bs V (D a))) D"
  shows "log_valid a E" "b \<notin> log_region a \<Longrightarrow> settled a E b = (if k \<le> length bs then D b else V b)"
proof -
  let ?lw = "log_writes a bs V" and ?hw = "map (\<lambda>b. (b, V b)) bs" and ?h = "hdr_bytes bs (D a)"
  have n: "length bs \<le> LOGSIZE" "length ?lw = length bs" "length bs < LOGSIZE" using tr by (simp_all add: trans_ok_def log_writes_def)
  have h: "length ?h = BSIZE" "hdr_blocks ?h = bs" "get32 0 ?h = of_nat (length bs)"
    using hdr_bytes_facts [OF n(1) d(1)] hdr_blocks_hdr_bytes [OF n(1) d(1)] by simp_all
  have ba: "b \<noteq> a" if "b \<notin> log_region a" for b using that by (auto simp: log_region_def)
  have hV: "dapply ?hw W b = (if b \<in> set bs then V b else W b)" for W b
    using tr dapply_mem [of ?hw b "V b" W] dapply_other [of b ?hw W] by (auto simp: trans_ok_def comp_def image_iff)
  have "log_valid a E \<and> (b \<notin> log_region a \<longrightarrow> settled a E b = (if k \<le> length bs then D b else V b))"
  proof (cases "k \<le> length bs")
    case True
    then have E: "E = dapply (take k ?lw) D" using n(2) by (simp add: E_def commit_writes_def)
    have other: "E c = D c" if "c \<notin> log_blk a ` {..<length bs}" for c
      unfolding E using that set_take_subset_fst [of c k ?lw] by (intro dapply_other) (auto simp: fst_log_writes)
    have "log_blk a i \<noteq> a" if "i < length bs" for i using log_blk_hdr [of i a] that n(1) by simp
    then have "E a = D a" by (intro other) (metis imageE lessThan_iff)
    then have "log_valid a E \<and> settled a E = E" using d by (intro log_valid_empty) simp_all
    moreover have "E b = D b" if "b \<notin> log_region a"
      using that n(3) by (intro other) (auto simp: log_region_def)
    ultimately show ?thesis using True by simp
  next
    case False
    then obtain m where k: "k = length bs + 1 + m" by (metis add.assoc less_imp_Suc_add not_le plus_1_eq_Suc add.commute)
    define W where "W = (dapply ?lw D)(a := ?h)"
    have Wl: "W (log_blk a i) = V (bs ! i)" if "i < length bs" for i
      using dapply_log_blk [OF n(1) that] log_blk_hdr [of i a] that n(1) by (simp add: W_def)
    have Wo: "W b = D b" if "b \<notin> log_region a" for b
      using dapply_log_other [OF n(3) that] ba [OF that] by (simp add: W_def)
    show ?thesis
    proof (cases "m \<le> length bs")
      case True
      then have E: "E = dapply (take m ?hw) W" using n(2) by (simp add: E_def commit_writes_def W_def k)
      have other: "E c = W c" if "c \<notin> set bs" for c
        unfolding E using that set_take_subset_fst [of c m ?hw] by (intro dapply_other) (auto simp: image_comp)
      have Ea: "E a = ?h" using other [OF trans_okD(3) [OF tr]] by (simp add: W_def)
      have El: "E (log_blk a i) = V (bs ! i)" if "i < length bs" for i
        using other [OF trans_okD(4) [OF tr]] Wl [OF that] that n(1) by simp
      have "settled a E b = dapply ?hw E b" for b
        using home_writes_logged [of bs E a V] El by (simp add: settled_def Ea h(2))
      then have "settled a E b = V b" if "b \<notin> log_region a"
        using that V Wo other hV by simp
      moreover have "log_valid a E"
        using tr h sint_small [OF n(1)] by (simp add: log_valid_def Ea)
      ultimately show ?thesis using False by simp
    next
      case False
      then have "k - length bs - 1 - length bs \<ge> 1" using k by simp
      then have E: "E = (dapply ?hw W)(a := hdr_bytes [] ?h)"
        using n(2) by (simp add: E_def commit_writes_def W_def k)
      have "log_valid a E \<and> settled a E = E"
        by (rule log_valid_empty) (simp_all add: E hdr_bytes_Nil h)
      then show ?thesis using \<open>\<not> k \<le> length bs\<close> V Wo ba hV by (simp add: E)
    qed
  qed
  then show "log_valid a E" "b \<notin> log_region a \<Longrightarrow> settled a E b = (if k \<le> length bs then D b else V b)" by blast+
qed

subsection \<open>The end of a file-system call\<close>

lemma end_op_run:
  assumes "calm s" "lg_outstanding s = 1" "\<not> lg_committing s"
    and "commit (s\<lparr>lg_outstanding := 0, lg_committing := True\<rparr>) = Done () t" "calm t"
  shows "end_op s = Done () (t\<lparr>lg_committing := False\<rparr>)"
proof -
  have "wakeup ChLog (acquired LkLog (t\<lparr>lg_committing := False\<rparr>)) = Done () (acquired LkLog (t\<lparr>lg_committing := False\<rparr>))"
    using calmD [OF assms(5)] by (intro wakeup_none) (simp_all add: lock_simps)
  then show ?thesis
    using assms calmD [OF assms(1)] calmD [OF assms(5)]
    by (simp add: end_op_def kmon_simps bnd_run lock_simps)
qed

lemma end_op_abs:
  assumes s: "calm s" "bio_abs s V Map.empty (set bs)" "log_hdr bs s" "lg_start s = a" and tr: "trans_ok a bs"
    and out: "lg_outstanding s = 1" "\<not> lg_committing s"
  defines "ws \<equiv> (if bs = [] then [] else commit_writes a bs V (V a))"
  shows "\<exists>t W. end_op s = Done () t \<and> bio_abs t W Map.empty {} \<and> (\<forall>b. b \<notin> log_region a \<longrightarrow> W b = V b) \<and>
    log_hdr [] t \<and> log_frame (s\<lparr>lg_outstanding := 0\<rparr>) t \<and> dhist t = dhist s @ ws \<and> disk t = dapply ws (disk s) \<and>
    get32 0 (W a) = (if bs = [] then get32 0 (V a) else 0)"
proof -
  let ?s = "s\<lparr>lg_outstanding := 0, lg_committing := True\<rparr>"
  have s': "calm ?s" "bio_abs ?s V Map.empty (set bs)" "log_hdr bs ?s" "lg_start ?s = a"
    using s by (simp_all add: log_hdr_def)
  have bk: "?s\<lparr>lg_committing := False\<rparr> = s\<lparr>lg_outstanding := 0\<rparr>" using out(2) by simp
  show ?thesis
  proof (cases "bs = []")
    case True
    then have "commit ?s = Done () ?s" using s(3) by (simp add: commit_def kmon_simps log_hdr_def)
    then have run: "end_op s = Done () (s\<lparr>lg_outstanding := 0\<rparr>)"
      using end_op_run [OF s(1) out _ s'(1), unfolded bk] by simp
    show ?thesis
      using run s True by (intro exI [of _ "s\<lparr>lg_outstanding := 0\<rparr>"] exI [of _ V]) (simp add: ws_def log_hdr_def)
  next
    case False
    obtain t W where t: "commit ?s = Done () t" "bio_abs t W Map.empty {}" "\<And>b. b \<notin> log_region a \<Longrightarrow> W b = V b"
        "log_hdr [] t" "log_frame ?s t" "dhist t = dhist s @ ws" "disk t = dapply ws (disk s)"
        "W a = hdr_bytes [] (hdr_bytes bs (V a))"
      using commit_abs [OF s' tr False] False unfolding ws_def by fastforce
    have ct: "calm t" using log_frame_fields(1) [OF t(5)] s'(1) by simp
    have run: "end_op s = Done () (t\<lparr>lg_committing := False\<rparr>)" using end_op_run [OF s(1) out t(1) ct] .
    have fr: "log_frame (s\<lparr>lg_outstanding := 0\<rparr>) (t\<lparr>lg_committing := False\<rparr>)"
      using log_frame_committing [OF t(5), of False] unfolding bk .
    have "length bs \<le> LOGSIZE" using tr by (simp add: trans_ok_def)
    then have "get32 0 (W a) = 0"
      using hdr_bytes_Nil(2) [OF hdr_bytes_facts(1) [OF _ bio_absD(6) [OF s(2)]], of bs a] t(8) by simp
    then show ?thesis
      using run fr t(2-4,6,7) False
      by (intro exI [of _ "t\<lparr>lg_committing := False\<rparr>"] exI [of _ W]) (simp add: log_hdr_def)
  qed
qed

subsection \<open>Properties\<close>

lemma end_op_recovers:
  assumes "calm s" "bio_abs s V Map.empty (set bs)" "log_hdr bs s" "lg_start s = sb_logstart sb"
    and "trans_ok (sb_logstart sb) bs" "bs \<noteq> []" "lg_outstanding s = 1" "\<not> lg_committing s"
    and "get32 0 (disk s (sb_logstart sb)) = 0"
  shows "\<exists>t. end_op s = Done () t \<and>
    dhist t = dhist s @ commit_writes (sb_logstart sb) bs V (V (sb_logstart sb)) \<and>
    (\<forall>b. b \<notin> log_region (sb_logstart sb) \<longrightarrow> disk t b = V b) \<and>
    (\<forall>k D (r :: 'y logst_scheme).
       crashes sb
         (dapply (take k (commit_writes (sb_logstart sb) bs V (V (sb_logstart sb)))) (disk s)) D \<longrightarrow> booted D r \<longrightarrow>
       (\<exists>u. initlog ROOTDEV sb r = Done () u \<and> get32 0 (disk u (sb_logstart sb)) = 0 \<and>
          (\<forall>b. b \<notin> log_region (sb_logstart sb) \<longrightarrow> disk u b = (if k \<le> length bs then disk s b else V b))))"
proof -
  let ?a = "sb_logstart sb"
  let ?ws = "commit_writes ?a bs V (V ?a)"
  note tr = assms(5)
  have va: "V ?a = disk s ?a" using unpinned_clean [OF assms(2) trans_okD(3) [OF tr]] .
  then have len: "length (disk s ?a) = BSIZE" using bio_absD(6) [OF assms(2), of ?a] by simp
  obtain t W where t: "end_op s = Done () t" "bio_abs t W Map.empty {}" "\<forall>b. b \<notin> log_region ?a \<longrightarrow> W b = V b"
      "dhist t = dhist s @ ?ws" "disk t = dapply ?ws (disk s)"
    using end_op_abs [OF assms(1-5,7,8)] assms(6) by auto
  have "disk t b = V b" if "b \<notin> log_region ?a" for b
    using t(3) unpinned_clean [OF t(2), of b] that by simp
  moreover have "\<exists>u. initlog ROOTDEV sb r = Done () u \<and> get32 0 (disk u ?a) = 0 \<and>
      (\<forall>b. b \<notin> log_region ?a \<longrightarrow> disk u b = (if k \<le> length bs then disk s b else V b))"
    if c: "crashes sb (dapply (take k ?ws) (disk s)) D" and r: "booted D r" for k D and r :: "'y logst_scheme"
  proof -
    let ?E = "dapply (take k (commit_writes ?a bs V (disk s ?a))) (disk s)"
    have E: "log_valid ?a ?E" "\<And>b. b \<notin> log_region ?a \<Longrightarrow> settled ?a ?E b = (if k \<le> length bs then disk s b else V b)"
      using commit_prefix [where D = "disk s" and E = ?E and k = k, OF tr len assms(9)] unpinned_clean [OF assms(2)] by blast+
    have D: "log_valid ?a D" "\<And>b. b \<notin> log_region ?a \<Longrightarrow> settled ?a D b = settled ?a ?E b"
      using crashes_settled [OF c [unfolded va] E(1)] by blast+
    obtain u where u: "initlog ROOTDEV sb r = Done () u" "disk u = dapply (rec_writes ?a D) D"
      using initlog_abs [OF r D(1)] by blast
    have "disk u b = (if k \<le> length bs then disk s b else V b)" if "b \<notin> log_region ?a" for b
      using recovered_settled [of b ?a D] D(2) E(2) that u(2) by (auto simp: log_region_def)
    moreover have "get32 0 (disk u ?a) = 0"
      using D(1) by (simp add: u(2) rec_writes_def hdr_bytes_Nil log_valid_def)
    ultimately show ?thesis using u(1) by blast
  qed
  ultimately show ?thesis using t(1,4) by blast
qed

text \<open>
  C2. A file-system call is atomic with respect to crashes. When the last call of a transaction
  ends, \<open>end_op\<close> returns and leaves every block at the value the transaction gave it; and if the
  machine stops after any prefix of the disk writes and then again during any number of recoveries,
  the first complete \<open>initlog\<close> returns with an empty log and a disk that, outside the log, is
  entirely the old one (up to the header write) or entirely the new one (from it on).
\<close>

theorem end_op_crash_atomic:
  assumes "calm s" "bio_abs s V Map.empty (set bs)" "log_hdr bs s" "lg_start s = sb_logstart sb"
    and "trans_ok (sb_logstart sb) bs" "bs \<noteq> []" "lg_outstanding s = 1" "\<not> lg_committing s"
    and "get32 0 (disk s (sb_logstart sb)) = 0"
  shows "\<exists>t. end_op s = Done () t \<and>
    dhist t = dhist s @ commit_writes (sb_logstart sb) bs V (V (sb_logstart sb)) \<and>
    (\<forall>b. b \<notin> log_region (sb_logstart sb) \<longrightarrow> disk t b = V b) \<and>
    (\<forall>k D (r :: 'y logst_scheme).
       crashes sb
         (dapply (take k (commit_writes (sb_logstart sb) bs V (V (sb_logstart sb)))) (disk s)) D \<longrightarrow> booted D r \<longrightarrow>
       (\<exists>u. initlog ROOTDEV sb r = Done () u \<and> get32 0 (disk u (sb_logstart sb)) = 0 \<and>
          (\<forall>b. b \<notin> log_region (sb_logstart sb) \<longrightarrow> disk u b = (if k \<le> length bs then disk s b else V b))))"
  using end_op_recovers [OF assms] .

subsection \<open>A transaction that writes one block\<close>

definition demo_buf :: buf where
  "demo_buf = \<lparr>b_valid = False, b_disk = False, b_dev = 0, b_blockno = 0, b_refcnt = 0, b_prev = BHead,
     b_next = BHead, b_data = replicate BSIZE 0\<rparr>"

definition demo_boot :: "(u32 \<Rightarrow> block) \<Rightarrow> logst" where
  "demo_boot D = \<lparr>patience = 0, hart = 0, sie = (\<lambda>_. False),
     cpus = (\<lambda>_. \<lparr>c_proc = Some 0, c_noff = 0, c_intena = False\<rparr>),
     splk = (\<lambda>_. \<lparr>sl_locked = False, sl_name = [], sl_cpu = None\<rparr>),
     mem = demo_mem, freelist = 0, k_end = 0x80021000,
     kernel_pagetable = 0, k_etext = 0, k_trampoline = 0, satp = (\<lambda>_. 0),
     procs = demo_proc # replicate 63 (demo_proc\<lparr>p_state := UNUSED, p_pid := 0\<rparr>),
     nextpid = 2, initproc = Some 0, ticks = 0,
     uart_tx_buf = replicate 32 0, uart_tx_w = 0, uart_tx_r = 0, panicked = False, pr_locking = True,
     uart_in = (\<lambda>n reg. 0x20), uart_reads = 0, uart_out = [],
     cons_buf = replicate 128 0, cons_r = 0, cons_w = 0, cons_e = 0, devsw_read = (\<lambda>_. NoFn), devsw_write = (\<lambda>_. NoFn),
     sleeplk = (\<lambda>_. \<lparr>sk_locked = False, sk_name = [], sk_pid = 0\<rparr>),
     bufs = replicate NBUF demo_buf, head_prev = BHead, head_next = BHead, disk = D, dhist = [],
     lg_start = 0, lg_size = 0, lg_outstanding = 0, lg_committing = False, lg_dev = 0, lh_n = 0,
     lh_block = replicate LOGSIZE 0\<rparr>"

definition demo_sb :: superblock where
  "demo_sb = \<lparr>sb_magic = FSMAGIC, sb_size = 2000, sb_nblocks = 1954, sb_ninodes = 200, sb_nlog = 30,
     sb_logstart = 2, sb_inodestart = 32, sb_bmapstart = 45\<rparr>"

definition demo_start :: "('z logst_scheme, unit) kmon" where
  "demo_start = thn binit (initlog ROOTDEV demo_sb)"

definition demo_txn :: "('z logst_scheme, unit) kmon" where
  "demo_txn =
     thn begin_op (
     bnd (bread ROOTDEV 100) (\<lambda>b.
     thn (modify (buf_upd b (\<lambda>x. x\<lparr>b_data := replicate BSIZE 7\<rparr>))) (
     thn (log_write b) (brelse b))))"

lemma demo_boot_calm: "calm (demo_boot D)"
  by (auto simp: calm_def demo_boot_def cpu_quiet_def lk_free_def cur_def no_sleeper_def mach_defs NPROC_def demo_proc_def)

lemma more_lh_block:
  assumes "biost.more t = biost.more s"
  shows "lh_block t = lh_block s" "lg_outstanding t = lg_outstanding s" "lg_committing t = lg_committing s"
  using assms by (cases s; cases t; simp)+

lemma demo_booted:
  assumes "\<And>b. length (D b) = BSIZE"
  shows "\<exists>r. binit (demo_boot D) = Done () r \<and> booted D r \<and> lg_outstanding r = 0 \<and> \<not> lg_committing r"
proof -
  have b: "length (bufs (demo_boot D)) = NBUF"
    "j < NBUF \<Longrightarrow> b_dev (bufs (demo_boot D) ! j) \<noteq> ROOTDEV \<and> b_refcnt (bufs (demo_boot D) ! j) = 0" for j
    by (simp_all add: demo_boot_def demo_buf_def ROOTDEV_def)
  have "disk (demo_boot D) = D" by (simp add: demo_boot_def)
  then obtain r where "binit (demo_boot D) = Done () r" "bio_abs r D Map.empty {}" "disk r = D"
      "biost.more r = biost.more (demo_boot D)" "calm r"
    using binit_abs [OF b] assms demo_boot_calm by fastforce
  then show ?thesis using more_lh_block [of r "demo_boot D"] by (auto simp: booted_def demo_boot_def)
qed

lemma demo_region: "(100 :: u32) \<notin> log_region 2"
proof -
  have "(100 :: u32) \<noteq> log_blk 2 i" if "i < LOGSIZE" for i
  proof
    assume "(100 :: u32) = log_blk 2 i"
    then have "unat (100 :: u32) = unat (of_nat (i + 3) :: u32)" by (simp add: log_blk_def add.commute)
    then show False using that by (simp add: unat_of_nat LOGSIZE_def MAXOPBLOCKS_def del: of_nat_add)
  qed
  then show ?thesis by (auto simp: log_region_def)
qed

lemma demo_started:
  assumes D: "\<And>b. length (D b) = BSIZE" "log_valid 2 D"
  shows "\<exists>t. demo_start (demo_boot D) = Done () t \<and> calm t \<and> bio_abs t (disk t) Map.empty {} \<and> log_hdr [] t \<and>
    lg_start t = 2 \<and> lg_size t = 30 \<and> disk t = dapply (rec_writes 2 D) D \<and> lg_outstanding t = 0 \<and> \<not> lg_committing t"
proof -
  obtain r where r: "binit (demo_boot D) = Done () r" "booted D r" "lg_outstanding r = 0" "\<not> lg_committing r"
    using demo_booted [of D] D(1) by blast
  have sb: "sb_logstart demo_sb = 2" "sint (sb_nlog demo_sb) = 30" by (simp_all add: demo_sb_def)
  show ?thesis
    using r(1,3,4) initlog_abs [OF r(2), of demo_sb] D(2) unfolding sb
    by (auto simp: demo_start_def kmon_simps bnd_run)
qed

lemma demo_txn_run:
  assumes t: "calm t" "bio_abs t (disk t) Map.empty {}" "log_hdr [] t" "lg_start t = 2" "lg_size t = 30"
    "lg_outstanding t = 0" "\<not> lg_committing t"
  shows "\<exists>s. demo_txn t = Done () s \<and> calm s \<and> bio_abs s ((disk t)(100 := replicate BSIZE 7)) Map.empty (set [100]) \<and>
    log_hdr [100] s \<and> lg_start s = 2 \<and> lg_outstanding s = 1 \<and> \<not> lg_committing s \<and> disk s = disk t"
proof -
  define t1 where "t1 = t\<lparr>lg_outstanding := 1\<rparr>"
  have full: "\<not> log_full t" using t(3,6) by (simp add: log_full_def log_hdr_def LOGSIZE_def MAXOPBLOCKS_def)
  have 1: "begin_op t = Done () t1" using begin_op_abs [OF t(1,7) full] t(6) by (simp add: t1_def)
  have f1: "calm t1" "bio_abs t1 (disk t) Map.empty {}" "log_hdr [] t1" "disk t1 = disk t"
    using t by (simp_all add: t1_def log_hdr_def)
  obtain b t2 where 2: "bread ROOTDEV 100 t1 = Done b t2" "bio_abs t2 (disk t) [b \<mapsto> 100] {}" "bio_frame t1 t2"
      "disk t2 = disk t"
    using bread_abs [OF f1(1,2), of 100] f1(4) by (auto simp: NBUF_def MAXOPBLOCKS_def)
  define H where "H = [b \<mapsto> (100 :: u32)]"
  note 2 = 2 [folded H_def]
  have hb: "H b = Some 100" by (simp add: H_def)
  define t3 where "t3 = buf_upd b (\<lambda>x. x\<lparr>b_data := replicate BSIZE 7\<rparr>) t2"
  have f2: "calm t2" "log_hdr [] t2" "lg_start t2 = 2" "lg_size t2 = 30" "lg_outstanding t2 = 1" "\<not> lg_committing t2"
    using bio_frame_calm(1) [OF 2(3)] log_hdr_frame [OF 2(3)] bio_frame_log [OF 2(3)] f1 t by (simp_all add: t1_def)
  have fr3: "bio_frame t2 t3" unfolding t3_def by (rule bio_frame_upd)
  have a3: "bio_abs t3 ((disk t)(100 := replicate BSIZE 7)) H (set [])"
    unfolding t3_def using buf_data_abs [where g = "\<lambda>_. replicate BSIZE 7", OF 2(2) hb] by simp
  have f3: "calm t3" "log_hdr [] t3" "lg_start t3 = 2" "lg_size t3 = 30" "lg_outstanding t3 = 1" "\<not> lg_committing t3" "disk t3 = disk t"
    using bio_frame_calm(1) [OF fr3] log_hdr_frame [OF fr3] bio_frame_log [OF fr3] f2 2(4) by (simp_all add: t3_def)
  obtain t4 where 4: "log_write b t3 = Done () t4" "bio_abs t4 ((disk t)(100 := replicate BSIZE 7)) H {100}"
      "log_hdr [100] t4" "log_frame t3 t4" "disk t4 = disk t"
    using log_write_abs [OF f3(1) a3 f3(2) hb] f3(4,5,7) by (auto simp: LOGSIZE_def MAXOPBLOCKS_def log_add_def)
  have f4: "calm t4" "lg_start t4 = 2" "lg_outstanding t4 = 1" "\<not> lg_committing t4"
    using log_frame_fields [OF 4(4)] f3 by simp_all
  obtain t5 where 5: "brelse b t4 = Done () t5" "bio_abs t5 ((disk t)(100 := replicate BSIZE 7)) (H(b := None)) {100}"
      "bio_frame t4 t5" "disk t5 = disk t4"
    using brelse_abs [OF f4(1) 4(2) hb] by auto
  have "H(b := None) = Map.empty" by (simp add: H_def)
  then show ?thesis
    using 1 2(1) 4(1) 5 f4 4(3,5) bio_frame_calm(1) [OF 5(3)] log_hdr_frame [OF 5(3)] bio_frame_log [OF 5(3)]
    by (simp add: demo_txn_def kmon_simps bnd_run t3_def)
qed

lemma dapply_all: "(\<And>b. P (d b)) \<Longrightarrow> (\<And>w. w \<in> set ws \<Longrightarrow> P (snd w)) \<Longrightarrow> P (dapply ws d b)"
proof (induction ws arbitrary: d)
  case (Cons w ws)
  have "P ((d(fst w := snd w)) b)" for b using Cons.prems by simp
  then have "P (dapply ws (d(fst w := snd w)) b)" by (rule Cons.IH) (simp add: Cons.prems(2))
  moreover have "dapply (w # ws) d = dapply ws (d(fst w := snd w))" by (cases w) simp
  ultimately show ?case by simp
qed simp

lemma commit_writes_length:
  assumes "(b, x) \<in> set (commit_writes a bs V d)" "\<And>b. length (V b) = BSIZE" "length d = BSIZE" "length bs \<le> LOGSIZE"
  shows "length x = BSIZE"
  using assms hdr_bytes_facts(1) [OF assms(4,3)] hdr_bytes_Nil(1)
  by (auto simp: commit_writes_def log_writes_def)

lemma rec_writes_length:
  assumes "w \<in> set (rec_writes a D)" "\<And>b. length (D b) = BSIZE"
  shows "length (snd w) = BSIZE"
  using assms hdr_bytes_Nil(1) [of "D a"] by (auto simp: rec_writes_def home_writes_def)

theorem end_op_crash_atomic_witness:
  "\<exists>s t. thn demo_start demo_txn (demo_boot (\<lambda>_. replicate BSIZE 0)) = Done () s \<and> end_op s = Done () t \<and>
     disk t 100 = replicate BSIZE 7 \<and>
     (\<exists>u. demo_start (demo_boot (dapply (take 1 (drop (length (dhist s)) (dhist t))) (disk s))) = Done () u \<and>
        disk u 100 = disk s 100) \<and>
     (\<exists>u. demo_start (demo_boot (dapply (take 2 (drop (length (dhist s)) (dhist t))) (disk s))) = Done () u \<and>
        disk u 100 = replicate BSIZE 7) \<and>
     (\<exists>q u v. binit (demo_boot (dapply (take 2 (drop (length (dhist s)) (dhist t))) (disk s))) = Done () q \<and>
        initlog ROOTDEV demo_sb q = Done () u \<and>
        demo_start (demo_boot (dapply (take 1 (drop (length (dhist q)) (dhist u))) (disk q))) = Done () v \<and>
        disk v 100 = replicate BSIZE 7)"
proof -
  let ?Z = "\<lambda>_ :: u32. replicate BSIZE (0 :: u8)"
  have z: "log_valid 2 ?Z" using log_valid_empty [of ?Z 2] by (simp add: get32_zeros)
  obtain r where r: "demo_start (demo_boot ?Z) = Done () r" "calm r" "bio_abs r (disk r) Map.empty {}" "log_hdr [] r"
      "lg_start r = 2" "lg_size r = 30" "disk r = dapply (rec_writes 2 ?Z) ?Z" "lg_outstanding r = 0" "\<not> lg_committing r"
    using demo_started [OF _ z] by auto
  let ?V = "(disk r)(100 := replicate BSIZE 7)"
  obtain s where s: "demo_txn r = Done () s" "calm s" "bio_abs s ?V Map.empty (set [100])" "log_hdr [100] s"
      "lg_start s = 2" "lg_outstanding s = 1" "\<not> lg_committing s" "disk s = disk r"
    using demo_txn_run [OF r(2-6,8,9)] by blast
  have sb: "sb_logstart demo_sb = 2" by (simp add: demo_sb_def)
  have tr: "trans_ok (sb_logstart demo_sb) [100]"
    using demo_region by (simp add: trans_ok_def sb LOGSIZE_def MAXOPBLOCKS_def)
  have h0: "get32 0 (disk s (sb_logstart demo_sb)) = 0"
    by (simp add: s(8) r(7) rec_writes_def sb hdr_bytes_Nil)
  have ne: "[100 :: u32] \<noteq> []" and ls: "lg_start s = sb_logstart demo_sb" by (simp_all add: s(5) sb)
  let ?ws = "commit_writes 2 [100] ?V (?V 2)"
  obtain t where t: "end_op s = Done () t" "dhist t = dhist s @ ?ws" "\<forall>b. b \<notin> log_region 2 \<longrightarrow> disk t b = ?V b"
    and c: "\<And>k D (r :: logst). crashes demo_sb (dapply (take k ?ws) (disk s)) D \<Longrightarrow> booted D r \<Longrightarrow>
       \<exists>u. initlog ROOTDEV demo_sb r = Done () u \<and>
          (\<forall>b. b \<notin> log_region 2 \<longrightarrow> disk u b = (if k \<le> length [100 :: u32] then disk s b else ?V b))"
    using end_op_crash_atomic [OF s(2,3,4) ls tr ne s(6,7) h0, where 'y = unit, unfolded sb] by blast
  have rl: "length (disk r b) = BSIZE" for b using bio_absD(6) [OF r(3)] by blast
  have wl: "length (dapply (take k ?ws) (disk s) b) = BSIZE" for k b
  proof (rule dapply_all)
    show "length (snd w) = BSIZE" if "w \<in> set (take k ?ws)" for w
      using commit_writes_length [of "fst w" "snd w" 2 "[100]" ?V "?V 2"] in_set_takeD [OF that] rl
      by (simp add: LOGSIZE_def MAXOPBLOCKS_def)
  qed (simp add: s(8) rl)
  have run: "\<exists>u. demo_start (demo_boot D) = Done () u \<and> disk u 100 = (if k \<le> 1 then disk s 100 else replicate BSIZE 7)"
    if D: "crashes demo_sb (dapply (take k ?ws) (disk s)) D" "\<And>b. length (D b) = BSIZE" for k D
  proof -
    obtain q where q: "binit (demo_boot D) = Done () q" "booted D q" using demo_booted [of D] D(2) by blast
    then show ?thesis
      using c [OF D(1) q(2)] demo_region by (auto simp: demo_start_def kmon_simps bnd_run)
  qed
  let ?D = "dapply (take 2 ?ws) (disk s)"
  obtain q where q: "binit (demo_boot ?D) = Done () q" "booted ?D q" using demo_booted [of ?D, OF wl] by blast
  have Dv: "log_valid 2 ?D"
    using commit_prefix(1) [OF tr [unfolded sb] _ _ _ refl, where D = "disk s" and V = ?V and k = 2] h0 rl s(8)
    by (simp add: sb)
  obtain u where u: "initlog ROOTDEV demo_sb q = Done () u" "dhist u = dhist q @ rec_writes 2 ?D"
    using initlog_abs [OF q(2), of demo_sb] Dv unfolding sb by blast
  let ?E = "dapply (take 1 (drop (length (dhist q)) (dhist u))) ?D"
  have E: "crashes demo_sb ?D ?E" by (rule crash_again [OF crash_none q(2) u(1)])
  have "length (?E b) = BSIZE" for b
  proof (rule dapply_all)
    show "length (snd w) = BSIZE" if "w \<in> set (take 1 (drop (length (dhist q)) (dhist u)))" for w
      using rec_writes_length [of w 2 ?D] in_set_takeD [OF that] u(2) wl by simp
  qed (rule wl)
  from run [of 2, OF E this] have "\<exists>v. demo_start (demo_boot ?E) = Done () v \<and> disk v 100 = replicate BSIZE 7" by simp
  moreover have "disk q = ?D" using q(2) by (simp add: booted_def)
  ultimately have cut: "\<exists>q u v. binit (demo_boot ?D) = Done () q \<and> initlog ROOTDEV demo_sb q = Done () u \<and>
      demo_start (demo_boot (dapply (take 1 (drop (length (dhist q)) (dhist u))) (disk q))) = Done () v \<and>
      disk v 100 = replicate BSIZE 7"
    using q(1) u(1) by auto
  have "drop (length (dhist s)) (dhist t) = ?ws" using t(2) by simp
  moreover have "disk t 100 = replicate BSIZE 7" using t(3) demo_region by simp
  moreover have "thn demo_start demo_txn (demo_boot ?Z) = Done () s" using r(1) s(1) by (simp add: kmon_simps bnd_run)
  ultimately show ?thesis
    using run [of 1, OF crash_none wl] run [of 2, OF crash_none wl] cut t(1) by auto
qed

end
