(* ===== verification/Fs_Atomic.thy ===== *)
theory Fs_Atomic
  imports Fs_Inode Log_Crash
begin

text \<open>
  What the layers of the file system promise together. A file is read back as it was written, a write
  to one file does not show in another, and a write inside a transaction survives a crash entirely
  or not at all.
\<close>

subsection \<open>A file system in use\<close>

text \<open>
  A small disk in the format that \<open>mkfs\<close> writes: the free map marks the blocks up to 46 as taken, and
  inode 1 is a file of five bytes in block 46.
\<close>

definition demo_ino :: inode where
  "demo_ino = \<lparr>i_dev = ROOTDEV, i_inum = 1, i_ref = 1, i_valid = True, i_type = T_FILE, i_major = 0, i_minor = 0,
     i_nlink = 1, i_size = 5, i_addrs = 46 # replicate 12 0\<rparr>"

definition demo_disk :: "u32 \<Rightarrow> block" where
  "demo_disk x = (if x = 32 then put_dinode 64 demo_ino (replicate BSIZE 0)
     else if x = 45 then replicate 5 0xFF @ 0x7F # replicate 1018 0
     else if x = 46 then [104, 101, 108, 108, 111] @ replicate 1019 0 else replicate BSIZE 0)"

definition demo_fs :: fsst where
  "demo_fs = logst.extend (demo_boot demo_disk) \<lparr>sb = demo_sb, inodes = demo_ino # replicate 49 (demo_ino\<lparr>i_ref := 0\<rparr>)\<rparr>"

definition demo_enter :: "('z fsst_scheme, unit) kmon" where
  "demo_enter = thn demo_start begin_op"

lemma length_demo_disk [simp]: "length (demo_disk x) = BSIZE"
proof -
  have "dinode_slot 64 demo_ino (replicate BSIZE 0)"
    by (simp add: dinode_slot_def demo_ino_def DINODE_SIZE_def BSIZE_def NDIRECT_def)
  then show ?thesis using length_put_dinode by (simp add: demo_disk_def BSIZE_def)
qed

lemma demo_fs_calm: "calm demo_fs"
  by (auto simp: demo_fs_def logst.extend_def calm_def demo_boot_def cpu_quiet_def lk_free_def cur_def no_sleeper_def
      mach_defs NPROC_def demo_proc_def)

lemma hdr_bytes_zeros: "hdr_bytes [] (replicate BSIZE 0) = replicate BSIZE 0"
proof -
  have "to_le 4 (0 :: u32) = replicate 4 0" by code_simp
  then show ?thesis
    by (simp add: hdr_bytes_def put_le_def BSIZE_def flip: replicate_add)
qed

lemma demo_disk_log: "demo_disk 2 = replicate BSIZE 0" "dapply (rec_writes 2 demo_disk) demo_disk = demo_disk"
proof -
  show z: "demo_disk 2 = replicate BSIZE 0" by (simp add: demo_disk_def)
  then have "rec_writes 2 demo_disk = [(2, replicate BSIZE 0)]"
    by (simp add: rec_writes_def home_writes_def hdr_blocks_def get32_zeros hdr_bytes_zeros)
  then show "dapply (rec_writes 2 demo_disk) demo_disk = demo_disk" using z by (simp add: fun_upd_idem)
qed

lemma demo_fs_fields:
  "length (bufs demo_fs) = NBUF" "j < NBUF \<Longrightarrow> b_dev (bufs demo_fs ! j) \<noteq> ROOTDEV \<and> b_refcnt (bufs demo_fs ! j) = 0"
  "disk demo_fs = demo_disk" "lh_block demo_fs = replicate LOGSIZE 0" "lg_outstanding demo_fs = 0" "\<not> lg_committing demo_fs"
  "logst.more demo_fs = \<lparr>sb = demo_sb, inodes = demo_ino # replicate 49 (demo_ino\<lparr>i_ref := 0\<rparr>)\<rparr>"
  by (simp_all add: demo_fs_def logst.extend_def demo_boot_def demo_buf_def ROOTDEV_def)

lemma logst_more:
  assumes "biost.more t = biost.more s"
  shows "logst.more t = logst.more s"
  using assms by (cases s; cases t; simp)

lemma demo_entered:
  "\<exists>s. demo_enter demo_fs = Done () s \<and> tx s demo_disk Map.empty {} [] s \<and> sb s = demo_sb \<and>
     inodes s = demo_ino # replicate 49 (demo_ino\<lparr>i_ref := 0\<rparr>) \<and> lg_start s = 2 \<and> lg_outstanding s = 1 \<and> \<not> lg_committing s \<and> disk s = demo_disk"
proof -
  obtain r where r: "binit demo_fs = Done () r" "bio_abs r demo_disk Map.empty {}" "disk r = demo_disk"
      "biost.more r = biost.more demo_fs" "calm r"
    using binit_abs [OF demo_fs_fields(1,2)] demo_fs_calm by (auto simp: demo_fs_fields)
  have m: "lh_block r = replicate LOGSIZE 0" "lg_outstanding r = 0" "\<not> lg_committing r" "logst.more r = logst.more demo_fs"
    using more_lh_block [OF r(4)] logst_more [OF r(4)] demo_fs_fields by simp_all
  have v: "log_valid 2 demo_disk" using log_valid_empty [of demo_disk 2] demo_disk_log(1) by (simp add: get32_zeros)
  have g: "sb_logstart demo_sb = 2" "sint (sb_nlog demo_sb) = 30" by (simp_all add: demo_sb_def)
  have bt: "booted demo_disk r" using r m by (simp add: booted_def)
  obtain t where t: "initlog ROOTDEV demo_sb r = Done () t" "bio_abs t (disk t) Map.empty {}" "log_hdr [] t" "calm t"
      "disk t = demo_disk" "lg_start t = 2" "lg_size t = 30" "logst.more t = logst.more r" "lg_outstanding t = 0" "\<not> lg_committing t"
    using initlog_abs [OF bt, of demo_sb] v m unfolding g demo_disk_log(2) by auto
  have "begin_op t = Done () (t\<lparr>lg_outstanding := 1\<rparr>)"
    using begin_op_abs [OF t(4,10)] t(3,9) by (simp add: log_full_def log_hdr_def LOGSIZE_def MAXOPBLOCKS_def)
  moreover have "tx (t\<lparr>lg_outstanding := 1\<rparr>) demo_disk Map.empty {} [] (t\<lparr>lg_outstanding := 1\<rparr>)"
    using t by (intro tx_start) (simp_all add: log_hdr_def LOGSIZE_def MAXOPBLOCKS_def)
  moreover have "sb t = demo_sb" "inodes t = demo_ino # replicate 49 (demo_ino\<lparr>i_ref := 0\<rparr>)"
    using t(8) m(4) demo_fs_fields(7) by (cases t; simp)+
  ultimately show ?thesis
    using r(1) t by (intro exI [of _ "t\<lparr>lg_outstanding := 1\<rparr>"]) (simp add: demo_enter_def demo_start_def kmon_simps bnd_run)
qed

lemma demo_sb_ok: "sb_ok demo_sb" "datastart demo_sb = 46"
  by code_simp+

lemma demo_sb_size: "unat (sb_size demo_sb) = 2000" "unat (sb_ninodes demo_sb) = 200"
  by (simp_all add: demo_sb_def)

lemma demo_map_byte:
  "k < 1024 \<Longrightarrow> demo_disk 45 ! k = (if k < 5 then 0xFF else if k = 5 then 0x7F else 0)"
  by (auto simp: demo_disk_def nth_append nth_Cons' )

lemma bit_0xFF: "k < 8 \<Longrightarrow> bit (0xFF :: u8) k" and bit_0x7F: "k < 8 \<Longrightarrow> bit (0x7F :: u8) k = (k < 7)"
proof -
  have "(0xFF :: u8) = mask 8" "(0x7F :: u8) = mask 7" by code_simp+
  then show "k < 8 \<Longrightarrow> bit (0xFF :: u8) k" "k < 8 \<Longrightarrow> bit (0x7F :: u8) k = (k < 7)" by (simp_all only: bit_mask_iff possible_bit_word) simp_all
qed

lemma demo_used:
  assumes "n < 2000"
  shows "used demo_sb demo_disk n \<longleftrightarrow> n < 47"
proof -
  have "BBLOCK n demo_sb = 45" using assms by (simp add: BBLOCK_def BPB_def BSIZE_def demo_sb_def)
  moreover have "n mod BPB = n" using assms by (simp add: BPB_def BSIZE_def)
  moreover have "n div 8 < 1024" "n mod 8 < 8" using assms by simp_all
  moreover have "n div 8 < 5 \<or> n div 8 = 5 \<and> n mod 8 < 7 \<longleftrightarrow> n < 47" by presburger
  ultimately show ?thesis
    using demo_map_byte [of "n div 8"] bit_0xFF [of "n mod 8"] bit_0x7F [of "n mod 8"] by (auto simp: used_bit)
qed

lemma demo_map_ok: "map_ok demo_sb demo_disk"
  using demo_used demo_sb_size by (simp add: map_ok_def demo_sb_ok(2))

lemma demo_nfree: "nfree demo_sb demo_disk = 1953"
proof -
  have "{n. n < unat (sb_size demo_sb) \<and> \<not> used demo_sb demo_disk n} = {47..<2000}"
    using demo_used by (auto simp: demo_sb_def)
  then show ?thesis by (simp add: nfree_def)
qed

lemma demo_faddr: "k < MAXFILE \<Longrightarrow> faddr demo_disk demo_ino k = (if k = 0 then 46 else 0)"
  by (auto simp: faddr_def demo_ino_def NDIRECT_def nth_Cons')

lemma demo_file: "file_ok demo_sb demo_disk demo_ino" "full demo_disk demo_ino"
proof -
  have "data_blk demo_sb demo_disk 46" using demo_used [of 46] demo_sb_size by (simp add: data_blk_def demo_sb_ok(2))
  then show "file_ok demo_sb demo_disk demo_ino"
    unfolding file_ok_def using demo_faddr by (auto simp: demo_ino_def NDIRECT_def split: if_splits)
  have "faddr demo_disk demo_ino k \<noteq> 0" if "k * BSIZE < 5" for k
    using that demo_faddr [of 0] by (cases k) (simp_all add: BSIZE_def MAXFILE_def NDIRECT_def)
  then show "full demo_disk demo_ino"
    by (simp add: full_def) (simp add: demo_ino_def MAXFILE_def NDIRECT_def BSIZE_def)
qed

lemma demo_content: "content demo_disk demo_ino = [104, 101, 108, 108, 111]"
proof -
  have f: "fbyte demo_disk demo_ino p = demo_disk 46 ! p" if "p < 5" for p
    using that by (simp add: fbyte_def faddr_def demo_ino_def NDIRECT_def BSIZE_def)
  have "demo_disk 46 ! 0 = 104" "demo_disk 46 ! 1 = 101" "demo_disk 46 ! 2 = 108" "demo_disk 46 ! 3 = 108" "demo_disk 46 ! 4 = 111"
    by (simp_all add: demo_disk_def nth_append)
  moreover have "[0..<unat (i_size demo_ino)] = [0, 1, 2, 3, 4]" by code_simp
  ultimately show ?thesis using f by (simp add: content_def)
qed

subsection \<open>Blocks\<close>

lemma take_block_frame: "x \<noteq> of_nat n \<Longrightarrow> x \<noteq> BBLOCK n g \<Longrightarrow> take_block g n V x = V x"
  by (simp add: take_block_def bm_set_def)

text \<open>
  C15. \<open>balloc\<close> takes the first free data block. When the free map has a free block and the block
  numbers fit the int of the loop (part of \<open>map_ok\<close>), the call returns its
  number, a block that was free with no free block before it and that is not one of the metadata
  blocks. Afterwards the block is marked and zeroed, all other marks are as before, no other block
  but the one of the map has changed, and nothing has gone to the disk yet.
\<close>

theorem balloc_takes_first_free:
  assumes "tx s V Map.empty {} bs s" "sb_ok (sb s)" "map_ok (sb s) V" "0 < nfree (sb s) V" "length bs + 3 \<le> LOGSIZE"
  shows "\<exists>n t V' bs'. balloc ROOTDEV s = Done (of_nat n) t \<and> tx s V' Map.empty {} bs' t \<and>
    datastart (sb s) \<le> n \<and> n < unat (sb_size (sb s)) \<and> \<not> used (sb s) V n \<and> (\<forall>m < n. used (sb s) V m) \<and>
    V' (of_nat n) = replicate BSIZE 0 \<and> (\<forall>m < unat (sb_size (sb s)). used (sb s) V' m \<longleftrightarrow> m = n \<or> used (sb s) V m) \<and>
    (\<forall>x. x \<noteq> of_nat n \<and> x \<noteq> BBLOCK n (sb s) \<longrightarrow> V' x = V x) \<and> disk t = disk s"
proof -
  obtain n where n: "first_free (sb s) V n" using ex_first_free [OF assms(4)] by blast
  let ?V = "take_block (sb s) n V"
  have nb: "datastart (sb s) \<le> n" "n < unat (sb_size (sb s))" using first_free_data [OF assms(3) n] n by (simp_all add: first_free_def)
  have "wp (balloc ROOTDEV) (\<lambda>a t. a = of_nat n \<and> tx s ?V Map.empty {} (log_add (of_nat n) (log_add (BBLOCK n (sb s)) bs)) t) s"
    using assms(5) by (intro balloc_tx [OF assms(1) n first_free_int [OF assms(3) n]]) (simp_all add: NBUF_def LOGSIZE_def MAXOPBLOCKS_def)
  then obtain t where t: "balloc ROOTDEV s = Done (of_nat n) t" "tx s ?V Map.empty {} (log_add (of_nat n) (log_add (BBLOCK n (sb s)) bs)) t"
    by (auto simp: wp_Done)
  moreover have "used (sb s) ?V m \<longleftrightarrow> m = n \<or> used (sb s) V m" if "m < unat (sb_size (sb s))" for m
    by (rule used_take_block [OF assms(2) nb that txD(10) [OF assms(1)]])
  ultimately show ?thesis
    using n nb txD(7) [OF t(2)] take_block_frame take_block_new unfolding first_free_def by blast
qed

theorem balloc_takes_first_free_witness:
  "\<exists>s t. demo_enter demo_fs = Done () s \<and> balloc ROOTDEV s = Done 47 t"
proof -
  obtain s where s: "demo_enter demo_fs = Done () s" "tx s demo_disk Map.empty {} [] s" "sb s = demo_sb"
    using demo_entered by blast
  obtain n t where n: "balloc ROOTDEV s = Done (of_nat n) t" "n < 2000" "\<not> used demo_sb demo_disk n" "\<forall>m < n. used demo_sb demo_disk m"
    using balloc_takes_first_free [OF s(2)] s(3) demo_sb_ok demo_map_ok demo_nfree
    by (fastforce simp: LOGSIZE_def MAXOPBLOCKS_def demo_sb_def)
  have "\<not> n < 47" using n(2,3) demo_used [of n] by simp
  moreover have "\<not> 47 < n" using n(4) demo_used [of 47] by fastforce
  ultimately have "n = 47" by simp
  then show ?thesis using s(1) n(1) by auto
qed

text \<open>
  C16. A block cannot be freed twice. Freeing a taken block clears its mark and changes nothing else;
  freeing it once more, like freeing any block that is not taken, stops the system with a panic
  instead of damaging the free map.
\<close>

theorem bfree_twice_panics:
  assumes "tx s V Map.empty {} bs s" "sb_ok (sb s)" "unat a < unat (sb_size (sb s))" "used (sb s) V (unat a)" "length bs + 2 \<le> LOGSIZE"
  shows "\<exists>t V' bs'. bfree ROOTDEV a s = Done () t \<and> tx s V' Map.empty {} bs' t \<and>
    (\<forall>m < unat (sb_size (sb s)). used (sb s) V' m \<longleftrightarrow> m \<noteq> unat a \<and> used (sb s) V m) \<and>
    (\<forall>x. x \<noteq> BBLOCK (unat a) (sb s) \<longrightarrow> V' x = V x) \<and>
    bfree ROOTDEV a t = Panic ''freeing free block''"
proof -
  let ?V = "bm_clear (sb s) (unat a) V" and ?bs = "log_add (BBLOCK (unat a) (sb s)) bs"
  have room: "length bs < NBUF" "length ?bs < NBUF"
    using assms(5) length_log_add [of "BBLOCK (unat a) (sb s)" bs] by (simp_all add: NBUF_def LOGSIZE_def MAXOPBLOCKS_def)
  have "wp (bfree ROOTDEV a) (\<lambda>_ t. tx s ?V Map.empty {} ?bs t) s"
    using room(1) assms(5) by (intro bfree_tx [OF assms(1) _ assms(4)]) simp_all
  then obtain t where t: "bfree ROOTDEV a s = Done () t" "tx s ?V Map.empty {} ?bs t" by (auto simp: wp_Done)
  have u: "used (sb s) ?V m \<longleftrightarrow> m \<noteq> unat a \<and> used (sb s) V m" if "m < unat (sb_size (sb s))" for m
    using used_bm_clear [of "unat a" m V "sb s"] assms(3) that size_lt [of "sb s"] txD(10) [OF assms(1)] by simp
  have "tx t ?V Map.empty {} ?bs t" using txD [OF t(2)] unfolding tx_def by simp
  then have "bfree ROOTDEV a t = Panic ''freeing free block''"
    using bfree_free_panics [of t ?V Map.empty ?bs t a] u [OF assms(3)] tx_fields(1) [OF t(2)] room(2) by simp
  moreover have "\<forall>x. x \<noteq> BBLOCK (unat a) (sb s) \<longrightarrow> ?V x = V x" by (simp add: bm_clear_def)
  ultimately show ?thesis using t u by blast
qed

theorem bfree_twice_panics_witness:
  "\<exists>s t. demo_enter demo_fs = Done () s \<and> bfree ROOTDEV 46 s = Done () t \<and> bfree ROOTDEV 46 t = Panic ''freeing free block''"
proof -
  obtain s where s: "demo_enter demo_fs = Done () s" "tx s demo_disk Map.empty {} [] s" "sb s = demo_sb"
    using demo_entered by blast
  have "unat (46 :: u32) < unat (sb_size (sb s))" "used (sb s) demo_disk (unat (46 :: u32))"
    using demo_used [of 46] by (simp_all add: s(3)) (simp add: demo_sb_def)
  then show ?thesis
    using bfree_twice_panics [OF s(2)] s(1,3) demo_sb_ok by (fastforce simp: LOGSIZE_def MAXOPBLOCKS_def)
qed

subsection \<open>File contents\<close>

lemma updated_other_file:
  assumes "updated g V ip off ds V' ip'" "file_ok g V jp" "full V jp" "fblocks V jp \<inter> fblocks V ip \<subseteq> {0}"
  shows "content V' jp = content V jp" "file_ok g V' jp" "full V' jp"
proof -
  have same: "V' x = V x" if "x \<in> fblocks V jp" "x \<noteq> 0" for x
    using updatedD(8) [OF assms(1)] assms(4) fblocks_data [OF assms(2) that(1)] that by blast
  have dat: "data_blk g V' x" if "x \<in> fblocks V jp" "x \<noteq> 0" for x
    using updatedD(9) [OF assms(1)] assms(4) fblocks_data [OF assms(2) that(1)] that by blast
  have f: "faddr V' jp k = faddr V jp k" for k
    using same [of "i_addrs jp ! NDIRECT"] by (auto simp: faddr_def fblocks_def)
  show "full V' jp" using assms(3) by (simp add: full_def f)
  show "file_ok g V' jp"
    using assms(2) dat unfolding file_ok_def f by (auto simp: fblocks_def)
  have "fbyte V' jp p = fbyte V jp p" if "p < unat (i_size jp)" for p
  proof -
    have "p div BSIZE < MAXFILE" using that assms(3) less_mult_imp_div_less [of p MAXFILE BSIZE] by (simp add: full_def)
    then have "faddr V jp (p div BSIZE) \<in> fblocks V jp" by (simp add: fblocks_def)
    then show ?thesis using f same by (simp add: fbyte_def)
  qed
  then show "content V' jp = content V jp" by (simp add: content_def)
qed

text \<open>
  C5. What is written to a file is read back. For a file without holes and a range that starts inside
  the file or at its end, \<open>writei\<close> writes all bytes, allocating direct, indirect and data blocks as needed.
  In the block contents \<open>V'\<close> that the buffer cache of the final state gives (the \<open>tx\<close> conjunct ties them
  to that state), the contents of the file is the old one with the bytes replaced or appended, and
  the inode block holds the in-memory inode; \<open>readi\<close> of the range returns the bytes; the contents of
  every file with no block in common is unchanged, as is every other in-memory inode.
\<close>

theorem writei_readi_roundtrip:
  fixes s :: "'z fsst_scheme"
  assumes "tx s V Map.empty {} bs s" "sb_ok (sb s)" "map_ok (sb s) V" "i < length (inodes s)"
    and "file_ok (sb s) V (inodes s ! i)" "full V (inodes s ! i)" "unat (i_inum (inodes s ! i)) < unat (sb_ninodes (sb s))"
    and "unat off \<le> unat (i_size (inodes s ! i))" "unat off + length ds \<le> MAXFILE * BSIZE" "unat n = length ds"
    and "2 * span (unat off) (length ds) \<le> nfree (sb s) V" "length bs + 6 * span (unat off) (length ds) + 2 \<le> LOGSIZE"
  shows "\<exists>t V' ip' bs'. writei i (SObj ds) off n s = Done (int (length ds)) t \<and> inodes t ! i = ip' \<and>
    tx (ino_set i (\<lambda>_. ip') s) V' Map.empty {} bs' t \<and>
    (\<exists>u. readi i DObj off n t = Done (int (length ds), ds) u) \<and>
    content V' ip' = take (unat off) (content V (inodes s ! i)) @ ds @ drop (unat off + length ds) (content V (inodes s ! i)) \<and>
    (\<exists>u. readi i DObj 0 (i_size ip') t = Done (int (unat (i_size ip')), content V' ip') u) \<and>
    dinode (sb s) V' (unat (i_inum (inodes s ! i))) ip' = ip' \<and>
    (\<forall>jp. file_ok (sb s) V jp \<and> full V jp \<and> fblocks V jp \<inter> fblocks V (inodes s ! i) \<subseteq> {0} \<longrightarrow> content V' jp = content V jp)"
proof -
  let ?ip = "inodes s ! i" and ?n = "length ds" and ?o = "unat off"
  let ?P = "\<lambda>r t. \<exists>V' ip' bs'. r = int ?n \<and> updated (sb s) V ?ip ?o ds V' ip' \<and> length bs' \<le> length bs + 6 * span ?o ?n + 1 \<and>
      tx (ino_set i (\<lambda>_. ip') s) V' Map.empty {} bs' t"
  have "wp (writei i (SObj ds) off n) ?P s"
    by (rule writei_tx [OF assms(2,7) src_ok_SObj assms(1,3,5,6,4,8-12)]) blast
  then obtain t V' ip' bs' where t: "writei i (SObj ds) off n s = Done (int ?n) t" and up: "updated (sb s) V ?ip ?o ds V' ip'"
    and bs': "length bs' \<le> length bs + 6 * span ?o ?n + 1" and tx: "tx (ino_set i (\<lambda>_. ip') s) V' Map.empty {} bs' t"
    by (auto simp: wp_Done)
  have ip': "inodes (ino_set i (\<lambda>_. ip') s) ! i = ip'" "inodes t ! i = ip'" using assms(4) tx_fields(2) [OF tx] by simp_all
  have ok: "file_ok (sb s) V' ip'" "full V' ip'" and c: "content V' ip' = take ?o (content V ?ip) @ ds @ drop (?o + ?n) (content V ?ip)"
    by (rule updatedD [OF up])+
  have room: "length bs' < NBUF" using bs' assms(12) by (simp add: NBUF_def LOGSIZE_def)
  have rd: "\<exists>u. readi i DObj p m t = Done (int (length es), es) u"
    if "unat p + unat m < 2 ^ 32" "es = take (unat m) (drop (unat p) (content V' ip'))" for p m es
  proof -
    have "wp (readi i DObj p m) (\<lambda>r u. r = (int (length es), es)) t"
      by (rule readi_tx [OF tx, where g = "sb s" and i = i, unfolded ip'(1), OF ok room that(1)]) (use that(2) in simp)
    then show ?thesis by (auto simp: wp_Done)
  qed
  have lim: "MAXFILE * BSIZE < 2 ^ 32" by (simp add: MAXFILE_def NDIRECT_def NINDIRECT_def BSIZE_def)
  have "unat off + unat n < 2 ^ 32" "ds = take (unat n) (drop ?o (content V' ip'))" using assms(8-10) lim unfolding c by simp_all
  note 1 = rd [OF this]
  have "\<exists>u. readi i DObj 0 (i_size ip') t = Done (int (length (content V' ip')), content V' ip') u"
    using unsigned_less [of "i_size ip'"] by (intro rd) simp_all
  then have 2: "\<exists>u. readi i DObj 0 (i_size ip') t = Done (int (unat (i_size ip')), content V' ip') u" by simp
  have 3: "dinode (sb s) V' (unat (i_inum ?ip)) ip' = ip'" using updatedD(6) [OF up, of ip'] by simp
  show ?thesis
    by (rule exI [of _ t], rule exI [of _ V'], rule exI [of _ ip'], rule exI [of _ bs'])
      (intro conjI t ip'(2) tx 1 2 3 c allI impI updated_other_file(1) [OF up]; blast)
qed

lemma demo_span: "span 5 (Suc (Suc 0)) = 1" by code_simp

theorem writei_readi_roundtrip_witness:
  "\<exists>s t u. demo_enter demo_fs = Done () s \<and> writei 0 (SObj [33, 10]) 5 2 s = Done 2 t \<and>
     readi 0 DObj 0 7 t = Done (7, [104, 101, 108, 108, 111, 33, 10]) u"
proof -
  obtain s where s: "demo_enter demo_fs = Done () s" "tx s demo_disk Map.empty {} [] s" "sb s = demo_sb"
      "inodes s = demo_ino # replicate 49 (demo_ino\<lparr>i_ref := 0\<rparr>)"
    using demo_entered by blast
  have i: "inodes s ! 0 = demo_ino" "i_size demo_ino = 5" "i_inum demo_ino = 1" by (simp_all add: s(4) demo_ino_def)
  obtain t V' where t: "writei 0 (SObj [33, 10]) 5 2 s = Done 2 t"
      "content V' (inodes t ! 0) = take 5 (content demo_disk demo_ino) @ [33, 10] @ drop 7 (content demo_disk demo_ino)"
      "\<exists>u. readi 0 DObj 0 (i_size (inodes t ! 0)) t = Done (int (unat (i_size (inodes t ! 0))), content V' (inodes t ! 0)) u"
    using writei_readi_roundtrip [OF s(2), of 0 5 "[33, 10]" 2] i s(3,4) demo_sb_ok demo_map_ok demo_file demo_nfree demo_span demo_sb_size
    by (auto simp: LOGSIZE_def MAXOPBLOCKS_def MAXFILE_def NDIRECT_def BSIZE_def)
  have c: "content V' (inodes t ! 0) = [104, 101, 108, 108, 111, 33, 10]" using t(2) demo_content by simp
  have "unat (i_size (inodes t ! 0)) = unat (7 :: u32)" using arg_cong [OF c, of length] unfolding length_content by simp
  then have "i_size (inodes t ! 0) = 7" by (simp only: word_unat_eq_iff)
  then show ?thesis using s(1) t(1,3) c by auto
qed

subsection \<open>Crashes\<close>

lemma log_region_low:
  assumes "sb_ok g" "x \<in> log_region (sb_logstart g)"
  shows "x \<notin> fsblk g"
proof -
  have "unat (sb_inodestart g) < 2 ^ 32" using unsigned_less [of "sb_inodestart g", where 'a = nat] by simp
  then have lt: "unat (sb_logstart g) + LOGSIZE < 2 ^ 32" "unat (sb_logstart g) + LOGSIZE \<le> unat (sb_inodestart g)"
    using assms(1) unfolding sb_ok_def by linarith+
  have "unat (log_blk (sb_logstart g) i) = unat (sb_logstart g) + i + 1" if "i < LOGSIZE - 1" for i
    using that lt unat_add_small [of "i + 1" "sb_logstart g"] by (simp add: log_blk_def add.commute add.left_commute)
  then show ?thesis using assms(2) lt by (fastforce simp: log_region_def fsblk_def LOGSIZE_def MAXOPBLOCKS_def)
qed

lemma content_cong:
  assumes "sb_ok g" "file_ok g V ip" "full V ip" "\<And>x. x \<in> fsblk g \<Longrightarrow> D x = V x"
  shows "content D ip = content V ip"
proof -
  have d: "D x = V x" if "data_blk g V x" for x using assms(4) fsblk_data [OF assms(1) that] .
  have f: "faddr D ip k = faddr V ip k" for k using d file_okD(3) [OF assms(2)] by (auto simp: faddr_def)
  have "fbyte D ip p = fbyte V ip p" if "p < unat (i_size ip)" for p
  proof -
    have "p div BSIZE < MAXFILE" using that assms(3) less_mult_imp_div_less [of p MAXFILE BSIZE] by (simp add: full_def)
    then show ?thesis using f d file_okD(4) [OF assms(2)] by (auto simp: fbyte_def)
  qed
  then show ?thesis by (simp add: content_def)
qed

lemma dinode_cong:
  assumes "sb_ok g" "n < unat (sb_ninodes g)" "\<And>x. x \<in> fsblk g \<Longrightarrow> D x = V x"
  shows "dinode g D n jp = dinode g V n jp"
  using assms(3) [of "IBLOCK n g"] IBLOCK_bounds(2) [OF assms(1,2)] by (simp add: dinode_def fsblk_def)

text \<open>The contents of the file with inode number \<open>n\<close> as the disk \<open>D\<close> holds it.\<close>

definition disk_file :: "superblock \<Rightarrow> (u32 \<Rightarrow> block) \<Rightarrow> nat \<Rightarrow> u8 list" where
  "disk_file g D n = content D (dinode g D n \<lparr>i_dev = ROOTDEV, i_inum = of_nat n, i_ref = 1, i_valid = True, i_type = 0, i_major = 0,
     i_minor = 0, i_nlink = 0, i_size = 0, i_addrs = []\<rparr>)"

lemma content_fields: "i_addrs ip = i_addrs jp \<Longrightarrow> i_size ip = i_size jp \<Longrightarrow> content D ip = content D jp"
  by (simp add: content_def fbyte_def faddr_def)

lemma disk_file_dinode: "disk_file g D n = content D (dinode g D n jp)"
  unfolding disk_file_def by (rule content_fields) (simp_all add: dinode_def get_dinode_def)

text \<open>A file on disk that can be read: its inode is in order and has no holes.\<close>

definition disk_file_ok :: "superblock \<Rightarrow> (u32 \<Rightarrow> block) \<Rightarrow> nat \<Rightarrow> inode \<Rightarrow> bool" where
  "disk_file_ok g V n jp \<longleftrightarrow> n < unat (sb_ninodes g) \<and> i_dev jp = ROOTDEV \<and> file_ok g V (dinode g V n jp) \<and> full V (dinode g V n jp)"

lemma disk_file_cong:
  assumes "sb_ok g" "disk_file_ok g V n jp" "\<And>x. x \<in> fsblk g \<Longrightarrow> D x = V x"
  shows "disk_file g D n = disk_file g V n"
proof -
  have "dinode g D n jp = dinode g V n jp" using dinode_cong [OF assms(1) _ assms(3)] assms(2) by (simp add: disk_file_ok_def)
  then show ?thesis
    using content_cong [OF assms(1) _ _ assms(3)] assms(2) by (simp add: disk_file_dinode [of g _ n jp] disk_file_ok_def)
qed

text \<open>The files after an update of the one with inode number \<open>m\<close>.\<close>

lemma updated_files:
  assumes up: "updated g V ip off ds V' ip'" and m: "m = unat (i_inum ip)" "m < unat (sb_ninodes g)" "dinode g V m ip = ip"
  shows "disk_file g V' m = take off (disk_file g V m) @ ds @ drop (off + length ds) (disk_file g V m)"
    and "disk_file_ok g V' m ip'"
    and "j \<noteq> m \<Longrightarrow> disk_file_ok g V j jp \<Longrightarrow> fblocks V (dinode g V j jp) \<inter> fblocks V ip \<subseteq> {0} \<Longrightarrow>
      disk_file_ok g V' j jp \<and> disk_file g V' j = disk_file g V j"
proof -
  have "disk_file g V' m = content V' ip'"
    unfolding disk_file_dinode [of g V' m ip'] using updatedD(6) [OF up, of ip'] by (simp add: m(1))
  moreover have "disk_file g V m = content V ip" unfolding disk_file_dinode [of g V m ip] m(3) ..
  ultimately show "disk_file g V' m = take off (disk_file g V m) @ ds @ drop (off + length ds) (disk_file g V m)"
    using updatedD(5) [OF up] by simp
  have "dinode g V' m ip' = ip'" using updatedD(6) [OF up, of ip'] unfolding m(1) by (cases ip') simp
  then show "disk_file_ok g V' m ip'"
    using updatedD(2,3) [OF up] m(2) file_okD(2) [OF updatedD(2) [OF up]] by (simp add: disk_file_ok_def)
  show "disk_file_ok g V' j jp \<and> disk_file g V' j = disk_file g V j"
    if j: "j \<noteq> m" "disk_file_ok g V j jp" "fblocks V (dinode g V j jp) \<inter> fblocks V ip \<subseteq> {0}"
  proof -
    have "dinode g V' j jp = dinode g V j jp" using updatedD(7) [OF up] j(1,2) by (simp add: disk_file_ok_def m(1))
    then show ?thesis
      using updated_other_file [OF up _ _ j(3)] j(2) by (simp add: disk_file_dinode [of g _ j jp] disk_file_ok_def)
  qed
qed

text \<open>
  C1. A file write is atomic with respect to crashes. In a transaction that has just begun, \<open>writei\<close>
  followed by \<open>end_op\<close> leaves the new contents in the file on disk. If instead the machine stops after
  any number \<open>k\<close> of the disk writes, and any number of recoveries are cut short as well, the
  file that the first complete \<open>initlog\<close> leaves on disk has exactly the old contents, or, from the
  write of the log header on, exactly the new one; and every other file whose blocks are apart from
  this one's has its old contents in either case.
\<close>

theorem write_crash_atomic:
  fixes s :: "'z fsst_scheme"
  assumes "g = sb s" "ip = inodes s ! i" "m = unat (i_inum ip)" "tx s V Map.empty {} [] s" "sb_ok g" "map_ok g V" "i < length (inodes s)"
    and "lg_start s = sb_logstart g" "lg_outstanding s = 1" "\<not> lg_committing s" "get32 0 (V (sb_logstart g)) = 0"
    and "disk_file_ok g V m ip" "dinode g V m ip = ip"
    and "unat off \<le> unat (i_size ip)" "unat off + length ds \<le> MAXFILE * BSIZE" "unat n = length ds"
    and "2 * span (unat off) (length ds) \<le> nfree g V" "6 * span (unat off) (length ds) + 2 \<le> LOGSIZE"
  shows "\<exists>t u K. writei i (SObj ds) off n s = Done (int (length ds)) t \<and> end_op t = Done () u \<and>
    disk_file g (disk u) m = take (unat off) (disk_file g V m) @ ds @ drop (unat off + length ds) (disk_file g V m) \<and>
    (\<forall>k D (r :: 'y logst_scheme).
       crashes g (dapply (take k (drop (length (dhist s)) (dhist u))) (disk s)) D \<longrightarrow> booted D r \<longrightarrow>
       (\<exists>w. initlog ROOTDEV g r = Done () w \<and>
          disk_file g (disk w) m = (if k \<le> K then disk_file g V m else disk_file g (disk u) m) \<and>
          (\<forall>j jp. j \<noteq> m \<and> disk_file_ok g V j jp \<and> fblocks V (dinode g V j jp) \<inter> fblocks V ip \<subseteq> {0} \<longrightarrow>
             disk_file g (disk w) j = disk_file g V j)))"
proof -
  note A = assms(4-)
  let ?n = "length ds" and ?o = "unat off" and ?a = "sb_logstart g"
  have mi: "m < unat (sb_ninodes g)" and ok: "file_ok g V ip" "full V ip" using A(9,10) by (simp_all add: disk_file_ok_def)
  let ?P = "\<lambda>r t. \<exists>V' ip' bs'. r = int ?n \<and> updated g V ip ?o ds V' ip' \<and> length bs' \<le> 6 * span ?o ?n + 1 \<and>
      IBLOCK m g \<in> set bs' \<and> set bs' \<subseteq> fsblk g \<and> tx (ino_set i (\<lambda>_. ip') s) V' Map.empty {} bs' t"
  have "wp (writei i (SObj ds) off n) ?P s"
    unfolding assms(1-3)
    by (rule writei_tx [OF A(2) [unfolded assms(1)] mi [unfolded assms(1-3)] src_ok_SObj A(1) A(3) [unfolded assms(1)]
          ok [unfolded assms(1,2)] A(4) A(11) [unfolded assms(2)] A(12,13) A(14) [unfolded assms(1)]]) (use A(15) in \<open>simp, fastforce\<close>)
  then obtain t V' ip' bs' where t: "writei i (SObj ds) off n s = Done (int ?n) t" and up: "updated g V ip ?o ds V' ip'"
    and bs: "length bs' \<le> 6 * span ?o ?n + 1" "IBLOCK m g \<in> set bs'" "set bs' \<subseteq> fsblk g"
    and tx: "tx (ino_set i (\<lambda>_. ip') s) V' Map.empty {} bs' t"
    unfolding wp_Done by blast
  have f: "lg_start t = ?a" "lg_outstanding t = 1" "\<not> lg_committing t"
    using log_frame_fields [OF txD(1) [OF tx]] A(5-7) by (simp_all add: ino_set_def)
  have dk: "disk t = disk s" "dhist t = dhist s" using txD(7,8) [OF tx] by (simp_all add: ino_set_def)
  have VD: "V = disk s" using txD(9) [OF A(1)] by (auto intro!: ext)
  have tr: "trans_ok ?a bs'"
    using txD(11) [OF tx] bs A(15) log_region_low [OF A(2)] by (auto simp: trans_ok_def)
  have ne: "bs' \<noteq> []" using bs(2) by auto
  have z: "get32 0 (disk t ?a) = 0" using A(8) VD dk(1) by simp
  let ?ws = "commit_writes ?a bs' V' (V' ?a)"
  obtain u where u: "end_op t = Done () u" "dhist u = dhist t @ ?ws" "\<forall>b. b \<notin> log_region ?a \<longrightarrow> disk u b = V' b"
    and cr: "\<And>k D (r :: 'y logst_scheme). crashes g (dapply (take k ?ws) (disk t)) D \<Longrightarrow> booted D r \<Longrightarrow>
       \<exists>w. initlog ROOTDEV g r = Done () w \<and> (\<forall>b. b \<notin> log_region ?a \<longrightarrow> disk w b = (if k \<le> length bs' then disk t b else V' b))"
    using end_op_recovers [OF txD(2,3,4) [OF tx] f(1) tr ne f(2,3) z, where 'y = 'y] by blast
  have nl: "b \<in> fsblk g \<Longrightarrow> b \<notin> log_region ?a" for b using log_region_low [OF A(2)] by blast
  note files = updated_files [OF up assms(3) mi A(10)]
  have du: "disk_file g (disk u) m = disk_file g V' m" using disk_file_cong [OF A(2) files(2)] u(3) nl by blast
  have "\<exists>w. initlog ROOTDEV g r = Done () w \<and>
      disk_file g (disk w) m = (if k \<le> length bs' then disk_file g V m else disk_file g (disk u) m) \<and>
      (\<forall>j jp. j \<noteq> m \<and> disk_file_ok g V j jp \<and> fblocks V (dinode g V j jp) \<inter> fblocks V ip \<subseteq> {0} \<longrightarrow>
         disk_file g (disk w) j = disk_file g V j)"
    if c: "crashes g (dapply (take k (drop (length (dhist s)) (dhist u))) (disk s)) D" and b: "booted D r" for k D and r :: "'y logst_scheme"
  proof -
    have "crashes g (dapply (take k ?ws) (disk t)) D" using c u(2) dk by simp
    from cr [OF this b] obtain w where w: "initlog ROOTDEV g r = Done () w"
        "\<And>b. b \<in> fsblk g \<Longrightarrow> disk w b = (if k \<le> length bs' then V b else V' b)"
      using nl VD dk(1) by metis
    show ?thesis
    proof (cases "k \<le> length bs'")
      case True
      then have "b \<in> fsblk g \<Longrightarrow> disk w b = V b" for b using w(2) by simp
      then show ?thesis using w(1) True disk_file_cong [OF A(2), of V _ _ "disk w"] A(9) by auto
    next
      case False
      then have "b \<in> fsblk g \<Longrightarrow> disk w b = V' b" for b using w(2) by simp
      then have V': "disk_file_ok g V' j jp \<Longrightarrow> disk_file g (disk w) j = disk_file g V' j" for j jp
        using disk_file_cong [OF A(2)] by blast
      have "disk_file g (disk w) j = disk_file g V j"
        if "j \<noteq> m" "disk_file_ok g V j jp" "fblocks V (dinode g V j jp) \<inter> fblocks V ip \<subseteq> {0}" for j jp
        using V' [of j jp] files(3) [OF that] by simp
      then show ?thesis using w(1) False V' [OF files(2)] du by (intro exI [of _ w] conjI) auto
    qed
  qed
  then show ?thesis using t u(1) du files(1)
    by (intro exI [of _ t] exI [of _ u] exI [of _ "length bs'"]) simp
qed

lemma demo_dinode: "dinode demo_sb demo_disk 1 demo_ino = demo_ino"
proof -
  have "IBLOCK 1 demo_sb = 32" "dinode_at 1 = 64" by code_simp+
  moreover have "dinode_slot 64 demo_ino (replicate BSIZE 0)"
    by (simp add: dinode_slot_def demo_ino_def DINODE_SIZE_def BSIZE_def NDIRECT_def)
  ultimately show ?thesis
    using get_put_dinode [of 64 demo_ino "replicate BSIZE 0" demo_ino] by (simp add: dinode_def demo_disk_def)
qed

theorem write_crash_atomic_witness:
  "\<exists>s t u. demo_enter demo_fs = Done () s \<and> writei 0 (SObj [33, 10]) 5 2 s = Done 2 t \<and> end_op t = Done () u \<and>
     disk_file demo_sb (disk u) 1 = [104, 101, 108, 108, 111, 33, 10]"
proof -
  obtain s where s: "demo_enter demo_fs = Done () s" "tx s demo_disk Map.empty {} [] s" "sb s = demo_sb"
      "inodes s = demo_ino # replicate 49 (demo_ino\<lparr>i_ref := 0\<rparr>)" "lg_start s = 2" "lg_outstanding s = 1" "\<not> lg_committing s"
    using demo_entered by blast
  have i: "inodes s ! 0 = demo_ino" "i_size demo_ino = 5" "i_dev demo_ino = ROOTDEV" "unat (i_inum demo_ino) = 1" "sb_logstart demo_sb = 2"
    using s(4) by (simp_all add: demo_ino_def demo_sb_def)
  have ok: "disk_file_ok demo_sb demo_disk 1 demo_ino"
    using demo_file i(3) demo_sb_size by (simp add: disk_file_ok_def demo_dinode [simplified])
  have c: "disk_file demo_sb demo_disk 1 = [104, 101, 108, 108, 111]"
    using disk_file_dinode [of demo_sb demo_disk 1 demo_ino] demo_content demo_dinode by simp
  have "\<exists>t u. writei 0 (SObj [33, 10]) 5 2 s = Done (int (length [33 :: u8, 10])) t \<and> end_op t = Done () u \<and>
      disk_file demo_sb (disk u) 1 = take (unat (5 :: u32)) (disk_file demo_sb demo_disk 1) @ [33, 10] @
        drop (unat (5 :: u32) + length [33 :: u8, 10]) (disk_file demo_sb demo_disk 1)"
    using write_crash_atomic [where s = s and 'y = unit and off = 5 and n = 2 and ds = "[33, 10]" and i = 0,
        OF s(3) [symmetric] i(1) [symmetric] i(4) [symmetric] s(2) demo_sb_ok(1) demo_map_ok]
      s(4-7) i ok demo_dinode demo_nfree demo_span demo_disk_log(1)
    by (fastforce simp: get32_zeros LOGSIZE_def MAXOPBLOCKS_def MAXFILE_def NDIRECT_def BSIZE_def)
  then show ?thesis using s(1) c by auto
qed

end
