(* ===== verification/Pipe.thy ===== *)
theory Pipe
  imports Fs
begin

text \<open>
  \<open>kernel/pipe.c\<close>: reading, writing and closing pipes (\<open>pipealloc\<close>, which allocates the two file
  structures, is with the file table in \<open>File\<close>). A pipe is named by the address of the page that
  holds it; the free-running counters are 32-bit words.
\<close>

subsection \<open>State\<close>

definition PIPESIZE :: nat where "PIPESIZE = 512"

record pipe =
  pi_data :: "u8 list"
  pi_nread :: u32
  pi_nwrite :: u32
  pi_readopen :: bool
  pi_writeopen :: bool

record pipest = fsst +
  pipes :: "u64 \<Rightarrow> pipe"

definition pipe_upd :: "u64 \<Rightarrow> (pipe \<Rightarrow> pipe) \<Rightarrow> ('z pipest_scheme, unit) kmon" where
  "pipe_upd pi f = modify (\<lambda>s. s\<lparr>pipes := (pipes s)(pi := f (pipes s pi))\<rparr>)"

definition pipe_get :: "u64 \<Rightarrow> (pipe \<Rightarrow> 'a) \<Rightarrow> ('z pipest_scheme, 'a) kmon" where
  "pipe_get pi f = gets (\<lambda>s. f (pipes s pi))"

subsection \<open>Operations\<close>

definition pipeclose :: "u64 \<Rightarrow> bool \<Rightarrow> ('z pipest_scheme, unit) kmon" where
  "pipeclose pi writable =
     thn (acquire (LkPipe pi)) (
     thn (if writable
          then thn (pipe_upd pi (\<lambda>p. p\<lparr>pi_writeopen := False\<rparr>)) (wakeup (ChPipeR pi))
          else thn (pipe_upd pi (\<lambda>p. p\<lparr>pi_readopen := False\<rparr>)) (wakeup (ChPipeW pi))) (
     bnd (pipe_get pi (\<lambda>p. \<not> pi_readopen p \<and> \<not> pi_writeopen p)) (\<lambda>closed.
     if closed then thn (release (LkPipe pi)) (kfree pi)
     else release (LkPipe pi))))"

definition pipe_full :: "pipe \<Rightarrow> bool" where
  "pipe_full p \<longleftrightarrow> pi_nwrite p = pi_nread p + of_nat PIPESIZE"

definition pipe_put :: "u8 \<Rightarrow> pipe \<Rightarrow> pipe" where
  "pipe_put ch p = p\<lparr>pi_data := (pi_data p)[unat (pi_nwrite p) mod PIPESIZE := ch], pi_nwrite := pi_nwrite p + 1\<rparr>"

text \<open>
  The loop of \<open>pipewrite\<close> with \<open>m\<close> bytes to go, resumed at most \<open>k\<close> times after sleeping: \<open>None\<close> when
  the reader is gone or the process was killed (the lock is then already released), else the
  number of bytes written.
\<close>

function pipewrite_loop :: "u64 \<Rightarrow> nat \<Rightarrow> u64 \<Rightarrow> nat \<Rightarrow> nat \<Rightarrow> nat \<Rightarrow> ('z pipest_scheme, nat option) kmon" where
  "pipewrite_loop pi pr addr k m i =
     (if m = 0 then ret (Some i) else
      bnd (pipe_get pi pi_readopen) (\<lambda>ro.
      bnd (if \<not> ro then ret True else bnd (killed pr) (\<lambda>kd. ret (kd \<noteq> 0))) (\<lambda>gone.
      if gone then thn (release (LkPipe pi)) (ret None) else
      bnd (pipe_get pi pipe_full) (\<lambda>full.
      if full then
        (if k = 0 then fault else
         thn (wakeup (ChPipeR pi)) (
         thn (sleep (ChPipeW pi) (LkPipe pi))
             (pipewrite_loop pi pr addr (k - 1) m i)))
      else
        bnd (gets (\<lambda>s. p_pagetable (procs s ! pr))) (\<lambda>pt.
        bnd (copyin_obj pt (addr + of_nat i) 1) (\<lambda>(r, bs).
        if r = -1 then ret (Some i) else
        thn (pipe_upd pi (pipe_put (hd bs)))
            (pipewrite_loop pi pr addr k (m - 1) (Suc i))))))))"
  by pat_completeness auto
termination by (relation "measure (\<lambda>(pi, pr, addr, k, m, i). k + m)") auto

declare pipewrite_loop.simps [simp del]

definition pipewrite :: "u64 \<Rightarrow> u64 \<Rightarrow> int \<Rightarrow> ('z pipest_scheme, int) kmon" where
  "pipewrite pi addr n =
     bnd curproc (\<lambda>pr.
     thn (acquire (LkPipe pi)) (
     bnd (gets patience) (\<lambda>k.
     bnd (pipewrite_loop pi pr addr k (nat n) 0) (\<lambda>w.
     case w of
       None \<Rightarrow> ret (-1)
     | Some i \<Rightarrow>
         thn (wakeup (ChPipeR pi)) (
         thn (release (LkPipe pi))
             (ret (int i)))))))"

text \<open>Wait for a byte or for the last writer to close; \<open>False\<close> when the process was killed.\<close>

fun piperead_wait :: "u64 \<Rightarrow> nat \<Rightarrow> nat \<Rightarrow> ('z pipest_scheme, bool) kmon" where
  "piperead_wait pi pr k =
     bnd (pipe_get pi (\<lambda>p. pi_nread p = pi_nwrite p \<and> pi_writeopen p)) (\<lambda>wait.
     if \<not> wait then ret True else
     bnd (killed pr) (\<lambda>kd.
     if kd \<noteq> 0 then thn (release (LkPipe pi)) (ret False) else
     (case k of
        0 \<Rightarrow> fault
      | Suc k' \<Rightarrow> thn (sleep (ChPipeR pi) (LkPipe pi)) (piperead_wait pi pr k'))))"

declare piperead_wait.simps [simp del]

fun piperead_copy :: "u64 \<Rightarrow> nat \<Rightarrow> u64 \<Rightarrow> nat \<Rightarrow> nat \<Rightarrow> ('z pipest_scheme, nat) kmon" where
  "piperead_copy pi pr addr 0 i = ret i"
| "piperead_copy pi pr addr (Suc m) i =
     bnd (pipe_get pi (\<lambda>p. pi_nread p = pi_nwrite p)) (\<lambda>none.
     if none then ret i else
     bnd (pipe_get pi (\<lambda>p. pi_data p ! (unat (pi_nread p) mod PIPESIZE))) (\<lambda>ch.
     thn (pipe_upd pi (\<lambda>p. p\<lparr>pi_nread := pi_nread p + 1\<rparr>)) (
     bnd (gets (\<lambda>s. p_pagetable (procs s ! pr))) (\<lambda>pt.
     bnd (copyout_obj pt (addr + of_nat i) [ch]) (\<lambda>r.
     if r = -1 then ret i else piperead_copy pi pr addr m (Suc i))))))"

definition piperead :: "u64 \<Rightarrow> u64 \<Rightarrow> int \<Rightarrow> ('z pipest_scheme, int) kmon" where
  "piperead pi addr n =
     bnd curproc (\<lambda>pr.
     thn (acquire (LkPipe pi)) (
     bnd (gets patience) (\<lambda>k.
     bnd (piperead_wait pi pr k) (\<lambda>go.
     if \<not> go then ret (-1) else
     bnd (piperead_copy pi pr addr (nat n) 0) (\<lambda>i.
     thn (wakeup (ChPipeW pi)) (
     thn (release (LkPipe pi))
         (ret (int i))))))))"

end
