(* ===== verification/File.thy ===== *)
theory File
  imports Pipe
begin

text \<open>
  \<open>kernel/file.c\<close> and \<open>pipealloc\<close> of \<open>kernel/pipe.c\<close>: the table of open files. A file pointer is the
  index of its table entry.
\<close>

subsection \<open>State\<close>

datatype ftype = FD_NONE | FD_PIPE | FD_INODE | FD_DEVICE

record kfile =
  f_type :: ftype
  f_ref :: int
  f_readable :: bool
  f_writable :: bool
  f_pipe :: u64
  f_ip :: "nat option"
  f_off :: u32
  f_major :: u16

text \<open>\<open>stack_junk\<close> is what the stack happens to hold where a local variable is not initialised.\<close>

record filest = pipest +
  ftable :: "kfile list"
  stack_junk :: "u8 list"

definition file_upd :: "nat \<Rightarrow> (kfile \<Rightarrow> kfile) \<Rightarrow> ('z filest_scheme, unit) kmon" where
  "file_upd f g = modify (\<lambda>s. s\<lparr>ftable := (ftable s)[f := g (ftable s ! f)]\<rparr>)"

definition file_get :: "nat \<Rightarrow> (kfile \<Rightarrow> 'a) \<Rightarrow> ('z filest_scheme, 'a) kmon" where
  "file_get f g = gets (\<lambda>s. g (ftable s ! f))"

subsection \<open>Operations\<close>

definition fileinit :: "('z filest_scheme, unit) kmon" where
  "fileinit = initlock LkFtable ''ftable''"

definition filealloc :: "('z filest_scheme, nat option) kmon" where
  "filealloc =
     thn (acquire LkFtable) (
     bnd (gets (\<lambda>s. List.find (\<lambda>f. f_ref (ftable s ! f) = 0) [0..<NFILE])) (\<lambda>slot.
     case slot of
       Some f \<Rightarrow>
         thn (file_upd f (\<lambda>x. x\<lparr>f_ref := 1\<rparr>)) (
         thn (release LkFtable) (ret (Some f)))
     | None \<Rightarrow> thn (release LkFtable) (ret None)))"

definition filedup :: "nat \<Rightarrow> ('z filest_scheme, nat) kmon" where
  "filedup f =
     thn (acquire LkFtable) (
     bnd (file_get f f_ref) (\<lambda>r.
     if r < 1 then panic ''filedup'' else
     thn (file_upd f (\<lambda>x. x\<lparr>f_ref := f_ref x + 1\<rparr>)) (
     thn (release LkFtable)
         (ret f))))"

definition fileclose :: "nat \<Rightarrow> ('z filest_scheme, unit) kmon" where
  "fileclose f =
     thn (acquire LkFtable) (
     bnd (file_get f f_ref) (\<lambda>r.
     if r < 1 then panic ''fileclose'' else
     thn (file_upd f (\<lambda>x. x\<lparr>f_ref := f_ref x - 1\<rparr>)) (
     bnd (file_get f id) (\<lambda>ff.
     if f_ref ff > 0 then release LkFtable else
     thn (file_upd f (\<lambda>x. x\<lparr>f_ref := 0\<rparr>)) (
     thn (file_upd f (\<lambda>x. x\<lparr>f_type := FD_NONE\<rparr>)) (
     thn (release LkFtable) (
     if f_type ff = FD_PIPE then pipeclose (f_pipe ff) (f_writable ff)
     else whenM (f_type ff = FD_INODE \<or> f_type ff = FD_DEVICE) (
       thn begin_op (
       thn (iput (f_ip ff))
           end_op)))))))))"

text \<open>The 24 bytes of a \<open>struct stat\<close>, with the padding the compiler puts before the size.\<close>

definition stat_bytes :: "stat \<Rightarrow> u8 list \<Rightarrow> u8 list" where
  "stat_bytes st pad = to_le 4 (of_int (st_dev st) :: u32) @ to_le 4 (st_ino st) @ to_le 2 (st_type st) @
     to_le 2 (st_nlink st) @ pad @ to_le 8 (st_size st)"

definition filestat :: "nat \<Rightarrow> u64 \<Rightarrow> ('z filest_scheme, int) kmon" where
  "filestat f addr =
     bnd curproc (\<lambda>p.
     bnd (file_get f id) (\<lambda>ff.
     if f_type ff = FD_INODE \<or> f_type ff = FD_DEVICE then
       thn (ilock (f_ip ff)) (
       bnd (stati (the (f_ip ff))) (\<lambda>st.
       thn (iunlock (f_ip ff)) (
       bnd (gets (\<lambda>s. p_pagetable (procs s ! p))) (\<lambda>pt.
       bnd (gets stack_junk) (\<lambda>junk.
       bnd (copyout_obj pt addr (stat_bytes st (take 4 junk))) (\<lambda>r.
       if r < 0 then ret (-1) else ret 0))))))
     else ret (-1)))"

definition dev_ok :: "u16 \<Rightarrow> bool" where
  "dev_ok major \<longleftrightarrow> \<not> (sint major < 0 \<or> sint major \<ge> int NDEV)"

definition fileread :: "nat \<Rightarrow> u64 \<Rightarrow> int \<Rightarrow> ('z filest_scheme, int) kmon" where
  "fileread f addr n =
     bnd (file_get f id) (\<lambda>ff.
     if \<not> f_readable ff then ret (-1) else
     (case f_type ff of
        FD_PIPE \<Rightarrow> piperead (f_pipe ff) addr n
      | FD_DEVICE \<Rightarrow>
          if \<not> dev_ok (f_major ff) then ret (-1) else
          bnd (gets (\<lambda>s. devsw_read s (unat (f_major ff)))) (\<lambda>fn.
          case fn of
            NoFn \<Rightarrow> ret (-1)
          | ConsoleRead \<Rightarrow> consoleread (DUser addr) n
          | ConsoleWrite \<Rightarrow> consolewrite (SUser addr) n)
      | FD_INODE \<Rightarrow>
          thn (ilock (f_ip ff)) (
          bnd (file_get f f_off) (\<lambda>off.
          bnd (readi (the (f_ip ff)) (DUser addr) off (of_int n)) (\<lambda>(r, bs).
          thn (whenM (r > 0) (file_upd f (\<lambda>x. x\<lparr>f_off := f_off x + of_int r\<rparr>))) (
          thn (iunlock (f_ip ff))
              (ret r)))))
      | FD_NONE \<Rightarrow> panic ''fileread''))"

definition max_write :: nat where
  "max_write = ((MAXOPBLOCKS - 1 - 1 - 2) div 2) * BSIZE"

text \<open>The loop of \<open>filewrite\<close>: \<open>m\<close> bytes to go, \<open>i\<close> written; the result is the number written.\<close>

function filewrite_loop :: "nat \<Rightarrow> nat option \<Rightarrow> u64 \<Rightarrow> nat \<Rightarrow> nat \<Rightarrow> ('z filest_scheme, nat) kmon" where
  "filewrite_loop f ip addr m i =
     (if m = 0 then ret i else
      thn begin_op (
      thn (ilock ip) (
      bnd (file_get f f_off) (\<lambda>off.
      bnd (writei (the ip) (SUser (addr + of_nat i)) off (of_nat (min m max_write))) (\<lambda>r.
      thn (whenM (r > 0) (file_upd f (\<lambda>x. x\<lparr>f_off := f_off x + of_int r\<rparr>))) (
      thn (iunlock ip) (
      thn end_op (
      if r \<noteq> int (min m max_write) then ret i
      else filewrite_loop f ip addr (m - min m max_write) (i + min m max_write)))))))))"
  by pat_completeness auto
termination
  by (relation "measure (\<lambda>(f, ip, addr, m, i). m)") (auto simp: max_write_def MAXOPBLOCKS_def BSIZE_def)

declare filewrite_loop.simps [simp del]

definition filewrite :: "nat \<Rightarrow> u64 \<Rightarrow> int \<Rightarrow> ('z filest_scheme, int) kmon" where
  "filewrite f addr n =
     bnd (file_get f id) (\<lambda>ff.
     if \<not> f_writable ff then ret (-1) else
     (case f_type ff of
        FD_PIPE \<Rightarrow> pipewrite (f_pipe ff) addr n
      | FD_DEVICE \<Rightarrow>
          if \<not> dev_ok (f_major ff) then ret (-1) else
          bnd (gets (\<lambda>s. devsw_write s (unat (f_major ff)))) (\<lambda>fn.
          case fn of
            NoFn \<Rightarrow> ret (-1)
          | ConsoleRead \<Rightarrow> consoleread (DUser addr) n
          | ConsoleWrite \<Rightarrow> consolewrite (SUser addr) n)
      | FD_INODE \<Rightarrow>
          bnd (filewrite_loop f (f_ip ff) addr (nat n) 0) (\<lambda>i.
          ret (if int i = n then n else -1))
      | FD_NONE \<Rightarrow> panic ''filewrite''))"

definition pipe_fields :: "pipe \<Rightarrow> pipe" where
  "pipe_fields p = p\<lparr>pi_readopen := True, pi_writeopen := True, pi_nwrite := 0, pi_nread := 0\<rparr>"

definition pipealloc_bad :: "nat option \<Rightarrow> nat option \<Rightarrow> ('z filest_scheme, (nat \<times> nat) option) kmon" where
  "pipealloc_bad f0 f1 =
     thn (case f0 of None \<Rightarrow> ret () | Some f \<Rightarrow> fileclose f) (
     thn (case f1 of None \<Rightarrow> ret () | Some f \<Rightarrow> fileclose f)
         (ret None))"

definition pipealloc :: "('z filest_scheme, (nat \<times> nat) option) kmon" where
  "pipealloc =
     bnd filealloc (\<lambda>a. case a of None \<Rightarrow> pipealloc_bad None None | Some f0 \<Rightarrow>
     bnd filealloc (\<lambda>b. case b of None \<Rightarrow> pipealloc_bad (Some f0) None | Some f1 \<Rightarrow>
     bnd kalloc (\<lambda>pi.
     if pi = 0 then pipealloc_bad (Some f0) (Some f1) else
     thn (pipe_upd pi pipe_fields) (
     thn (initlock (LkPipe pi) ''pipe'') (
     thn (file_upd f0 (\<lambda>x. x\<lparr>f_type := FD_PIPE, f_readable := True, f_writable := False, f_pipe := pi\<rparr>)) (
     thn (file_upd f1 (\<lambda>x. x\<lparr>f_type := FD_PIPE, f_readable := False, f_writable := True, f_pipe := pi\<rparr>))
         (ret (Some (f0, f1)))))))))"

end
