(* ===== verification/Proc_Life.thy ===== *)
theory Proc_Life
  imports File
begin

text \<open>
  The rest of \<open>kernel/proc.c\<close>: creating, growing, forking, ending and reaping processes. The trap
  frame of a process is a page of memory with the saved registers at the offsets of \<open>kernel/proc.h\<close>.
  The addresses of the kernel's own symbols (\<open>forkret\<close>, \<open>initcode\<close>) are constants of the state.
\<close>

subsection \<open>The trap frame\<close>

datatype tfreg =
    TF_kernel_satp | TF_kernel_sp | TF_kernel_trap | TF_epc | TF_kernel_hartid | TF_ra
  | TF_sp | TF_gp | TF_tp | TF_t0 | TF_t1 | TF_t2
  | TF_s0 | TF_s1 | TF_a0 | TF_a1 | TF_a2 | TF_a3
  | TF_a4 | TF_a5 | TF_a6 | TF_a7 | TF_s2 | TF_s3
  | TF_s4 | TF_s5 | TF_s6 | TF_s7 | TF_s8 | TF_s9
  | TF_s10 | TF_s11 | TF_t3 | TF_t4 | TF_t5 | TF_t6

fun tf_off :: "tfreg \<Rightarrow> u64" where
  "tf_off TF_kernel_satp = 0"
| "tf_off TF_kernel_sp = 8"
| "tf_off TF_kernel_trap = 16"
| "tf_off TF_epc = 24"
| "tf_off TF_kernel_hartid = 32"
| "tf_off TF_ra = 40"
| "tf_off TF_sp = 48"
| "tf_off TF_gp = 56"
| "tf_off TF_tp = 64"
| "tf_off TF_t0 = 72"
| "tf_off TF_t1 = 80"
| "tf_off TF_t2 = 88"
| "tf_off TF_s0 = 96"
| "tf_off TF_s1 = 104"
| "tf_off TF_a0 = 112"
| "tf_off TF_a1 = 120"
| "tf_off TF_a2 = 128"
| "tf_off TF_a3 = 136"
| "tf_off TF_a4 = 144"
| "tf_off TF_a5 = 152"
| "tf_off TF_a6 = 160"
| "tf_off TF_a7 = 168"
| "tf_off TF_s2 = 176"
| "tf_off TF_s3 = 184"
| "tf_off TF_s4 = 192"
| "tf_off TF_s5 = 200"
| "tf_off TF_s6 = 208"
| "tf_off TF_s7 = 216"
| "tf_off TF_s8 = 224"
| "tf_off TF_s9 = 232"
| "tf_off TF_s10 = 240"
| "tf_off TF_s11 = 248"
| "tf_off TF_t3 = 256"
| "tf_off TF_t4 = 264"
| "tf_off TF_t5 = 272"
| "tf_off TF_t6 = 280"

definition TF_SIZE :: nat where "TF_SIZE = 288"

definition tf_get :: "nat \<Rightarrow> tfreg \<Rightarrow> ('z procst_scheme, u64) kmon" where
  "tf_get p r = gets (\<lambda>s. load64 (mem s) (p_trapframe (procs s ! p) + tf_off r))"

definition tf_set :: "nat \<Rightarrow> tfreg \<Rightarrow> u64 \<Rightarrow> ('z procst_scheme, unit) kmon" where
  "tf_set p r v = modify (\<lambda>s. s\<lparr>mem := store64 (mem s) (p_trapframe (procs s ! p) + tf_off r) v\<rparr>)"

definition proc_get :: "nat \<Rightarrow> (proc \<Rightarrow> 'a) \<Rightarrow> ('z procst_scheme, 'a) kmon" where
  "proc_get p f = gets (\<lambda>s. f (procs s ! p))"

record lifest = filest +
  k_forkret :: u64
  k_initcode :: u64
  fork_first :: bool

subsection \<open>Page tables of processes\<close>

definition proc_pagetable :: "nat \<Rightarrow> ('z procst_scheme, u64) kmon" where
  "proc_pagetable p =
     bnd uvmcreate (\<lambda>pagetable.
     if pagetable = 0 then ret 0 else
     bnd (gets k_trampoline) (\<lambda>trampoline.
     bnd (mappages pagetable TRAMPOLINE PGSIZE trampoline (PTE_R OR PTE_X)) (\<lambda>r.
     if r < 0 then thn (uvmfree pagetable 0) (ret 0) else
     bnd (proc_get p p_trapframe) (\<lambda>tf.
     bnd (mappages pagetable TRAPFRAME PGSIZE tf (PTE_R OR PTE_W)) (\<lambda>r.
     if r < 0 then
       thn (uvmunmap pagetable TRAMPOLINE 1 False) (
       thn (uvmfree pagetable 0) (ret 0))
     else ret pagetable)))))"

definition proc_freepagetable :: "u64 \<Rightarrow> u64 \<Rightarrow> ('z procst_scheme, unit) kmon" where
  "proc_freepagetable pagetable sz =
     thn (uvmunmap pagetable TRAMPOLINE 1 False) (
     thn (uvmunmap pagetable TRAPFRAME 1 False)
         (uvmfree pagetable sz))"

subsection \<open>Allocating and freeing processes\<close>

definition freeproc :: "nat \<Rightarrow> ('z procst_scheme, unit) kmon" where
  "freeproc p =
     bnd (proc_get p id) (\<lambda>q.
     thn (whenM (p_trapframe q \<noteq> 0) (kfree (p_trapframe q))) (
     thn (proc_upd p (\<lambda>q. q\<lparr>p_trapframe := 0\<rparr>)) (
     thn (whenM (p_pagetable q \<noteq> 0) (proc_freepagetable (p_pagetable q) (p_sz q)))
         (proc_upd p (\<lambda>q. q\<lparr>p_pagetable := 0, p_sz := 0, p_pid := 0, p_parent := None, p_name := (p_name q)[0 := 0],
            p_chan := NoChan, p_killed := 0, p_xstate := 0, p_state := UNUSED\<rparr>)))))"

text \<open>The scan for an unused entry, which is returned locked.\<close>

fun allocproc_scan :: "nat list \<Rightarrow> ('z procst_scheme, nat option) kmon" where
  "allocproc_scan [] = ret None"
| "allocproc_scan (p # ps) =
     thn (acquire (LkProc p)) (
     bnd (proc_get p p_state) (\<lambda>st.
     if st = UNUSED then ret (Some p)
     else thn (release (LkProc p)) (allocproc_scan ps)))"

definition zero_context :: kcontext where
  "zero_context = \<lparr>ctx_ra = 0, ctx_sp = 0, ctx_s0 = 0, ctx_s1 = 0, ctx_s2 = 0, ctx_s3 = 0, ctx_s4 = 0, ctx_s5 = 0,
     ctx_s6 = 0, ctx_s7 = 0, ctx_s8 = 0, ctx_s9 = 0, ctx_s10 = 0, ctx_s11 = 0\<rparr>"

definition allocproc :: "('z lifest_scheme, nat option) kmon" where
  "allocproc =
     bnd (allocproc_scan [0..<NPROC]) (\<lambda>found. case found of None \<Rightarrow> ret None | Some p \<Rightarrow>
     bnd allocpid (\<lambda>pid.
     thn (proc_upd p (\<lambda>q. q\<lparr>p_pid := pid\<rparr>)) (
     thn (proc_upd p (\<lambda>q. q\<lparr>p_state := USED\<rparr>)) (
     bnd kalloc (\<lambda>tf.
     thn (proc_upd p (\<lambda>q. q\<lparr>p_trapframe := tf\<rparr>)) (
     if tf = 0 then thn (freeproc p) (thn (release (LkProc p)) (ret None)) else
     bnd (proc_pagetable p) (\<lambda>pt.
     thn (proc_upd p (\<lambda>q. q\<lparr>p_pagetable := pt\<rparr>)) (
     if pt = 0 then thn (freeproc p) (thn (release (LkProc p)) (ret None)) else
     bnd (gets k_forkret) (\<lambda>fr.
     thn (proc_upd p (\<lambda>q. q\<lparr>p_context := zero_context\<lparr>ctx_ra := fr, ctx_sp := p_kstack q + PGSIZE\<rparr>\<rparr>))
         (ret (Some p)))))))))))"

definition initcode :: "u8 list" where
  "initcode = [
     0x17, 0x5, 0x0, 0x0, 0x13, 0x5, 0x45, 0x2,
     0x97, 0x5, 0x0, 0x0, 0x93, 0x85, 0x35, 0x2,
     0x93, 0x8, 0x70, 0x0, 0x73, 0x0, 0x0, 0x0,
     0x93, 0x8, 0x20, 0x0, 0x73, 0x0, 0x0, 0x0,
     0xef, 0xf0, 0x9f, 0xff, 0x2f, 0x69, 0x6e, 0x69,
     0x74, 0x0, 0x0, 0x24, 0x0, 0x0, 0x0, 0x0,
     0x0, 0x0, 0x0, 0x0]"

definition userinit :: "('z lifest_scheme, unit) kmon" where
  "userinit =
     bnd allocproc (\<lambda>np.
     thn (modify (\<lambda>s. s\<lparr>initproc := np\<rparr>)) (
     case np of None \<Rightarrow> fault | Some p \<Rightarrow>
     bnd (proc_get p p_pagetable) (\<lambda>pt.
     bnd (gets k_initcode) (\<lambda>src.
     thn (uvmfirst pt src (of_nat (length initcode))) (
     thn (proc_upd p (\<lambda>q. q\<lparr>p_sz := PGSIZE\<rparr>)) (
     thn (tf_set p TF_epc 0) (
     thn (tf_set p TF_sp PGSIZE) (
     thn (proc_upd p (\<lambda>q. q\<lparr>p_name := put_bytes 0 (safestrcpy (lview (map asc ''initcode'')) 16) (p_name q)\<rparr>)) (
     bnd (namei [slash]) (\<lambda>cwd.
     thn (proc_upd p (\<lambda>q. q\<lparr>p_cwd := cwd\<rparr>)) (
     thn (proc_upd p (\<lambda>q. q\<lparr>p_state := RUNNABLE\<rparr>))
         (release (LkProc p)))))))))))))"

definition growproc :: "int \<Rightarrow> ('z procst_scheme, int) kmon" where
  "growproc n =
     bnd curproc (\<lambda>p.
     bnd (proc_get p id) (\<lambda>q.
     if n > 0 then
       bnd (uvmalloc (p_pagetable q) (p_sz q) (p_sz q + of_int n) PTE_W) (\<lambda>sz.
       if sz = 0 then ret (-1)
       else thn (proc_upd p (\<lambda>q. q\<lparr>p_sz := sz\<rparr>)) (ret 0))
     else if n < 0 then
       bnd (uvmdealloc (p_pagetable q) (p_sz q) (p_sz q + of_int n)) (\<lambda>sz.
       thn (proc_upd p (\<lambda>q. q\<lparr>p_sz := sz\<rparr>)) (ret 0))
     else thn (proc_upd p (\<lambda>q'. q'\<lparr>p_sz := p_sz q\<rparr>)) (ret 0)))"

definition fork :: "('z lifest_scheme, int) kmon" where
  "fork =
     bnd curproc (\<lambda>p.
     bnd allocproc (\<lambda>a. case a of None \<Rightarrow> ret (-1) | Some np \<Rightarrow>
     bnd (proc_get p id) (\<lambda>q.
     bnd (proc_get np p_pagetable) (\<lambda>npt.
     bnd (uvmcopy (p_pagetable q) npt (p_sz q)) (\<lambda>r.
     if r < 0 then thn (freeproc np) (thn (release (LkProc np)) (ret (-1))) else
     thn (proc_upd np (\<lambda>n. n\<lparr>p_sz := p_sz q\<rparr>)) (
     thn (modify (\<lambda>s. s\<lparr>mem := mem_write (mem s) (p_trapframe (procs s ! np)) (mem_read (mem s) (p_trapframe q) TF_SIZE)\<rparr>)) (
     thn (tf_set np TF_a0 0) (
     thn (for_each [0..<NOFILE] (\<lambda>i.
            bnd (proc_get p (\<lambda>q. p_ofile q ! i)) (\<lambda>f. case f of None \<Rightarrow> ret () | Some f \<Rightarrow>
            bnd (filedup f) (\<lambda>f'. proc_upd np (\<lambda>n. n\<lparr>p_ofile := (p_ofile n)[i := Some f']\<rparr>))))) (
     bnd (idup (p_cwd q)) (\<lambda>cwd.
     thn (proc_upd np (\<lambda>n. n\<lparr>p_cwd := cwd\<rparr>)) (
     thn (proc_upd np (\<lambda>n. n\<lparr>p_name := put_bytes 0 (safestrcpy (lview (p_name q)) 16) (p_name n)\<rparr>)) (
     bnd (proc_get np p_pid) (\<lambda>pid.
     thn (release (LkProc np)) (
     thn (acquire LkWait) (
     thn (proc_upd np (\<lambda>n. n\<lparr>p_parent := Some p\<rparr>)) (
     thn (release LkWait) (
     thn (acquire (LkProc np)) (
     thn (proc_upd np (\<lambda>n. n\<lparr>p_state := RUNNABLE\<rparr>)) (
     thn (release (LkProc np))
         (ret pid))))))))))))))))))))"

subsection \<open>Ending and reaping\<close>

definition proc_chan :: "nat option \<Rightarrow> chan" where
  "proc_chan p = (case p of None \<Rightarrow> NoChan | Some i \<Rightarrow> ChProc i)"

definition reparent :: "nat \<Rightarrow> ('z procst_scheme, unit) kmon" where
  "reparent p =
     for_each [0..<NPROC] (\<lambda>pp.
       bnd (proc_get pp p_parent) (\<lambda>par.
       whenM (par = Some p) (
         bnd (gets initproc) (\<lambda>ini.
         thn (proc_upd pp (\<lambda>q. q\<lparr>p_parent := ini\<rparr>))
             (wakeup (proc_chan ini))))))"

definition exit :: "int \<Rightarrow> ('z lifest_scheme, unit) kmon" where
  "exit status =
     bnd curproc (\<lambda>p.
     bnd (gets initproc) (\<lambda>ini.
     if Some p = ini then panic ''init exiting'' else
     thn (for_each [0..<NOFILE] (\<lambda>fd.
            bnd (proc_get p (\<lambda>q. p_ofile q ! fd)) (\<lambda>f. case f of None \<Rightarrow> ret () | Some f \<Rightarrow>
            thn (fileclose f)
                (proc_upd p (\<lambda>q. q\<lparr>p_ofile := (p_ofile q)[fd := None]\<rparr>))))) (
     thn begin_op (
     bnd (proc_get p p_cwd) (\<lambda>cwd.
     thn (iput cwd) (
     thn end_op (
     thn (proc_upd p (\<lambda>q. q\<lparr>p_cwd := None\<rparr>)) (
     thn (acquire LkWait) (
     thn (reparent p) (
     bnd (proc_get p p_parent) (\<lambda>par.
     thn (wakeup (proc_chan par)) (
     thn (acquire (LkProc p)) (
     thn (proc_upd p (\<lambda>q. q\<lparr>p_xstate := status\<rparr>)) (
     thn (proc_upd p (\<lambda>q. q\<lparr>p_state := ZOMBIE\<rparr>)) (
     thn (release LkWait) (
     thn sched
         (panic ''zombie exit'')))))))))))))))))"

text \<open>
  One scan of \<open>wait\<close> over the table: \<open>Inl\<close> the value to return (the locks are then released), or
  \<open>Inr\<close> whether there are children.
\<close>

fun wait_scan :: "nat \<Rightarrow> u64 \<Rightarrow> nat list \<Rightarrow> bool \<Rightarrow> ('z procst_scheme, int + bool) kmon" where
  "wait_scan p addr [] havekids = ret (Inr havekids)"
| "wait_scan p addr (pp # ps) havekids =
     bnd (proc_get pp p_parent) (\<lambda>par.
     if par \<noteq> Some p then wait_scan p addr ps havekids else
     thn (acquire (LkProc pp)) (
     bnd (proc_get pp id) (\<lambda>c.
     if p_state c = ZOMBIE then
       bnd (proc_get p p_pagetable) (\<lambda>pt.
       bnd (if addr \<noteq> 0 then copyout_obj pt addr (to_le 4 (of_int (p_xstate c) :: u32)) else ret 0) (\<lambda>r.
       if addr \<noteq> 0 \<and> r < 0 then
         thn (release (LkProc pp)) (thn (release LkWait) (ret (Inl (-1))))
       else
         thn (freeproc pp) (thn (release (LkProc pp)) (thn (release LkWait) (ret (Inl (p_pid c)))))))
     else thn (release (LkProc pp)) (wait_scan p addr ps True))))"

fun wait_loop :: "nat \<Rightarrow> u64 \<Rightarrow> nat \<Rightarrow> ('z procst_scheme, int) kmon" where
  "wait_loop p addr k =
     bnd (wait_scan p addr [0..<NPROC] False) (\<lambda>found.
     case found of
       Inl r \<Rightarrow> ret r
     | Inr havekids \<Rightarrow>
         bnd (if \<not> havekids then ret True else bnd (killed p) (\<lambda>kd. ret (kd \<noteq> 0))) (\<lambda>stop.
         if stop then thn (release LkWait) (ret (-1)) else
         (case k of 0 \<Rightarrow> fault | Suc k' \<Rightarrow> thn (sleep (ChProc p) LkWait) (wait_loop p addr k'))))"

declare wait_loop.simps [simp del]

definition wait :: "u64 \<Rightarrow> ('z procst_scheme, int) kmon" where
  "wait addr =
     bnd curproc (\<lambda>p.
     thn (acquire LkWait) (
     bnd (gets patience) (\<lambda>k. wait_loop p addr k)))"

end
