(* ===== verification/Syscall_Args.thy ===== *)
theory Syscall_Args
  imports Proc_Life
begin

text \<open>
  The argument fetching half of \<open>kernel/syscall.c\<close>. System-call arguments are the saved registers
  \<open>a0\<close> to \<open>a5\<close>; strings and words behind pointers are copied in from user memory. A buffer on the
  kernel stack is the sequence of its bytes: \<open>copyinstr_obj\<close> is the loop of \<open>copyinstr\<close> with such a
  buffer, giving the characters before the NUL.
\<close>

function copyinstr_obj :: "u64 \<Rightarrow> u64 \<Rightarrow> nat \<Rightarrow> ('z kmst_scheme, int \<times> u8 list) kmon" where
  "copyinstr_obj pagetable srcva mx =
     (if mx = 0 then ret (-1, []) else
      bnd (ret (PGROUNDDOWN srcva)) (\<lambda>va0.
      bnd (walkaddr pagetable va0) (\<lambda>pa0.
      if pa0 = 0 then ret (-1, []) else
      bnd (gets (\<lambda>s. mem_read (mem s) (pa0 + (srcva - va0)) (page_room srcva mx))) (\<lambda>bs.
      if 0 \<in> set bs then ret (0, takeWhile (\<lambda>c. c \<noteq> 0) bs) else
      bnd (copyinstr_obj pagetable (PGROUNDDOWN srcva + PGSIZE) (mx - page_room srcva mx)) (\<lambda>(r, cs).
      ret (r, bs @ cs))))))"
  by pat_completeness auto
termination by (relation "measure (\<lambda>(pagetable, srcva, mx). mx)") (auto simp: page_room_pos)

declare copyinstr_obj.simps [simp del]

definition fetchaddr :: "u64 \<Rightarrow> ('z procst_scheme, int \<times> u64) kmon" where
  "fetchaddr addr =
     bnd curproc (\<lambda>p.
     bnd (proc_get p id) (\<lambda>q.
     if addr \<ge> p_sz q \<or> addr + 8 > p_sz q then ret (-1, 0) else
     bnd (copyin_obj (p_pagetable q) addr 8) (\<lambda>(r, bs).
     if r \<noteq> 0 then ret (-1, 0) else ret (0, from_le bs))))"

text \<open>\<open>fetchstr\<close> into a page of memory, and into a buffer on the stack.\<close>

definition fetchstr :: "u64 \<Rightarrow> u64 \<Rightarrow> u64 \<Rightarrow> ('z procst_scheme, int) kmon" where
  "fetchstr addr buf mx =
     bnd curproc (\<lambda>p.
     bnd (proc_get p p_pagetable) (\<lambda>pt.
     bnd (copyinstr pt buf addr mx) (\<lambda>r.
     if r < 0 then ret (-1) else
     bnd (gets (\<lambda>s. strlen (view (mem s) buf))) (\<lambda>n.
     case n of None \<Rightarrow> spin | Some n \<Rightarrow> ret (int n)))))"

definition fetchstr_obj :: "u64 \<Rightarrow> nat \<Rightarrow> ('z procst_scheme, int \<times> u8 list) kmon" where
  "fetchstr_obj addr mx =
     bnd curproc (\<lambda>p.
     bnd (proc_get p p_pagetable) (\<lambda>pt.
     bnd (copyinstr_obj pt addr mx) (\<lambda>(r, bs).
     if r < 0 then ret (-1, []) else ret (int (length bs), bs))))"

definition argraw :: "nat \<Rightarrow> ('z procst_scheme, u64) kmon" where
  "argraw n =
     bnd curproc (\<lambda>p.
     if n = 0 then tf_get p TF_a0
     else if n = 1 then tf_get p TF_a1
     else if n = 2 then tf_get p TF_a2
     else if n = 3 then tf_get p TF_a3
     else if n = 4 then tf_get p TF_a4
     else if n = 5 then tf_get p TF_a5
     else panic ''argraw'')"

definition argint :: "nat \<Rightarrow> ('z procst_scheme, int) kmon" where
  "argint n = bnd (argraw n) (\<lambda>v. ret (sint (ucast v :: u32)))"

definition argaddr :: "nat \<Rightarrow> ('z procst_scheme, u64) kmon" where
  "argaddr n = argraw n"

definition argstr :: "nat \<Rightarrow> nat \<Rightarrow> ('z procst_scheme, int \<times> u8 list) kmon" where
  "argstr n mx = bnd (argaddr n) (\<lambda>addr. fetchstr_obj addr mx)"

end
