(* ===== verification/Exec.thy ===== *)
theory Exec
  imports Syscall_Args
begin

text \<open>
  \<open>kernel/exec.c\<close> with the ELF structures of \<open>kernel/elf.h\<close>: replacing the memory image of the
  current process. The two headers are byte sequences read from the file; the argument strings are
  pages of memory, as \<open>sys_exec\<close> prepares them. Each \<open>goto bad\<close> is a call of \<open>exec_bad\<close> with what has
  been set up so far.
\<close>

subsection \<open>ELF headers\<close>

definition ELF_MAGIC :: u32 where "ELF_MAGIC = 0x464C457F"
definition ELF_PROG_LOAD :: u32 where "ELF_PROG_LOAD = 1"

record elfhdr =
  elf_magic :: u32
  elf_entry :: u64
  elf_phoff :: u64
  elf_phnum :: u16

definition ELFHDR_SIZE :: nat where "ELFHDR_SIZE = 64"

definition get_elfhdr :: "u8 list \<Rightarrow> elfhdr" where
  "get_elfhdr d = \<lparr>elf_magic = get_le 4 0 d, elf_entry = get_le 8 24 d, elf_phoff = get_le 8 32 d, elf_phnum = get_le 2 56 d\<rparr>"

record proghdr =
  ph_type :: u32
  ph_flags :: u32
  ph_off :: u64
  ph_vaddr :: u64
  ph_filesz :: u64
  ph_memsz :: u64

definition PROGHDR_SIZE :: nat where "PROGHDR_SIZE = 56"

definition get_proghdr :: "u8 list \<Rightarrow> proghdr" where
  "get_proghdr d = \<lparr>ph_type = get_le 4 0 d, ph_flags = get_le 4 4 d, ph_off = get_le 8 8 d, ph_vaddr = get_le 8 16 d,
     ph_filesz = get_le 8 32 d, ph_memsz = get_le 8 40 d\<rparr>"

definition flags2perm :: "u32 \<Rightarrow> u64" where
  "flags2perm flags =
     (let perm = (if flags AND 1 \<noteq> 0 then PTE_X else 0)
      in if flags AND 2 \<noteq> 0 then perm OR PTE_W else perm)"

subsection \<open>Loading\<close>

function loadseg_loop :: "u64 \<Rightarrow> u64 \<Rightarrow> nat \<Rightarrow> u32 \<Rightarrow> nat \<Rightarrow> nat \<Rightarrow> ('z fsst_scheme, int) kmon" where
  "loadseg_loop pagetable va ip off sz i =
     (if \<not> i < sz then ret 0 else
      bnd (walkaddr pagetable (va + of_nat i)) (\<lambda>pa.
      if pa = 0 then panic ''loadseg: address should exist'' else
      bnd (ret (if sz - i < unat PGSIZE then sz - i else unat PGSIZE)) (\<lambda>n.
      bnd (readi ip (DKern pa) (off + of_nat i) (of_nat n)) (\<lambda>(r, bs).
      if r \<noteq> int n then ret (-1)
      else loadseg_loop pagetable va ip off sz (i + unat PGSIZE)))))"
  by pat_completeness auto
termination by (relation "measure (\<lambda>(pagetable, va, ip, off, sz, i). sz - i)") (auto simp: PGSIZE_def)

declare loadseg_loop.simps [simp del]

definition loadseg :: "u64 \<Rightarrow> u64 \<Rightarrow> nat \<Rightarrow> u32 \<Rightarrow> u32 \<Rightarrow> ('z fsst_scheme, int) kmon" where
  "loadseg pagetable va ip off sz = loadseg_loop pagetable va ip off (unat sz) 0"

text \<open>The loop over the program headers: whether it got through, and the size reached.\<close>

fun exec_load :: "nat \<Rightarrow> u64 \<Rightarrow> nat \<Rightarrow> u32 \<Rightarrow> u64 \<Rightarrow> ('z fsst_scheme, bool \<times> u64) kmon" where
  "exec_load 0 pagetable ip off sz = ret (True, sz)"
| "exec_load (Suc n) pagetable ip off sz =
     bnd (readi ip DObj off (of_nat PROGHDR_SIZE)) (\<lambda>(r, d).
     if r \<noteq> int PROGHDR_SIZE then ret (False, sz) else
     bnd (ret (get_proghdr d)) (\<lambda>ph.
     if ph_type ph \<noteq> ELF_PROG_LOAD then exec_load n pagetable ip (off + of_nat PROGHDR_SIZE) sz
     else if ph_memsz ph < ph_filesz ph then ret (False, sz)
     else if ph_vaddr ph + ph_memsz ph < ph_vaddr ph then ret (False, sz)
     else if ph_vaddr ph mod PGSIZE \<noteq> 0 then ret (False, sz) else
     bnd (uvmalloc pagetable sz (ph_vaddr ph + ph_memsz ph) (flags2perm (ph_flags ph))) (\<lambda>sz1.
     if sz1 = 0 then ret (False, sz) else
     bnd (loadseg pagetable (ph_vaddr ph) ip (ucast (ph_off ph)) (ucast (ph_filesz ph))) (\<lambda>l.
     if l < 0 then ret (False, sz1)
     else exec_load n pagetable ip (off + of_nat PROGHDR_SIZE) sz1))))"

subsection \<open>The argument strings\<close>

definition align16 :: "u64 \<Rightarrow> u64" where
  "align16 sp = sp - sp mod 16"

text \<open>Push the strings; the result is the stack pointer and the addresses pushed so far.\<close>

fun exec_push :: "u64 \<Rightarrow> u64 \<Rightarrow> u64 list \<Rightarrow> u64 \<Rightarrow> u64 list \<Rightarrow> ('z kmst_scheme, (u64 \<times> u64 list) option) kmon" where
  "exec_push pagetable stackbase [] sp ustack = ret (Some (sp, ustack))"
| "exec_push pagetable stackbase (a # argv) sp ustack =
     (if length ustack \<ge> MAXARG then ret None else
      bnd (gets (\<lambda>s. strlen (view (mem s) a))) (\<lambda>len.
      case len of None \<Rightarrow> spin | Some n \<Rightarrow>
      bnd (ret (align16 (sp - of_nat (n + 1)))) (\<lambda>sp.
      if sp < stackbase then ret None else
      bnd (copyout pagetable sp a (of_nat (n + 1))) (\<lambda>r.
      if r < 0 then ret None
      else exec_push pagetable stackbase argv sp (ustack @ [sp])))))"

definition base_name :: "u8 list \<Rightarrow> u8 list" where
  "base_name path = rev (takeWhile (\<lambda>c. c \<noteq> slash) (rev path))"

subsection \<open>exec\<close>

definition exec_bad :: "u64 \<Rightarrow> u64 \<Rightarrow> nat option \<Rightarrow> ('z lifest_scheme, int) kmon" where
  "exec_bad pagetable sz ip =
     thn (whenM (pagetable \<noteq> 0) (proc_freepagetable pagetable sz)) (
     thn (whenM (ip \<noteq> None) (thn (iunlockput ip) end_op))
         (ret (-1)))"

definition exec_stack :: "nat \<Rightarrow> u8 list \<Rightarrow> u64 list \<Rightarrow> elfhdr \<Rightarrow> u64 \<Rightarrow> u64 \<Rightarrow> ('z lifest_scheme, int) kmon" where
  "exec_stack p path argv elf pagetable sz0 =
     bnd (proc_get p p_sz) (\<lambda>oldsz.
     bnd (ret (PGROUNDUP sz0)) (\<lambda>sz.
     bnd (uvmalloc pagetable sz (sz + of_nat (USERSTACK + 1) * PGSIZE) PTE_W) (\<lambda>sz1.
     if sz1 = 0 then exec_bad pagetable sz None else
     thn (uvmclear pagetable (sz1 - of_nat (USERSTACK + 1) * PGSIZE)) (
     bnd (ret (sz1 - of_nat USERSTACK * PGSIZE)) (\<lambda>stackbase.
     bnd (exec_push pagetable stackbase argv sz1 []) (\<lambda>pushed.
     case pushed of None \<Rightarrow> exec_bad pagetable sz1 None | Some (sp, ustack) \<Rightarrow>
     if length ustack \<ge> MAXARG then fault else
     bnd (ret (align16 (sp - of_nat ((length ustack + 1) * 8)))) (\<lambda>sp.
     if sp < stackbase then exec_bad pagetable sz1 None else
     bnd (copyout_obj pagetable sp (concat (map (to_le 8) (ustack @ [0])))) (\<lambda>r.
     if r < 0 then exec_bad pagetable sz1 None else
     thn (tf_set p TF_a1 sp) (
     thn (proc_upd p (\<lambda>q. q\<lparr>p_name := put_bytes 0 (safestrcpy (lview (base_name path)) 16) (p_name q)\<rparr>)) (
     bnd (proc_get p p_pagetable) (\<lambda>oldpagetable.
     thn (proc_upd p (\<lambda>q. q\<lparr>p_pagetable := pagetable\<rparr>)) (
     thn (proc_upd p (\<lambda>q. q\<lparr>p_sz := sz1\<rparr>)) (
     thn (tf_set p TF_epc (elf_entry elf)) (
     thn (tf_set p TF_sp sp) (
     thn (proc_freepagetable oldpagetable oldsz)
         (ret (int (length ustack))))))))))))))))))"

definition exec :: "u8 list \<Rightarrow> u64 list \<Rightarrow> ('z lifest_scheme, int) kmon" where
  "exec path argv =
     bnd curproc (\<lambda>p.
     thn begin_op (
     bnd (namei path) (\<lambda>ip.
     case ip of
       None \<Rightarrow> thn end_op (ret (-1))
     | Some i \<Rightarrow>
         thn (ilock ip) (
         bnd (readi i DObj 0 (of_nat ELFHDR_SIZE)) (\<lambda>(r, d).
         if r \<noteq> int ELFHDR_SIZE then exec_bad 0 0 ip else
         bnd (ret (get_elfhdr d)) (\<lambda>elf.
         if elf_magic elf \<noteq> ELF_MAGIC then exec_bad 0 0 ip else
         bnd (proc_pagetable p) (\<lambda>pagetable.
         if pagetable = 0 then exec_bad 0 0 ip else
         bnd (exec_load (unat (elf_phnum elf)) pagetable i (ucast (elf_phoff elf)) 0) (\<lambda>(ok, sz).
         if \<not> ok then exec_bad pagetable sz ip else
         thn (iunlockput ip) (
         thn end_op (
         bnd curproc (\<lambda>p. exec_stack p path argv elf pagetable sz)))))))))))"

end
