(* ===== verification/Sysfile.thy ===== *)
theory Sysfile
  imports Exec
begin

text \<open>
  \<open>kernel/sysfile.c\<close>: the system calls on files. Each returns the 64-bit word that goes to register
  \<open>a0\<close>; the failure value is \<open>-1\<close>. The arrays for path elements start with arbitrary contents in the
  code; only the characters up to the NUL that \<open>skipelem\<close> stores are ever looked at, so here they
  start as zeros.
\<close>

subsection \<open>File descriptors\<close>

definition argfd :: "nat \<Rightarrow> ('z filest_scheme, (nat \<times> nat) option) kmon" where
  "argfd n =
     bnd (argint n) (\<lambda>fd.
     if fd < 0 \<or> fd \<ge> int NOFILE then ret None else
     bnd curproc (\<lambda>p.
     bnd (proc_get p (\<lambda>q. p_ofile q ! nat fd)) (\<lambda>f.
     case f of None \<Rightarrow> ret None | Some f \<Rightarrow> ret (Some (nat fd, f)))))"

definition set_ofile :: "nat \<Rightarrow> nat \<Rightarrow> nat option \<Rightarrow> ('z procst_scheme, unit) kmon" where
  "set_ofile p fd f = proc_upd p (\<lambda>q. q\<lparr>p_ofile := (p_ofile q)[fd := f]\<rparr>)"

definition fdalloc :: "nat \<Rightarrow> ('z filest_scheme, int) kmon" where
  "fdalloc f =
     bnd curproc (\<lambda>p.
     bnd (proc_get p (\<lambda>q. List.find (\<lambda>fd. p_ofile q ! fd = None) [0..<NOFILE])) (\<lambda>slot.
     case slot of
       Some fd \<Rightarrow> thn (set_ofile p fd (Some f)) (ret (int fd))
     | None \<Rightarrow> ret (-1)))"

definition sys_dup :: "('z filest_scheme, u64) kmon" where
  "sys_dup =
     bnd (argfd 0) (\<lambda>a. case a of None \<Rightarrow> ret (-1) | Some (_, f) \<Rightarrow>
     bnd (fdalloc f) (\<lambda>fd.
     if fd < 0 then ret (-1) else
     bnd (filedup f) (\<lambda>_. ret (of_int fd))))"

definition sys_read :: "('z filest_scheme, u64) kmon" where
  "sys_read =
     bnd (argaddr 1) (\<lambda>p.
     bnd (argint 2) (\<lambda>n.
     bnd (argfd 0) (\<lambda>a. case a of None \<Rightarrow> ret (-1) | Some (_, f) \<Rightarrow>
     bnd (fileread f p n) (\<lambda>r. ret (of_int r)))))"

definition sys_write :: "('z filest_scheme, u64) kmon" where
  "sys_write =
     bnd (argaddr 1) (\<lambda>p.
     bnd (argint 2) (\<lambda>n.
     bnd (argfd 0) (\<lambda>a. case a of None \<Rightarrow> ret (-1) | Some (_, f) \<Rightarrow>
     bnd (filewrite f p n) (\<lambda>r. ret (of_int r)))))"

definition sys_close :: "('z filest_scheme, u64) kmon" where
  "sys_close =
     bnd (argfd 0) (\<lambda>a. case a of None \<Rightarrow> ret (-1) | Some (fd, f) \<Rightarrow>
     bnd curproc (\<lambda>p.
     thn (set_ofile p fd None) (
     thn (fileclose f)
         (ret 0))))"

definition sys_fstat :: "('z filest_scheme, u64) kmon" where
  "sys_fstat =
     bnd (argaddr 1) (\<lambda>st.
     bnd (argfd 0) (\<lambda>a. case a of None \<Rightarrow> ret (-1) | Some (_, f) \<Rightarrow>
     bnd (filestat f st) (\<lambda>r. ret (of_int r))))"

subsection \<open>Links\<close>

definition name_buf :: "u8 list" where "name_buf = replicate DIRSIZ 0"

definition nlink_add :: "nat \<Rightarrow> u16 \<Rightarrow> ('z fsst_scheme, unit) kmon" where
  "nlink_add i d = ino_upd i (\<lambda>ip. ip\<lparr>i_nlink := i_nlink ip + d\<rparr>)"

definition sys_link_bad :: "nat \<Rightarrow> ('z fsst_scheme, u64) kmon" where
  "sys_link_bad i =
     thn (ilock (Some i)) (
     thn (nlink_add i (-1)) (
     thn (iupdate i) (
     thn (iunlockput (Some i)) (
     thn end_op
         (ret (-1))))))"

definition sys_link :: "('z fsst_scheme, u64) kmon" where
  "sys_link =
     bnd (argstr 0 MAXPATH) (\<lambda>(r, old).
     if r < 0 then ret (-1) else
     bnd (argstr 1 MAXPATH) (\<lambda>(r, new).
     if r < 0 then ret (-1) else
     thn begin_op (
     bnd (namei old) (\<lambda>ip. case ip of None \<Rightarrow> thn end_op (ret (-1)) | Some i \<Rightarrow>
     thn (ilock ip) (
     bnd (ino_get i i_type) (\<lambda>ty.
     if ty = T_DIR then thn (iunlockput ip) (thn end_op (ret (-1))) else
     thn (nlink_add i 1) (
     thn (iupdate i) (
     thn (iunlock ip) (
     bnd (nameiparent new name_buf) (\<lambda>(dp, name). case dp of None \<Rightarrow> sys_link_bad i | Some d \<Rightarrow>
     thn (ilock dp) (
     bnd (ino_get d i_dev) (\<lambda>ddev.
     bnd (ino_get i id) (\<lambda>ino.
     bnd (if ddev \<noteq> i_dev ino then ret (-1) else dirlink d name (i_inum ino)) (\<lambda>l.
     if l < 0 then thn (iunlockput dp) (sys_link_bad i) else
     thn (iunlockput dp) (
     thn (iput ip) (
     thn end_op
         (ret 0)))))))))))))))))"

fun isdirempty_loop :: "nat \<Rightarrow> nat list \<Rightarrow> ('z fsst_scheme, bool) kmon" where
  "isdirempty_loop dp [] = ret True"
| "isdirempty_loop dp (off # offs) =
     bnd (readi dp DObj (of_nat off) (of_nat DIRENT_SIZE)) (\<lambda>(r, de).
     if r \<noteq> int DIRENT_SIZE then panic ''isdirempty: readi'' else
     if dirent_inum de \<noteq> 0 then ret False else isdirempty_loop dp offs)"

definition isdirempty :: "nat \<Rightarrow> ('z fsst_scheme, bool) kmon" where
  "isdirempty dp = bnd (ino_get dp i_size) (\<lambda>size. isdirempty_loop dp (drop 2 (dirent_offs size)))"

definition sys_unlink_bad :: "nat option \<Rightarrow> ('z fsst_scheme, u64) kmon" where
  "sys_unlink_bad dp = thn (iunlockput dp) (thn end_op (ret (-1)))"

definition sys_unlink :: "('z fsst_scheme, u64) kmon" where
  "sys_unlink =
     bnd (argstr 0 MAXPATH) (\<lambda>(r, path).
     if r < 0 then ret (-1) else
     thn begin_op (
     bnd (nameiparent path name_buf) (\<lambda>(dp, name). case dp of None \<Rightarrow> thn end_op (ret (-1)) | Some d \<Rightarrow>
     thn (ilock dp) (
     if namecmp name (map asc ''.'') = 0 \<or> namecmp name (map asc ''..'') = 0 then sys_unlink_bad dp else
     bnd (dirlookup d name) (\<lambda>found. case found of None \<Rightarrow> sys_unlink_bad dp | Some (i, off) \<Rightarrow>
     thn (ilock (Some i)) (
     bnd (ino_get i id) (\<lambda>ino.
     if sint (i_nlink ino) < 1 then panic ''unlink: nlink < 1'' else
     bnd (if i_type ino = T_DIR then isdirempty i else ret True) (\<lambda>removable.
     if \<not> removable then thn (iunlockput (Some i)) (sys_unlink_bad dp) else
     bnd (writei d (SObj (replicate DIRENT_SIZE 0)) off (of_nat DIRENT_SIZE)) (\<lambda>w.
     if w \<noteq> int DIRENT_SIZE then panic ''unlink: writei'' else
     thn (whenM (i_type ino = T_DIR) (thn (nlink_add d (-1)) (iupdate d))) (
     thn (iunlockput dp) (
     thn (nlink_add i (-1)) (
     thn (iupdate i) (
     thn (iunlockput (Some i)) (
     thn end_op
         (ret 0)))))))))))))))"

subsection \<open>Creating and opening\<close>

definition create_fail :: "nat \<Rightarrow> nat option \<Rightarrow> ('z fsst_scheme, nat option) kmon" where
  "create_fail i dp =
     thn (ino_upd i (\<lambda>ip. ip\<lparr>i_nlink := 0\<rparr>)) (
     thn (iupdate i) (
     thn (iunlockput (Some i)) (
     thn (iunlockput dp)
         (ret None))))"

definition create :: "u8 list \<Rightarrow> u16 \<Rightarrow> u16 \<Rightarrow> u16 \<Rightarrow> ('z fsst_scheme, nat option) kmon" where
  "create path ty major minor =
     bnd (nameiparent path name_buf) (\<lambda>(dp, name). case dp of None \<Rightarrow> ret None | Some d \<Rightarrow>
     thn (ilock dp) (
     bnd (dirlookup d name) (\<lambda>found. case found of
       Some (i, _) \<Rightarrow>
         thn (iunlockput dp) (
         thn (ilock (Some i)) (
         bnd (ino_get i i_type) (\<lambda>ity.
         if ty = T_FILE \<and> (ity = T_FILE \<or> ity = T_DEVICE) then ret (Some i)
         else thn (iunlockput (Some i)) (ret None))))
     | None \<Rightarrow>
         bnd (ino_get d id) (\<lambda>dino.
         bnd (ialloc (i_dev dino) ty) (\<lambda>ip. case ip of None \<Rightarrow> thn (iunlockput dp) (ret None) | Some i \<Rightarrow>
         thn (ilock ip) (
         thn (ino_upd i (\<lambda>x. x\<lparr>i_major := major, i_minor := minor, i_nlink := 1\<rparr>)) (
         thn (iupdate i) (
         bnd (ino_get i i_inum) (\<lambda>inum.
         bnd (if ty = T_DIR then
                bnd (dirlink i (map asc ''.'') inum) (\<lambda>a.
                if a < 0 then ret False else
                bnd (dirlink i (map asc ''..'') (i_inum dino)) (\<lambda>b. ret (\<not> b < 0)))
              else ret True) (\<lambda>dots.
         if \<not> dots then create_fail i dp else
         bnd (dirlink d name inum) (\<lambda>l.
         if l < 0 then create_fail i dp else
         thn (whenM (ty = T_DIR) (thn (nlink_add d 1) (iupdate d))) (
         thn (iunlockput dp)
             (ret ip)))))))))))))"

definition open_fail :: "nat \<Rightarrow> ('z fsst_scheme, u64) kmon" where
  "open_fail i = thn (iunlockput (Some i)) (thn end_op (ret (-1)))"

definition open_inode :: "nat \<Rightarrow> u32 \<Rightarrow> ('z filest_scheme, u64) kmon" where
  "open_inode i omode =
     bnd (ino_get i id) (\<lambda>ino.
     if i_type ino = T_DEVICE \<and> (sint (i_major ino) < 0 \<or> sint (i_major ino) \<ge> int NDEV) then open_fail i else
     bnd filealloc (\<lambda>a. case a of None \<Rightarrow> open_fail i | Some f \<Rightarrow>
     bnd (fdalloc f) (\<lambda>fd.
     if fd < 0 then thn (fileclose f) (open_fail i) else
     thn (if i_type ino = T_DEVICE
          then file_upd f (\<lambda>x. x\<lparr>f_type := FD_DEVICE, f_major := i_major ino\<rparr>)
          else file_upd f (\<lambda>x. x\<lparr>f_type := FD_INODE, f_off := 0\<rparr>)) (
     thn (file_upd f (\<lambda>x. x\<lparr>f_ip := Some i, f_readable := (omode AND O_WRONLY = 0),
            f_writable := (omode AND O_WRONLY \<noteq> 0 \<or> omode AND O_RDWR \<noteq> 0)\<rparr>)) (
     thn (whenM (omode AND O_TRUNC \<noteq> 0 \<and> i_type ino = T_FILE) (itrunc i)) (
     thn (iunlock (Some i)) (
     thn end_op
         (ret (of_int fd)))))))))"

definition sys_open :: "('z filest_scheme, u64) kmon" where
  "sys_open =
     bnd (argint 1) (\<lambda>om.
     bnd (argstr 0 MAXPATH) (\<lambda>(n, path).
     if n < 0 then ret (-1) else
     thn begin_op (
     bnd (ret (of_int om)) (\<lambda>omode.
     if omode AND O_CREATE \<noteq> 0 then
       bnd (create path T_FILE 0 0) (\<lambda>ip. case ip of None \<Rightarrow> thn end_op (ret (-1)) | Some i \<Rightarrow> open_inode i omode)
     else
       bnd (namei path) (\<lambda>ip. case ip of None \<Rightarrow> thn end_op (ret (-1)) | Some i \<Rightarrow>
       thn (ilock ip) (
       bnd (ino_get i i_type) (\<lambda>ty.
       if ty = T_DIR \<and> omode \<noteq> O_RDONLY then open_fail i else open_inode i omode)))))))"

definition sys_mkdir :: "('z filest_scheme, u64) kmon" where
  "sys_mkdir =
     thn begin_op (
     bnd (argstr 0 MAXPATH) (\<lambda>(r, path).
     if r < 0 then thn end_op (ret (-1)) else
     bnd (create path T_DIR 0 0) (\<lambda>ip. case ip of None \<Rightarrow> thn end_op (ret (-1)) | Some i \<Rightarrow>
     thn (iunlockput ip) (
     thn end_op
         (ret 0)))))"

definition sys_mknod :: "('z filest_scheme, u64) kmon" where
  "sys_mknod =
     thn begin_op (
     bnd (argint 1) (\<lambda>major.
     bnd (argint 2) (\<lambda>minor.
     bnd (argstr 0 MAXPATH) (\<lambda>(r, path).
     if r < 0 then thn end_op (ret (-1)) else
     bnd (create path T_DEVICE (of_int major) (of_int minor)) (\<lambda>ip. case ip of None \<Rightarrow> thn end_op (ret (-1)) | Some i \<Rightarrow>
     thn (iunlockput ip) (
     thn end_op
         (ret 0)))))))"

definition sys_chdir :: "('z filest_scheme, u64) kmon" where
  "sys_chdir =
     bnd curproc (\<lambda>p.
     thn begin_op (
     bnd (argstr 0 MAXPATH) (\<lambda>(r, path).
     if r < 0 then thn end_op (ret (-1)) else
     bnd (namei path) (\<lambda>ip. case ip of None \<Rightarrow> thn end_op (ret (-1)) | Some i \<Rightarrow>
     thn (ilock ip) (
     bnd (ino_get i i_type) (\<lambda>ty.
     if ty \<noteq> T_DIR then thn (iunlockput ip) (thn end_op (ret (-1))) else
     thn (iunlock ip) (
     bnd (proc_get p p_cwd) (\<lambda>cwd.
     thn (iput cwd) (
     thn end_op (
     thn (proc_upd p (\<lambda>q. q\<lparr>p_cwd := ip\<rparr>))
         (ret 0)))))))))))"

subsection \<open>exec and pipe\<close>

text \<open>The loop that copies in the argument strings: whether it got through, and the pages allocated.\<close>

function exec_args :: "u64 \<Rightarrow> u64 list \<Rightarrow> ('z lifest_scheme, bool \<times> u64 list) kmon" where
  "exec_args uargv argv =
     (if length argv \<ge> MAXARG then ret (False, argv) else
      bnd (fetchaddr (uargv + 8 * of_nat (length argv))) (\<lambda>(r, uarg).
      if r < 0 then ret (False, argv)
      else if uarg = 0 then ret (True, argv) else
      bnd kalloc (\<lambda>pg.
      if pg = 0 then ret (False, argv) else
      bnd (fetchstr uarg pg PGSIZE) (\<lambda>r.
      if r < 0 then ret (False, argv @ [pg]) else exec_args uargv (argv @ [pg])))))"
  by pat_completeness auto
termination by (relation "measure (\<lambda>(uargv, argv). MAXARG - length argv)") auto

declare exec_args.simps [simp del]

definition sys_exec :: "('z lifest_scheme, u64) kmon" where
  "sys_exec =
     bnd (argaddr 1) (\<lambda>uargv.
     bnd (argstr 0 MAXPATH) (\<lambda>(r, path).
     if r < 0 then ret (-1) else
     bnd (exec_args uargv []) (\<lambda>(ok, argv).
     if \<not> ok then thn (for_each argv kfree) (ret (-1)) else
     bnd (exec path argv) (\<lambda>r.
     thn (for_each argv kfree)
         (ret (of_int r))))))"

definition pipe_fail :: "nat \<Rightarrow> nat \<Rightarrow> ('z filest_scheme, u64) kmon" where
  "pipe_fail rf wfl = thn (fileclose rf) (thn (fileclose wfl) (ret (-1)))"

definition sys_pipe :: "('z filest_scheme, u64) kmon" where
  "sys_pipe =
     bnd curproc (\<lambda>p.
     bnd (argaddr 0) (\<lambda>fdarray.
     bnd pipealloc (\<lambda>a. case a of None \<Rightarrow> ret (-1) | Some (rf, wfl) \<Rightarrow>
     bnd (fdalloc rf) (\<lambda>fd0.
     if fd0 < 0 then pipe_fail rf wfl else
     bnd (fdalloc wfl) (\<lambda>fd1.
     if fd1 < 0 then thn (set_ofile p (nat fd0) None) (pipe_fail rf wfl) else
     bnd (proc_get p p_pagetable) (\<lambda>pt.
     bnd (copyout_obj pt fdarray (to_le 4 (of_int fd0 :: u32))) (\<lambda>r.
     bnd (if r < 0 then ret r else copyout_obj pt (fdarray + 4) (to_le 4 (of_int fd1 :: u32))) (\<lambda>r.
     if r < 0 then
       thn (set_ofile p (nat fd0) None) (
       thn (set_ofile p (nat fd1) None)
           (pipe_fail rf wfl))
     else ret 0))))))))"

end
