(* ===== verification/Virtio.thy ===== *)
theory Virtio
  imports Sysfile
begin

text \<open>
  \<open>kernel/virtio_disk.c\<close> with the structures of \<open>kernel/virtio.h\<close>: the driver of the virtio block
  device. The descriptor table and the two rings are typed objects; a descriptor points to one of
  the driver's own objects. The device answers reads of its registers with arbitrary values
  (\<open>vio_in\<close>), and the driver's register writes are recorded. What the device does to the rings and
  to memory happens while the driver sleeps.
\<close>

subsection \<open>Registers and constants\<close>

definition VIRTIO_MMIO_MAGIC_VALUE :: u32 where "VIRTIO_MMIO_MAGIC_VALUE = 0x000"
definition VIRTIO_MMIO_VERSION :: u32 where "VIRTIO_MMIO_VERSION = 0x004"
definition VIRTIO_MMIO_DEVICE_ID :: u32 where "VIRTIO_MMIO_DEVICE_ID = 0x008"
definition VIRTIO_MMIO_VENDOR_ID :: u32 where "VIRTIO_MMIO_VENDOR_ID = 0x00c"
definition VIRTIO_MMIO_DEVICE_FEATURES :: u32 where "VIRTIO_MMIO_DEVICE_FEATURES = 0x010"
definition VIRTIO_MMIO_DRIVER_FEATURES :: u32 where "VIRTIO_MMIO_DRIVER_FEATURES = 0x020"
definition VIRTIO_MMIO_QUEUE_SEL :: u32 where "VIRTIO_MMIO_QUEUE_SEL = 0x030"
definition VIRTIO_MMIO_QUEUE_NUM_MAX :: u32 where "VIRTIO_MMIO_QUEUE_NUM_MAX = 0x034"
definition VIRTIO_MMIO_QUEUE_NUM :: u32 where "VIRTIO_MMIO_QUEUE_NUM = 0x038"
definition VIRTIO_MMIO_QUEUE_READY :: u32 where "VIRTIO_MMIO_QUEUE_READY = 0x044"
definition VIRTIO_MMIO_QUEUE_NOTIFY :: u32 where "VIRTIO_MMIO_QUEUE_NOTIFY = 0x050"
definition VIRTIO_MMIO_INTERRUPT_STATUS :: u32 where "VIRTIO_MMIO_INTERRUPT_STATUS = 0x060"
definition VIRTIO_MMIO_INTERRUPT_ACK :: u32 where "VIRTIO_MMIO_INTERRUPT_ACK = 0x064"
definition VIRTIO_MMIO_STATUS :: u32 where "VIRTIO_MMIO_STATUS = 0x070"
definition VIRTIO_MMIO_QUEUE_DESC_LOW :: u32 where "VIRTIO_MMIO_QUEUE_DESC_LOW = 0x080"
definition VIRTIO_MMIO_QUEUE_DESC_HIGH :: u32 where "VIRTIO_MMIO_QUEUE_DESC_HIGH = 0x084"
definition VIRTIO_MMIO_DRIVER_DESC_LOW :: u32 where "VIRTIO_MMIO_DRIVER_DESC_LOW = 0x090"
definition VIRTIO_MMIO_DRIVER_DESC_HIGH :: u32 where "VIRTIO_MMIO_DRIVER_DESC_HIGH = 0x094"
definition VIRTIO_MMIO_DEVICE_DESC_LOW :: u32 where "VIRTIO_MMIO_DEVICE_DESC_LOW = 0x0a0"
definition VIRTIO_MMIO_DEVICE_DESC_HIGH :: u32 where "VIRTIO_MMIO_DEVICE_DESC_HIGH = 0x0a4"
definition VIRTIO_CONFIG_S_ACKNOWLEDGE :: u32 where "VIRTIO_CONFIG_S_ACKNOWLEDGE = 1"
definition VIRTIO_CONFIG_S_DRIVER :: u32 where "VIRTIO_CONFIG_S_DRIVER = 2"
definition VIRTIO_CONFIG_S_DRIVER_OK :: u32 where "VIRTIO_CONFIG_S_DRIVER_OK = 4"
definition VIRTIO_CONFIG_S_FEATURES_OK :: u32 where "VIRTIO_CONFIG_S_FEATURES_OK = 8"
definition VIRTIO_BLK_F_RO :: nat where "VIRTIO_BLK_F_RO = 5"
definition VIRTIO_BLK_F_SCSI :: nat where "VIRTIO_BLK_F_SCSI = 7"
definition VIRTIO_BLK_F_CONFIG_WCE :: nat where "VIRTIO_BLK_F_CONFIG_WCE = 11"
definition VIRTIO_BLK_F_MQ :: nat where "VIRTIO_BLK_F_MQ = 12"
definition VIRTIO_F_ANY_LAYOUT :: nat where "VIRTIO_F_ANY_LAYOUT = 27"
definition VIRTIO_RING_F_INDIRECT_DESC :: nat where "VIRTIO_RING_F_INDIRECT_DESC = 28"
definition VIRTIO_RING_F_EVENT_IDX :: nat where "VIRTIO_RING_F_EVENT_IDX = 29"
definition NUM :: nat where "NUM = 8"
definition VRING_DESC_F_NEXT :: u16 where "VRING_DESC_F_NEXT = 1"
definition VRING_DESC_F_WRITE :: u16 where "VRING_DESC_F_WRITE = 2"
definition VIRTIO_BLK_T_IN :: u32 where "VIRTIO_BLK_T_IN = 0"
definition VIRTIO_BLK_T_OUT :: u32 where "VIRTIO_BLK_T_OUT = 1"

subsection \<open>State\<close>

text \<open>What a descriptor's address refers to: a request header, the data of a buffer, a status byte.\<close>

datatype vaddr = VNull | VOps nat | VData nat | VStatus nat

record virtq_desc =
  vd_addr :: vaddr
  vd_len :: u32
  vd_flags :: u16
  vd_next :: u16

record virtio_blk_req =
  vr_type :: u32
  vr_reserved :: u32
  vr_sector :: u64

record virtst = lifest +
  vd_desc_page :: u64
  vd_avail_page :: u64
  vd_used_page :: u64
  vd_desc :: "virtq_desc list"
  avail_idx :: u16
  avail_ring :: "u16 list"
  dev_used_idx :: u16
  dev_used_ring :: "u32 list"
  vd_free :: "bool list"
  vd_used_idx :: u16
  vi_b :: "nat option list"
  vi_status :: "u8 list"
  vd_ops :: "virtio_blk_req list"
  vio_in :: "nat \<Rightarrow> u32 \<Rightarrow> u32"
  vio_reads :: nat
  vio_out :: "(u32 \<times> u32) list"

definition R_read :: "u32 \<Rightarrow> ('z virtst_scheme, u32) kmon" where
  "R_read r =
     bnd (gets (\<lambda>s. vio_in s (vio_reads s) r)) (\<lambda>v.
     thn (modify (\<lambda>s. s\<lparr>vio_reads := vio_reads s + 1\<rparr>)) (ret v))"

definition R_write :: "u32 \<Rightarrow> u32 \<Rightarrow> ('z virtst_scheme, unit) kmon" where
  "R_write r v = modify (\<lambda>s. s\<lparr>vio_out := vio_out s @ [(r, v)]\<rparr>)"

definition desc_upd :: "nat \<Rightarrow> (virtq_desc \<Rightarrow> virtq_desc) \<Rightarrow> ('z virtst_scheme, unit) kmon" where
  "desc_upd i f = modify (\<lambda>s. s\<lparr>vd_desc := (vd_desc s)[i := f (vd_desc s ! i)]\<rparr>)"

definition zero_desc :: virtq_desc where
  "zero_desc = \<lparr>vd_addr = VNull, vd_len = 0, vd_flags = 0, vd_next = 0\<rparr>"

subsection \<open>Initialisation\<close>

definition clear_feature :: "nat \<Rightarrow> u64 \<Rightarrow> u64" where
  "clear_feature k features = features AND NOT (push_bit k 1)"

definition driver_features :: "u32 \<Rightarrow> u64" where
  "driver_features f =
     clear_feature VIRTIO_RING_F_INDIRECT_DESC (clear_feature VIRTIO_RING_F_EVENT_IDX
     (clear_feature VIRTIO_F_ANY_LAYOUT (clear_feature VIRTIO_BLK_F_MQ
     (clear_feature VIRTIO_BLK_F_CONFIG_WCE (clear_feature VIRTIO_BLK_F_SCSI
     (clear_feature VIRTIO_BLK_F_RO (ucast f)))))))"

definition virtio_probe :: "('z virtst_scheme, bool) kmon" where
  "virtio_probe =
     bnd (R_read VIRTIO_MMIO_MAGIC_VALUE) (\<lambda>a. if a \<noteq> 0x74726976 then ret False else
     bnd (R_read VIRTIO_MMIO_VERSION) (\<lambda>b. if b \<noteq> 2 then ret False else
     bnd (R_read VIRTIO_MMIO_DEVICE_ID) (\<lambda>c. if c \<noteq> 2 then ret False else
     bnd (R_read VIRTIO_MMIO_VENDOR_ID) (\<lambda>d. ret (d = 0x554d4551)))))"

definition zero_page :: "u64 \<Rightarrow> ('z kmst_scheme, unit) kmon" where
  "zero_page a = modify (\<lambda>s. s\<lparr>mem := memset (mem s) a 0 (unat PGSIZE)\<rparr>)"

definition virtio_queue_init :: "u32 \<Rightarrow> ('z virtst_scheme, unit) kmon" where
  "virtio_queue_init status =
     bnd kalloc (\<lambda>d.
     bnd kalloc (\<lambda>a.
     bnd kalloc (\<lambda>u.
     thn (modify (\<lambda>s. s\<lparr>vd_desc_page := d, vd_avail_page := a, vd_used_page := u\<rparr>)) (
     if d = 0 \<or> a = 0 \<or> u = 0 then panic ''virtio disk kalloc'' else
     thn (zero_page d) (
     thn (zero_page a) (
     thn (zero_page u) (
     thn (modify (\<lambda>s. s\<lparr>vd_desc := replicate NUM zero_desc, avail_idx := 0, avail_ring := replicate NUM 0,
                         dev_used_idx := 0, dev_used_ring := replicate NUM 0\<rparr>)) (
     thn (R_write VIRTIO_MMIO_QUEUE_NUM (of_nat NUM)) (
     thn (R_write VIRTIO_MMIO_QUEUE_DESC_LOW (ucast d)) (
     thn (R_write VIRTIO_MMIO_QUEUE_DESC_HIGH (ucast (drop_bit 32 d))) (
     thn (R_write VIRTIO_MMIO_DRIVER_DESC_LOW (ucast a)) (
     thn (R_write VIRTIO_MMIO_DRIVER_DESC_HIGH (ucast (drop_bit 32 a))) (
     thn (R_write VIRTIO_MMIO_DEVICE_DESC_LOW (ucast u)) (
     thn (R_write VIRTIO_MMIO_DEVICE_DESC_HIGH (ucast (drop_bit 32 u))) (
     thn (R_write VIRTIO_MMIO_QUEUE_READY 1) (
     thn (for_each [0..<NUM] (\<lambda>i. modify (\<lambda>s. s\<lparr>vd_free := (vd_free s)[i := True]\<rparr>)))
         (R_write VIRTIO_MMIO_STATUS (status OR VIRTIO_CONFIG_S_DRIVER_OK))))))))))))))))))"

definition virtio_disk_init :: "('z virtst_scheme, unit) kmon" where
  "virtio_disk_init =
     thn (initlock LkVdisk ''virtio_disk'') (
     bnd virtio_probe (\<lambda>found.
     if \<not> found then panic ''could not find virtio disk'' else
     thn (R_write VIRTIO_MMIO_STATUS 0) (
     thn (R_write VIRTIO_MMIO_STATUS VIRTIO_CONFIG_S_ACKNOWLEDGE) (
     thn (R_write VIRTIO_MMIO_STATUS (VIRTIO_CONFIG_S_ACKNOWLEDGE OR VIRTIO_CONFIG_S_DRIVER)) (
     bnd (R_read VIRTIO_MMIO_DEVICE_FEATURES) (\<lambda>f.
     thn (R_write VIRTIO_MMIO_DRIVER_FEATURES (ucast (driver_features f))) (
     thn (R_write VIRTIO_MMIO_STATUS (VIRTIO_CONFIG_S_ACKNOWLEDGE OR VIRTIO_CONFIG_S_DRIVER OR VIRTIO_CONFIG_S_FEATURES_OK)) (
     bnd (R_read VIRTIO_MMIO_STATUS) (\<lambda>status.
     if status AND VIRTIO_CONFIG_S_FEATURES_OK = 0 then panic ''virtio disk FEATURES_OK unset'' else
     thn (R_write VIRTIO_MMIO_QUEUE_SEL 0) (
     bnd (R_read VIRTIO_MMIO_QUEUE_READY) (\<lambda>ready.
     if ready \<noteq> 0 then panic ''virtio disk should not be ready'' else
     bnd (R_read VIRTIO_MMIO_QUEUE_NUM_MAX) (\<lambda>max.
     if max = 0 then panic ''virtio disk has no queue 0''
     else if unat max < NUM then panic ''virtio disk max queue too short''
     else virtio_queue_init status))))))))))))"

subsection \<open>Descriptors\<close>

definition alloc_desc :: "('z virtst_scheme, nat option) kmon" where
  "alloc_desc =
     bnd (gets (\<lambda>s. List.find (\<lambda>i. vd_free s ! i) [0..<NUM])) (\<lambda>slot.
     case slot of
       None \<Rightarrow> ret None
     | Some i \<Rightarrow> thn (modify (\<lambda>s. s\<lparr>vd_free := (vd_free s)[i := False]\<rparr>)) (ret (Some i)))"

definition free_desc :: "nat \<Rightarrow> ('z virtst_scheme, unit) kmon" where
  "free_desc i =
     (if i \<ge> NUM then panic ''free_desc 1'' else
      bnd (gets (\<lambda>s. vd_free s ! i)) (\<lambda>fr.
      if fr then panic ''free_desc 2'' else
      thn (desc_upd i (\<lambda>_. zero_desc)) (
      thn (modify (\<lambda>s. s\<lparr>vd_free := (vd_free s)[i := True]\<rparr>))
          (wakeup ChVdiskFree))))"

text \<open>A chain has at most \<open>NUM\<close> descriptors: freeing one twice panics.\<close>

fun free_chain_loop :: "nat \<Rightarrow> nat \<Rightarrow> ('z virtst_scheme, unit) kmon" where
  "free_chain_loop 0 i = fault"
| "free_chain_loop (Suc n) i =
     bnd (gets (\<lambda>s. vd_desc s ! i)) (\<lambda>d.
     thn (free_desc i) (
     if vd_flags d AND VRING_DESC_F_NEXT \<noteq> 0 then free_chain_loop n (unat (vd_next d)) else ret ()))"

definition free_chain :: "nat \<Rightarrow> ('z virtst_scheme, unit) kmon" where
  "free_chain i = free_chain_loop (Suc NUM) i"

definition alloc3_desc :: "('z virtst_scheme, (nat \<times> nat \<times> nat) option) kmon" where
  "alloc3_desc =
     bnd alloc_desc (\<lambda>a. case a of None \<Rightarrow> ret None | Some i \<Rightarrow>
     bnd alloc_desc (\<lambda>b. case b of None \<Rightarrow> thn (free_desc i) (ret None) | Some j \<Rightarrow>
     bnd alloc_desc (\<lambda>c. case c of None \<Rightarrow> thn (free_desc i) (thn (free_desc j) (ret None)) | Some k \<Rightarrow>
     ret (Some (i, j, k)))))"

subsection \<open>Requests\<close>

fun alloc3_wait :: "nat \<Rightarrow> ('z virtst_scheme, nat \<times> nat \<times> nat) kmon" where
  "alloc3_wait n =
     bnd alloc3_desc (\<lambda>r. case r of
       Some idx \<Rightarrow> ret idx
     | None \<Rightarrow> (case n of 0 \<Rightarrow> fault | Suc m \<Rightarrow> thn (sleep ChVdiskFree LkVdisk) (alloc3_wait m)))"

declare alloc3_wait.simps [simp del]

fun disk_wait :: "nat \<Rightarrow> nat \<Rightarrow> ('z virtst_scheme, unit) kmon" where
  "disk_wait b n =
     bnd (gets (\<lambda>s. b_disk (bufs s ! b))) (\<lambda>busy.
     if \<not> busy then ret () else
     (case n of 0 \<Rightarrow> fault | Suc m \<Rightarrow> thn (sleep (ChVdiskBuf b) LkVdisk) (disk_wait b m)))"

declare disk_wait.simps [simp del]

definition format_request :: "nat \<Rightarrow> bool \<Rightarrow> u64 \<Rightarrow> nat \<times> nat \<times> nat \<Rightarrow> ('z virtst_scheme, unit) kmon" where
  "format_request b write sector = (\<lambda>(i, j, k).
     thn (modify (\<lambda>s. s\<lparr>vd_ops := (vd_ops s)[i := \<lparr>vr_type = (if write then VIRTIO_BLK_T_OUT else VIRTIO_BLK_T_IN),
            vr_reserved = 0, vr_sector = sector\<rparr>]\<rparr>)) (
     thn (desc_upd i (\<lambda>_. \<lparr>vd_addr = VOps i, vd_len = 16, vd_flags = VRING_DESC_F_NEXT, vd_next = of_nat j\<rparr>)) (
     thn (desc_upd j (\<lambda>_. \<lparr>vd_addr = VData b, vd_len = of_nat BSIZE,
            vd_flags = (if write then 0 else VRING_DESC_F_WRITE) OR VRING_DESC_F_NEXT, vd_next = of_nat k\<rparr>)) (
     thn (modify (\<lambda>s. s\<lparr>vi_status := (vi_status s)[i := 0xff]\<rparr>))
         (desc_upd k (\<lambda>_. \<lparr>vd_addr = VStatus i, vd_len = 1, vd_flags = VRING_DESC_F_WRITE, vd_next = 0\<rparr>))))))"

definition virtio_disk_rw :: "nat \<Rightarrow> bool \<Rightarrow> ('z virtst_scheme, unit) kmon" where
  "virtio_disk_rw b write =
     bnd (gets (\<lambda>s. b_blockno (bufs s ! b))) (\<lambda>bno.
     bnd (ret (ucast (bno * of_nat (BSIZE div 512)))) (\<lambda>sector.
     thn (acquire LkVdisk) (
     bnd (gets patience) (\<lambda>n.
     bnd (alloc3_wait n) (\<lambda>(i, j, k).
     thn (format_request b write sector (i, j, k)) (
     thn (modify (buf_upd b (\<lambda>x. x\<lparr>b_disk := True\<rparr>))) (
     thn (modify (\<lambda>s. s\<lparr>vi_b := (vi_b s)[i := Some b]\<rparr>)) (
     thn (modify (\<lambda>s. s\<lparr>avail_ring := (avail_ring s)[unat (avail_idx s) mod NUM := of_nat i]\<rparr>)) (
     thn (modify (\<lambda>s. s\<lparr>avail_idx := avail_idx s + 1\<rparr>)) (
     thn (R_write VIRTIO_MMIO_QUEUE_NOTIFY 0) (
     thn (disk_wait b n) (
     thn (modify (\<lambda>s. s\<lparr>vi_b := (vi_b s)[i := None]\<rparr>)) (
     thn (free_chain i)
         (release LkVdisk))))))))))))))"

text \<open>The interrupt handler takes the completions the device has put on the used ring.\<close>

fun intr_loop :: "nat \<Rightarrow> ('z virtst_scheme, unit) kmon" where
  "intr_loop 0 = ret ()"
| "intr_loop (Suc n) =
     bnd (gets (\<lambda>s. vd_used_idx s \<noteq> dev_used_idx s)) (\<lambda>more.
     if \<not> more then ret () else
     bnd (gets (\<lambda>s. unat (dev_used_ring s ! (unat (vd_used_idx s) mod NUM)))) (\<lambda>i.
     if i \<ge> NUM then fault else
     bnd (gets (\<lambda>s. vi_status s ! i)) (\<lambda>st.
     if st \<noteq> 0 then panic ''virtio_disk_intr status'' else
     bnd (gets (\<lambda>s. vi_b s ! i)) (\<lambda>bo.
     case bo of None \<Rightarrow> fault | Some b \<Rightarrow>
     thn (modify (buf_upd b (\<lambda>x. x\<lparr>b_disk := False\<rparr>))) (
     thn (wakeup (ChVdiskBuf b)) (
     thn (modify (\<lambda>s. s\<lparr>vd_used_idx := vd_used_idx s + 1\<rparr>))
         (intr_loop n)))))))"

definition virtio_disk_intr :: "('z virtst_scheme, unit) kmon" where
  "virtio_disk_intr =
     thn (acquire LkVdisk) (
     bnd (R_read VIRTIO_MMIO_INTERRUPT_STATUS) (\<lambda>st.
     thn (R_write VIRTIO_MMIO_INTERRUPT_ACK (st AND 3)) (
     bnd (gets (\<lambda>s. unat (dev_used_idx s - vd_used_idx s))) (\<lambda>n.
     thn (intr_loop n)
         (release LkVdisk)))))"

end
