(* ===== verification/Syscall.thy ===== *)
theory Syscall
  imports Virtio
begin

text \<open>
  \<open>kernel/sysproc.c\<close> and the dispatcher of \<open>kernel/syscall.c\<close>: the system calls on processes and the
  table that maps the number in register \<open>a7\<close> to a handler.
\<close>

subsection \<open>System calls on processes\<close>

definition sys_exit :: "('z lifest_scheme, u64) kmon" where
  "sys_exit = bnd (argint 0) (\<lambda>n. thn (exit n) (ret 0))"

definition sys_getpid :: "('z procst_scheme, u64) kmon" where
  "sys_getpid = bnd curproc (\<lambda>p. bnd (proc_get p p_pid) (\<lambda>pid. ret (of_int pid)))"

definition sys_fork :: "('z lifest_scheme, u64) kmon" where
  "sys_fork = bnd fork (\<lambda>r. ret (of_int r))"

definition sys_wait :: "('z procst_scheme, u64) kmon" where
  "sys_wait = bnd (argaddr 0) (\<lambda>p. bnd (wait p) (\<lambda>r. ret (of_int r)))"

definition sys_sbrk :: "('z procst_scheme, u64) kmon" where
  "sys_sbrk =
     bnd (argint 0) (\<lambda>n.
     bnd curproc (\<lambda>p.
     bnd (proc_get p p_sz) (\<lambda>addr.
     bnd (growproc n) (\<lambda>r.
     if r < 0 then ret (-1) else ret addr))))"

text \<open>The wait for the clock: \<open>False\<close> when the process was killed (the lock is then released).\<close>

fun sleep_loop :: "u32 \<Rightarrow> u32 \<Rightarrow> nat \<Rightarrow> ('z procst_scheme, bool) kmon" where
  "sleep_loop ticks0 n k =
     bnd (gets (\<lambda>s. ticks s - ticks0 < n)) (\<lambda>early.
     if \<not> early then ret True else
     bnd curproc (\<lambda>p.
     bnd (killed p) (\<lambda>kd.
     if kd \<noteq> 0 then thn (release LkTicks) (ret False) else
     (case k of 0 \<Rightarrow> fault | Suc k' \<Rightarrow> thn (sleep ChTicks LkTicks) (sleep_loop ticks0 n k')))))"

declare sleep_loop.simps [simp del]

definition sys_sleep :: "('z procst_scheme, u64) kmon" where
  "sys_sleep =
     bnd (argint 0) (\<lambda>n.
     thn (acquire LkTicks) (
     bnd (gets ticks) (\<lambda>ticks0.
     bnd (gets patience) (\<lambda>k.
     bnd (sleep_loop ticks0 (of_int (if n < 0 then 0 else n)) k) (\<lambda>ok.
     if \<not> ok then ret (-1) else
     thn (release LkTicks)
         (ret 0))))))"

definition sys_kill :: "('z procst_scheme, u64) kmon" where
  "sys_kill = bnd (argint 0) (\<lambda>pid. bnd (kill pid) (\<lambda>r. ret (of_int r)))"

definition sys_uptime :: "('z procst_scheme, u64) kmon" where
  "sys_uptime =
     thn (acquire LkTicks) (
     bnd (gets ticks) (\<lambda>xticks.
     thn (release LkTicks)
         (ret (ucast xticks))))"

subsection \<open>The dispatcher\<close>

definition SYS_fork :: nat where "SYS_fork = 1"
definition SYS_exit :: nat where "SYS_exit = 2"
definition SYS_wait :: nat where "SYS_wait = 3"
definition SYS_pipe :: nat where "SYS_pipe = 4"
definition SYS_read :: nat where "SYS_read = 5"
definition SYS_kill :: nat where "SYS_kill = 6"
definition SYS_exec :: nat where "SYS_exec = 7"
definition SYS_fstat :: nat where "SYS_fstat = 8"
definition SYS_chdir :: nat where "SYS_chdir = 9"
definition SYS_dup :: nat where "SYS_dup = 10"
definition SYS_getpid :: nat where "SYS_getpid = 11"
definition SYS_sbrk :: nat where "SYS_sbrk = 12"
definition SYS_sleep :: nat where "SYS_sleep = 13"
definition SYS_uptime :: nat where "SYS_uptime = 14"
definition SYS_open :: nat where "SYS_open = 15"
definition SYS_write :: nat where "SYS_write = 16"
definition SYS_mknod :: nat where "SYS_mknod = 17"
definition SYS_unlink :: nat where "SYS_unlink = 18"
definition SYS_link :: nat where "SYS_link = 19"
definition SYS_mkdir :: nat where "SYS_mkdir = 20"
definition SYS_close :: nat where "SYS_close = 21"

definition syscalls :: "(nat \<times> ('z lifest_scheme, u64) kmon) list" where
  "syscalls = [
     (SYS_fork, sys_fork), (SYS_exit, sys_exit), (SYS_wait, sys_wait), (SYS_pipe, sys_pipe), (SYS_read, sys_read),
     (SYS_kill, sys_kill), (SYS_exec, sys_exec), (SYS_fstat, sys_fstat), (SYS_chdir, sys_chdir), (SYS_dup, sys_dup),
     (SYS_getpid, sys_getpid), (SYS_sbrk, sys_sbrk), (SYS_sleep, sys_sleep), (SYS_uptime, sys_uptime),
     (SYS_open, sys_open), (SYS_write, sys_write), (SYS_mknod, sys_mknod), (SYS_unlink, sys_unlink),
     (SYS_link, sys_link), (SYS_mkdir, sys_mkdir), (SYS_close, sys_close)]"

definition syscall :: "('z lifest_scheme, unit) kmon" where
  "syscall =
     bnd curproc (\<lambda>p.
     bnd (tf_get p TF_a7) (\<lambda>a7.
     bnd (ret (sint (ucast a7 :: u32))) (\<lambda>num.
     case (if num > 0 then map_of syscalls (nat num) else None) of
       Some f \<Rightarrow> bnd f (\<lambda>r. tf_set p TF_a0 r)
     | None \<Rightarrow>
         bnd (proc_get p id) (\<lambda>q.
         thn (printf (''%d %s: unknown sys call %d'' @ [CHR 0x0A])
                [ANum (of_int (p_pid q)), AStr (Some (p_name q)), ANum (of_int num)])
             (tf_set p TF_a0 (-1))))))"

end
