(* ===== verification/Trap.thy ===== *)
theory Trap
  imports Syscall
begin

text \<open>
  \<open>kernel/trap.c\<close>, \<open>kernel/plic.c\<close>, \<open>forkret\<close> of \<open>kernel/proc.c\<close> and \<open>kernel/main.c\<close>: traps from user and
  kernel mode, the interrupt controller, and the boot sequence. The supervisor registers are
  fields of the state, per hart; the interrupt-enable bit of \<open>sstatus\<close> is the \<open>sie\<close> flag the locks
  use. The assembly entry points are addresses: entering user space is returning the page-table
  register value that \<open>userret\<close> gets.
\<close>

subsection \<open>Supervisor registers\<close>

definition SSTATUS_SPP :: u64 where "SSTATUS_SPP = push_bit 8 1"
definition SSTATUS_SPIE :: u64 where "SSTATUS_SPIE = push_bit 5 1"
definition SSTATUS_SIE :: u64 where "SSTATUS_SIE = push_bit 1 1"

record trapst = virtst +
  sstatus :: "nat \<Rightarrow> u64"
  stvec :: "nat \<Rightarrow> u64"
  sepc :: "nat \<Rightarrow> u64"
  scause :: "nat \<Rightarrow> u64"
  stval :: "nat \<Rightarrow> u64"
  stimecmp :: "nat \<Rightarrow> u64"
  mtime :: u64
  k_kernelvec :: u64
  k_uservec :: u64
  k_userret :: u64
  k_usertrap :: u64
  plic_in :: "nat \<Rightarrow> u32"
  plic_reads :: nat
  plic_out :: "(u64 \<times> u32) list"
  started :: bool

definition sstatus_of :: "'z trapst_scheme \<Rightarrow> u64" where
  "sstatus_of s = (sstatus s (hart s) AND NOT SSTATUS_SIE) OR (if sie s (hart s) then SSTATUS_SIE else 0)"

definition r_sstatus :: "('z trapst_scheme, u64) kmon" where
  "r_sstatus = gets sstatus_of"

definition w_sstatus :: "u64 \<Rightarrow> ('z trapst_scheme, unit) kmon" where
  "w_sstatus x = modify (\<lambda>s. s\<lparr>sie := (sie s)(hart s := (x AND SSTATUS_SIE \<noteq> 0)), sstatus := (sstatus s)(hart s := x)\<rparr>)"

definition w_stvec :: "u64 \<Rightarrow> ('z trapst_scheme, unit) kmon" where
  "w_stvec x = modify (\<lambda>s. s\<lparr>stvec := (stvec s)(hart s := x)\<rparr>)"

definition w_sepc :: "u64 \<Rightarrow> ('z trapst_scheme, unit) kmon" where
  "w_sepc x = modify (\<lambda>s. s\<lparr>sepc := (sepc s)(hart s := x)\<rparr>)"

definition r_sepc :: "('z trapst_scheme, u64) kmon" where "r_sepc = gets (\<lambda>s. sepc s (hart s))"
definition r_scause :: "('z trapst_scheme, u64) kmon" where "r_scause = gets (\<lambda>s. scause s (hart s))"
definition r_stval :: "('z trapst_scheme, u64) kmon" where "r_stval = gets (\<lambda>s. stval s (hart s))"
definition r_satp :: "('z vmst_scheme, u64) kmon" where "r_satp = gets (\<lambda>s. satp s (hart s))"
definition r_tp :: "('z mach_scheme, u64) kmon" where "r_tp = gets (\<lambda>s. of_nat (hart s))"
definition r_time :: "('z trapst_scheme, u64) kmon" where "r_time = gets mtime"

definition w_stimecmp :: "u64 \<Rightarrow> ('z trapst_scheme, unit) kmon" where
  "w_stimecmp x = modify (\<lambda>s. s\<lparr>stimecmp := (stimecmp s)(hart s := x)\<rparr>)"

subsection \<open>The interrupt controller\<close>

definition PLIC_SENABLE :: "nat \<Rightarrow> u64" where "PLIC_SENABLE h = PLIC + 0x2080 + of_nat h * 0x100"
definition PLIC_SPRIORITY :: "nat \<Rightarrow> u64" where "PLIC_SPRIORITY h = PLIC + 0x201000 + of_nat h * 0x2000"
definition PLIC_SCLAIM :: "nat \<Rightarrow> u64" where "PLIC_SCLAIM h = PLIC + 0x201004 + of_nat h * 0x2000"

definition plic_write :: "u64 \<Rightarrow> u32 \<Rightarrow> ('z trapst_scheme, unit) kmon" where
  "plic_write a v = modify (\<lambda>s. s\<lparr>plic_out := plic_out s @ [(a, v)]\<rparr>)"

definition plicinit :: "('z trapst_scheme, unit) kmon" where
  "plicinit =
     thn (plic_write (PLIC + of_int (UART0_IRQ * 4)) 1)
         (plic_write (PLIC + of_int (VIRTIO0_IRQ * 4)) 1)"

definition plicinithart :: "('z trapst_scheme, unit) kmon" where
  "plicinithart =
     bnd (gets cpuid) (\<lambda>h.
     thn (plic_write (PLIC_SENABLE h) (push_bit (nat UART0_IRQ) 1 OR push_bit (nat VIRTIO0_IRQ) 1))
         (plic_write (PLIC_SPRIORITY h) 0))"

definition plic_claim :: "('z trapst_scheme, int) kmon" where
  "plic_claim =
     bnd (gets cpuid) (\<lambda>h.
     bnd (gets (\<lambda>s. plic_in s (plic_reads s))) (\<lambda>irq.
     thn (modify (\<lambda>s. s\<lparr>plic_reads := plic_reads s + 1\<rparr>)) (ret (sint irq))))"

definition plic_complete :: "int \<Rightarrow> ('z trapst_scheme, unit) kmon" where
  "plic_complete irq = bnd (gets cpuid) (\<lambda>h. plic_write (PLIC_SCLAIM h) (of_int irq))"

subsection \<open>Device interrupts\<close>

definition clockintr :: "('z trapst_scheme, unit) kmon" where
  "clockintr =
     bnd (gets cpuid) (\<lambda>h.
     thn (whenM (h = 0) (
            thn (acquire LkTicks) (
            thn (modify (\<lambda>s. s\<lparr>ticks := ticks s + 1\<rparr>)) (
            thn (wakeup ChTicks)
                (release LkTicks))))) (
     bnd r_time (\<lambda>t. w_stimecmp (t + 1000000))))"

definition devintr :: "('z trapst_scheme, int) kmon" where
  "devintr =
     bnd r_scause (\<lambda>sc.
     if sc = 0x8000000000000009 then
       bnd plic_claim (\<lambda>irq.
       thn (if irq = UART0_IRQ then uartintr
            else if irq = VIRTIO0_IRQ then virtio_disk_intr
            else whenM (irq \<noteq> 0) (printf (''unexpected interrupt irq=%d'' @ [CHR 0x0A]) [ANum (of_int irq)])) (
       thn (whenM (irq \<noteq> 0) (plic_complete irq))
           (ret 1)))
     else if sc = 0x8000000000000005 then thn clockintr (ret 2)
     else ret 0)"

subsection \<open>Traps\<close>

definition trapinit :: "('z trapst_scheme, unit) kmon" where
  "trapinit = initlock LkTicks ''time''"

definition trapinithart :: "('z trapst_scheme, unit) kmon" where
  "trapinithart = bnd (gets k_kernelvec) w_stvec"

definition usertrapret :: "('z trapst_scheme, u64) kmon" where
  "usertrapret =
     bnd curproc (\<lambda>p.
     thn intr_off (
     bnd (gets (\<lambda>s. TRAMPOLINE + (k_uservec s - k_trampoline s))) (\<lambda>uservec.
     thn (w_stvec uservec) (
     bnd r_satp (\<lambda>satp.
     thn (tf_set p TF_kernel_satp satp) (
     bnd (proc_get p p_kstack) (\<lambda>kstack.
     thn (tf_set p TF_kernel_sp (kstack + PGSIZE)) (
     bnd (gets k_usertrap) (\<lambda>ut.
     thn (tf_set p TF_kernel_trap ut) (
     bnd r_tp (\<lambda>tp.
     thn (tf_set p TF_kernel_hartid tp) (
     bnd r_sstatus (\<lambda>x.
     thn (w_sstatus ((x AND NOT SSTATUS_SPP) OR SSTATUS_SPIE)) (
     bnd (tf_get p TF_epc) (\<lambda>epc.
     thn (w_sepc epc) (
     bnd (proc_get p p_pagetable) (\<lambda>pt.
     ret (MAKE_SATP pt))))))))))))))))))"

definition usertrap :: "('z trapst_scheme, u64) kmon" where
  "usertrap =
     bnd r_sstatus (\<lambda>st.
     if st AND SSTATUS_SPP \<noteq> 0 then panic ''usertrap: not from user mode'' else
     bnd (gets k_kernelvec) (\<lambda>kv.
     thn (w_stvec kv) (
     bnd curproc (\<lambda>p.
     bnd r_sepc (\<lambda>pc.
     thn (tf_set p TF_epc pc) (
     bnd r_scause (\<lambda>sc.
     bnd (if sc = 8 then
            bnd (killed p) (\<lambda>kd.
            thn (whenM (kd \<noteq> 0) (exit (-1))) (
            bnd (tf_get p TF_epc) (\<lambda>epc.
            thn (tf_set p TF_epc (epc + 4)) (
            thn intr_on (
            thn syscall
                (ret 0))))))
          else
            bnd devintr (\<lambda>d.
            if d \<noteq> 0 then ret d else
            bnd r_stval (\<lambda>stv.
            bnd r_scause (\<lambda>sc.
            bnd r_sepc (\<lambda>pc.
            bnd (proc_get p p_pid) (\<lambda>pid.
            thn (printf (''usertrap(): unexpected scause 0x%lx pid=%d'' @ [CHR 0x0A]) [ANum sc, ANum (of_int pid)]) (
            thn (printf (''            sepc=0x%lx stval=0x%lx'' @ [CHR 0x0A]) [ANum pc, ANum stv]) (
            thn (setkilled p)
                (ret 0))))))))) (\<lambda>which_dev.
     bnd (killed p) (\<lambda>kd.
     thn (whenM (kd \<noteq> 0) (exit (-1))) (
     thn (whenM (which_dev = 2) yield)
         usertrapret))))))))))"

definition kerneltrap :: "('z trapst_scheme, unit) kmon" where
  "kerneltrap =
     bnd r_sepc (\<lambda>pc.
     bnd r_sstatus (\<lambda>st.
     bnd r_scause (\<lambda>sc.
     if st AND SSTATUS_SPP = 0 then panic ''kerneltrap: not from supervisor mode'' else
     bnd intr_get (\<lambda>on.
     if on then panic ''kerneltrap: interrupts enabled'' else
     bnd devintr (\<lambda>which_dev.
     if which_dev = 0 then
       bnd r_sepc (\<lambda>pc'.
       bnd r_stval (\<lambda>stv.
       thn (printf (''scause=0x%lx sepc=0x%lx stval=0x%lx'' @ [CHR 0x0A]) [ANum sc, ANum pc', ANum stv])
           (panic ''kerneltrap'')))
     else
       bnd (if which_dev = 2 then myproc else ret None) (\<lambda>p.
       thn (whenM (p \<noteq> None) yield) (
       thn (w_sepc pc)
           (w_sstatus st))))))))"

definition forkret :: "('z trapst_scheme, u64) kmon" where
  "forkret =
     bnd curproc (\<lambda>p.
     thn (release (LkProc p)) (
     bnd (gets fork_first) (\<lambda>first.
     thn (whenM first (
            thn (fsinit ROOTDEV)
                (modify (\<lambda>s. s\<lparr>fork_first := False\<rparr>))))
         usertrapret)))"

subsection \<open>Boot\<close>

text \<open>
  \<open>main\<close> up to the call of the scheduler, which runs \<open>n\<close> rounds; a hart other than the first spins
  until \<open>started\<close> is set.
\<close>

definition main :: "nat \<Rightarrow> ('z trapst_scheme, unit) kmon" where
  "main n =
     bnd (gets cpuid) (\<lambda>h.
     thn (if h = 0 then
            thn consoleinit (
            thn printfinit (
            thn (printf [CHR 0x0A] []) (
            thn (printf (''xv6 kernel is booting'' @ [CHR 0x0A]) []) (
            thn (printf [CHR 0x0A] []) (
            thn kinit (
            thn kvminit (
            thn kvminithart (
            thn procinit (
            thn trapinit (
            thn trapinithart (
            thn plicinit (
            thn plicinithart (
            thn binit (
            thn iinit (
            thn fileinit (
            thn virtio_disk_init (
            thn userinit
                (modify (\<lambda>s. s\<lparr>started := True\<rparr>)))))))))))))))))))
          else
            bnd (gets started) (\<lambda>up.
            if \<not> up then spin else
            thn (printf (''hart %d starting'' @ [CHR 0x0A]) [ANum (of_nat h)]) (
            thn kvminithart (
            thn trapinithart
                plicinithart))))
         (scheduler n))"

end
