(* ===== verification/Sleep_Wakeup.thy ===== *)
theory Sleep_Wakeup
  imports Proc_Core
begin

text \<open>
  \<open>sleep\<close> and \<open>wakeup\<close> of \<open>kernel/proc.c\<close> on several harts. The functions are written as the
  sequences of their atomic actions, \<open>sleep_code\<close>, \<open>wakeup_code\<close> and \<open>yield_code\<close>; running such a sequence
  without interruption is the function of \<open>Proc_Core\<close> (\<open>sleep_is_code\<close>, \<open>wakeup_is_code\<close>,
  \<open>yield_is_code\<close>). The step relation interleaves the actions of all processes in any order: each may
  wait for a condition under a lock, set the condition under that lock and call \<open>wakeup\<close>, call
  \<open>wakeup\<close> on other channels, kill, and be preempted wherever it holds no lock; schedulers pick
  processes at any time. Taking a free spin lock is one action, by the mutual exclusion of
  \<open>Spinlock\<close>. The property is that no wakeup is lost.
\<close>

subsection \<open>The actions\<close>

datatype kinstr =
    KAcquire lockid | KRelease lockid
  | KSetChan chan | KSetState procstate | KSched | KResume
  | KWake nat chan | KKill nat
  | KWaitWhile | KSetCond bool

definition sleep_code :: "chan \<Rightarrow> lockid \<Rightarrow> nat \<Rightarrow> kinstr list" where
  "sleep_code ch lk p =
     [KAcquire (LkProc p),
      KRelease lk,
      KSetChan ch,
      KSetState SLEEPING,
      KSched,
      KSetChan NoChan,
      KRelease (LkProc p),
      KAcquire lk]"

definition wake_slot :: "nat option \<Rightarrow> chan \<Rightarrow> nat \<Rightarrow> kinstr list" where
  "wake_slot me ch i =
     (if me \<noteq> Some i then [KAcquire (LkProc i), KWake i ch, KRelease (LkProc i)] else [])"

definition wakeup_code :: "nat \<Rightarrow> chan \<Rightarrow> kinstr list" where
  "wakeup_code p ch = concat (map (wake_slot (Some p) ch) [0..<NPROC])"

definition yield_code :: "nat \<Rightarrow> kinstr list" where
  "yield_code p = [KAcquire (LkProc p), KSetState RUNNABLE, KSched, KRelease (LkProc p)]"

text \<open>
  What an action does in the kernel of \<open>Proc_Core\<close>, where \<open>p\<close> is the process that runs. The last
  three belong to the users of \<open>sleep\<close> or to the scheduler.
\<close>

fun kexec :: "nat \<Rightarrow> kinstr \<Rightarrow> ('z procst_scheme, unit) kmon" where
  "kexec p (KAcquire l) = acquire l"
| "kexec p (KRelease l) = release l"
| "kexec p (KSetChan c) = proc_upd p (\<lambda>q. q\<lparr>p_chan := c\<rparr>)"
| "kexec p (KSetState x) = proc_upd p (\<lambda>q. q\<lparr>p_state := x\<rparr>)"
| "kexec p KSched = sched"
| "kexec p (KWake i c) =
     bnd (gets (\<lambda>s. procs s ! i)) (\<lambda>q.
     whenM (p_state q = SLEEPING \<and> p_chan q = c) (proc_upd i (\<lambda>q. q\<lparr>p_state := RUNNABLE\<rparr>)))"
| "kexec p (KKill i) =
     bnd (gets (\<lambda>s. procs s ! i)) (\<lambda>q.
     thn (proc_upd i (\<lambda>q. q\<lparr>p_killed := 1\<rparr>))
         (whenM (p_state q = SLEEPING) (proc_upd i (\<lambda>q. q\<lparr>p_state := RUNNABLE\<rparr>))))"
| "kexec p KResume = ret ()"
| "kexec p KWaitWhile = ret ()"
| "kexec p (KSetCond b) = ret ()"

lemma obind_Done: "obind r Done = r"
  by (induction r) auto

lemma thn_ret: "thn m (ret ()) = m"
  by (rule ext) (simp add: thn_def bnd_def ret_def [abs_def] obind_Done)

lemma bnd_assoc_fun: "bnd (bnd m f) g = bnd m (\<lambda>a. bnd (f a) g)"
  by (rule ext) (rule bnd_assoc)

lemma sleep_is_code: "sleep ch lk = bnd curproc (\<lambda>p. for_each (sleep_code ch lk p) (kexec p))"
  by (simp add: sleep_def sleep_code_def thn_ret)

lemma yield_is_code: "yield = bnd curproc (\<lambda>p. for_each (yield_code p) (kexec p))"
  by (simp add: yield_def yield_code_def thn_ret)

lemma wakeup_is_code:
  "(wakeup ch :: ('z procst_scheme, unit) kmon) = for_each [0..<NPROC] (\<lambda>i. bnd myproc (\<lambda>me. for_each (wake_slot me ch i) (kexec p)))"
proof -
  have "whenM (me \<noteq> Some i) (thn (acquire (LkProc i)) (bnd (gets (\<lambda>s. procs s ! i)) (\<lambda>p.
      thn (whenM (p_state p = SLEEPING \<and> p_chan p = ch) (proc_upd i (\<lambda>q. q\<lparr>p_state := RUNNABLE\<rparr>)))
        (release (LkProc i))))) = (for_each (wake_slot me ch i) (kexec p) :: ('z procst_scheme, unit) kmon)" for me i
    by (simp add: wake_slot_def thn_ret whenM_def) (simp add: thn_def bnd_assoc_fun)
  then show ?thesis by (simp add: wakeup_def)
qed

subsection \<open>Interleaving\<close>

text \<open>
  A process lock is held by the process or by the scheduler of a hart. \<open>sw_code p\<close> is what the
  process \<open>p\<close> still has to do in the kernel. The condition \<open>sw_cond\<close> stands for the data that the lock
  protects.
\<close>

datatype owner = Thread nat | Scheduler

record sw =
  sw_lock :: "lockid \<Rightarrow> owner option"
  sw_state :: "nat \<Rightarrow> procstate"
  sw_chan :: "nat \<Rightarrow> chan"
  sw_cond :: bool
  sw_code :: "nat \<Rightarrow> kinstr list"

definition sw_goto :: "nat \<Rightarrow> kinstr list \<Rightarrow> sw \<Rightarrow> sw" where
  "sw_goto p c s = s\<lparr>sw_code := (sw_code s)(p := c)\<rparr>"

definition sw_own :: "lockid \<Rightarrow> owner option \<Rightarrow> sw \<Rightarrow> sw" where
  "sw_own l w s = s\<lparr>sw_lock := (sw_lock s)(l := w)\<rparr>"

definition sw_mark :: "nat \<Rightarrow> procstate \<Rightarrow> sw \<Rightarrow> sw" where
  "sw_mark p x s = s\<lparr>sw_state := (sw_state s)(p := x)\<rparr>"

text \<open>
  One action of process \<open>p\<close> with \<open>c\<close> to follow; \<open>None\<close> when it has to wait. \<open>sched\<close> hands the process lock
  to the scheduler; the process goes on when a scheduler that has the lock finds it runnable.
\<close>

fun sw_do :: "chan \<Rightarrow> lockid \<Rightarrow> nat \<Rightarrow> kinstr \<Rightarrow> kinstr list \<Rightarrow> sw \<Rightarrow> sw option" where
  "sw_do ch lk p (KAcquire l) c s =
     (if sw_lock s l = None then Some (sw_goto p c (sw_own l (Some (Thread p)) s)) else None)"
| "sw_do ch lk p (KRelease l) c s =
     (if sw_lock s l = Some (Thread p) then Some (sw_goto p c (sw_own l None s)) else None)"
| "sw_do ch lk p (KSetChan x) c s = Some (sw_goto p c (s\<lparr>sw_chan := (sw_chan s)(p := x)\<rparr>))"
| "sw_do ch lk p (KSetState x) c s = Some (sw_goto p c (sw_mark p x s))"
| "sw_do ch lk p KSched c s =
     (if sw_lock s (LkProc p) = Some (Thread p)
      then Some (sw_goto p (KResume # c) (sw_own (LkProc p) (Some Scheduler) s)) else None)"
| "sw_do ch lk p KResume c s =
     (if sw_lock s (LkProc p) = Some Scheduler \<and> sw_state s p = RUNNABLE
      then Some (sw_goto p c (sw_own (LkProc p) (Some (Thread p)) (sw_mark p RUNNING s))) else None)"
| "sw_do ch lk p (KWake i x) c s =
     Some (sw_goto p c (if sw_state s i = SLEEPING \<and> sw_chan s i = x then sw_mark i RUNNABLE s else s))"
| "sw_do ch lk p (KKill i) c s =
     Some (sw_goto p c (if sw_state s i = SLEEPING then sw_mark i RUNNABLE s else s))"
| "sw_do ch lk p KWaitWhile c s =
     Some (sw_goto p (if sw_cond s then c else sleep_code ch lk p @ KWaitWhile # c) s)"
| "sw_do ch lk p (KSetCond b) c s = Some (sw_goto p c (s\<lparr>sw_cond := b\<rparr>))"

text \<open>
  What a process may start to do: wait for the condition and perhaps reset it, set it and wake the
  waiting processes, wake the processes on another channel, or kill a process.
\<close>

inductive sw_prog :: "chan \<Rightarrow> lockid \<Rightarrow> nat \<Rightarrow> kinstr list \<Rightarrow> bool" for ch lk p where
  prog_wait: "sw_prog ch lk p [KAcquire lk, KWaitWhile, KRelease lk]"
| prog_take: "sw_prog ch lk p [KAcquire lk, KWaitWhile, KSetCond False, KRelease lk]"
| prog_signal: "sw_prog ch lk p (KAcquire lk # KSetCond True # wakeup_code p ch @ [KRelease lk])"
| prog_other: "x \<noteq> ch \<Longrightarrow> sw_prog ch lk p (wakeup_code p x)"
| prog_kill: "sw_prog ch lk p [KAcquire (LkProc i), KKill i, KRelease (LkProc i)]"

inductive sw_step :: "chan \<Rightarrow> lockid \<Rightarrow> sw \<Rightarrow> sw \<Rightarrow> bool" for ch lk where
  sw_thread: "sw_code s p = i # c \<Longrightarrow> sw_do ch lk p i c s = Some t \<Longrightarrow> sw_step ch lk s t"
| sw_begin: "p < NPROC \<Longrightarrow> sw_code s p = [] \<Longrightarrow> sw_prog ch lk p c \<Longrightarrow> sw_step ch lk s (sw_goto p c s)"
| sw_timer: "p < NPROC \<Longrightarrow> hd (sw_code s p @ [KSched]) \<noteq> KResume \<Longrightarrow> (\<And>l. sw_lock s l \<noteq> Some (Thread p)) \<Longrightarrow>
    sw_step ch lk s (sw_goto p (yield_code p @ sw_code s p) s)"
| sw_pick: "sw_lock s (LkProc p) = None \<Longrightarrow> sw_step ch lk s (sw_own (LkProc p) (Some Scheduler) s)"
| sw_drop: "sw_lock s (LkProc p) = Some Scheduler \<Longrightarrow> sw_step ch lk s (sw_own (LkProc p) None s)"

definition sw_init :: sw where
  "sw_init = \<lparr>sw_lock = (\<lambda>_. None), sw_state = (\<lambda>_. RUNNING), sw_chan = (\<lambda>_. NoChan), sw_cond = False, sw_code = (\<lambda>_. [])\<rparr>"

inductive sw_reach :: "chan \<Rightarrow> lockid \<Rightarrow> sw \<Rightarrow> bool" for ch lk where
  sw_start: "sw_reach ch lk sw_init"
| sw_next: "sw_reach ch lk s \<Longrightarrow> sw_step ch lk s t \<Longrightarrow> sw_reach ch lk t"

lemma sw_sel [simp]:
  "sw_lock (sw_goto p c s) = sw_lock s" "sw_state (sw_goto p c s) = sw_state s" "sw_chan (sw_goto p c s) = sw_chan s"
  "sw_cond (sw_goto p c s) = sw_cond s" "sw_code (sw_goto p c s) = (sw_code s)(p := c)"
  "sw_lock (sw_own l w s) = (sw_lock s)(l := w)" "sw_state (sw_own l w s) = sw_state s" "sw_chan (sw_own l w s) = sw_chan s"
  "sw_cond (sw_own l w s) = sw_cond s" "sw_code (sw_own l w s) = sw_code s"
  "sw_lock (sw_mark p x s) = sw_lock s" "sw_state (sw_mark p x s) = (sw_state s)(p := x)" "sw_chan (sw_mark p x s) = sw_chan s"
  "sw_cond (sw_mark p x s) = sw_cond s" "sw_code (sw_mark p x s) = sw_code s"
  by (simp_all add: sw_goto_def sw_own_def sw_mark_def)

subsection \<open>The invariant\<close>

text \<open>Which locks a process has, read off what it still has to do.\<close>

fun holds :: "nat \<Rightarrow> lockid \<Rightarrow> kinstr list \<Rightarrow> bool" where
  "holds p l [] = False"
| "holds p l (KAcquire m # c) = (if l = m then False else holds p l c)"
| "holds p l (KRelease m # c) = (if l = m then True else holds p l c)"
| "holds p l (KSched # c) = (if l = LkProc p then True else holds p l c)"
| "holds p l (KResume # c) = (if l = LkProc p then False else holds p l c)"
| "holds p l (_ # c) = holds p l c"

text \<open>Before and after a process that found the condition false gives up the lock of the condition.\<close>

definition committed :: "chan \<Rightarrow> kinstr list \<Rightarrow> bool" where
  "committed ch c \<longleftrightarrow> take 3 c = [KSetChan ch, KSetState SLEEPING, KSched] \<or> take 2 c = [KSetState SLEEPING, KSched]"

definition presleep :: "chan \<Rightarrow> lockid \<Rightarrow> nat \<Rightarrow> kinstr list \<Rightarrow> bool" where
  "presleep ch lk p c \<longleftrightarrow>
     take 5 c = [KAcquire (LkProc p), KRelease lk, KSetChan ch, KSetState SLEEPING, KSched] \<or>
     take 4 c = [KRelease lk, KSetChan ch, KSetState SLEEPING, KSched]"

lemma committed_Cons:
  "committed ch (i # c) \<longleftrightarrow> i = KSetChan ch \<and> take 2 c = [KSetState SLEEPING, KSched] \<or> i = KSetState SLEEPING \<and> take 1 c = [KSched]"
  by (simp add: committed_def)

lemma presleep_Cons:
  "presleep ch lk p (i # c) \<longleftrightarrow>
     i = KAcquire (LkProc p) \<and> take 4 c = [KRelease lk, KSetChan ch, KSetState SLEEPING, KSched] \<or>
     i = KRelease lk \<and> take 3 c = [KSetChan ch, KSetState SLEEPING, KSched]"
  by (simp add: presleep_def)

lemma sleep_Nil [simp]: "\<not> committed ch []" "\<not> presleep ch lk p []"
  by (simp_all add: committed_def presleep_def)

definition no_wake :: "chan \<Rightarrow> kinstr list \<Rightarrow> bool" where
  "no_wake ch c \<longleftrightarrow> (\<forall>j. KWake j ch \<notin> set c)"

fun ok_instr :: "chan \<Rightarrow> lockid \<Rightarrow> nat \<Rightarrow> kinstr \<Rightarrow> kinstr list \<Rightarrow> bool" where
  "ok_instr ch lk p (KAcquire l) c = holds p l c"
| "ok_instr ch lk p (KRelease l) c = (\<not> holds p l c \<and> (l = lk \<longrightarrow> no_wake ch c))"
| "ok_instr ch lk p (KSetState x) c = (x = SLEEPING \<longrightarrow> (\<exists>r. c = KSched # r))"
| "ok_instr ch lk p KSched c = holds p (LkProc p) c"
| "ok_instr ch lk p KResume c = holds p (LkProc p) c"
| "ok_instr ch lk p (KWake i x) c = holds p (LkProc i) c"
| "ok_instr ch lk p KWaitWhile c = (holds p lk c \<and> \<not> holds p (LkProc p) c \<and> no_wake ch c)"
| "ok_instr ch lk p (KSetCond b) c = (holds p lk c \<and> (b \<longrightarrow> (\<forall>j < NPROC. j \<noteq> p \<longrightarrow> KWake j ch \<in> set c)))"
| "ok_instr ch lk p _ c = True"

fun ok_code :: "chan \<Rightarrow> lockid \<Rightarrow> nat \<Rightarrow> kinstr list \<Rightarrow> bool" where
  "ok_code ch lk p [] = True"
| "ok_code ch lk p (i # c) = (ok_instr ch lk p i c \<and> ok_code ch lk p c \<and>
     (committed ch c \<longrightarrow> committed ch (i # c) \<or> presleep ch lk p (i # c)) \<and> (presleep ch lk p c \<longrightarrow> presleep ch lk p (i # c)))"

definition waits :: "chan \<Rightarrow> sw \<Rightarrow> nat \<Rightarrow> bool" where
  "waits ch s p \<longleftrightarrow> committed ch (sw_code s p) \<or> sw_state s p = SLEEPING \<and> sw_chan s p = ch"

definition sw_inv :: "chan \<Rightarrow> lockid \<Rightarrow> sw \<Rightarrow> bool" where
  "sw_inv ch lk s \<longleftrightarrow>
     (\<forall>p l. sw_lock s l = Some (Thread p) \<longleftrightarrow> holds p l (sw_code s p)) \<and>
     (\<forall>p. ok_code ch lk p (sw_code s p)) \<and>
     (\<forall>p. NPROC \<le> p \<longrightarrow> sw_code s p = []) \<and>
     (\<forall>p. sw_state s p = SLEEPING \<longrightarrow> (\<exists>r. sw_code s p = KSched # r \<or> sw_code s p = KResume # r)) \<and>
     (\<forall>p. presleep ch lk p (sw_code s p) \<longrightarrow> \<not> sw_cond s) \<and>
     (\<forall>p. sw_cond s \<longrightarrow> waits ch s p \<longrightarrow> (\<exists>q. holds q lk (sw_code s q) \<and> KWake p ch \<in> set (sw_code s q)))"

lemma sw_invD:
  assumes "sw_inv ch lk s"
  shows "sw_lock s l = Some (Thread p) \<longleftrightarrow> holds p l (sw_code s p)" "ok_code ch lk p (sw_code s p)"
    "NPROC \<le> p \<Longrightarrow> sw_code s p = []"
    "sw_state s p = SLEEPING \<Longrightarrow> \<exists>r. sw_code s p = KSched # r \<or> sw_code s p = KResume # r"
    "presleep ch lk p (sw_code s p) \<Longrightarrow> \<not> sw_cond s"
    "sw_cond s \<Longrightarrow> waits ch s p \<Longrightarrow> \<exists>q. holds q lk (sw_code s q) \<and> KWake p ch \<in> set (sw_code s q)"
  using assms unfolding sw_inv_def by blast+

lemma holds_wakes:
  "holds p l (concat (map (wake_slot (Some p) x) js) @ c) \<longleftrightarrow> (\<forall>j \<in> set js. j = p \<or> l \<noteq> LkProc j) \<and> holds p l c"
  by (induction js) (auto simp: wake_slot_def)

lemma ok_wakes:
  assumes "ok_code ch lk p c" "\<And>j. \<not> holds p (LkProc j) c" "\<not> committed ch c" "\<not> presleep ch lk p c" "\<And>j. lk \<noteq> LkProc j"
    and "distinct js"
  shows "ok_code ch lk p (concat (map (wake_slot (Some p) x) js) @ c) \<and>
    \<not> committed ch (concat (map (wake_slot (Some p) x) js) @ c) \<and> \<not> presleep ch lk p (concat (map (wake_slot (Some p) x) js) @ c)"
  using assms(6)
proof (induction js)
  case Nil
  then show ?case using assms by simp
next
  case (Cons j js)
  define r where "r = concat (map (wake_slot (Some p) x) js) @ c"
  have "ok_code ch lk p r" "\<not> committed ch r" "\<not> presleep ch lk p r" "\<not> holds p (LkProc i) r" for i
    using Cons assms(2) by (auto simp: r_def holds_wakes)
  then have "ok_code ch lk p (wake_slot (Some p) x j @ r) \<and> \<not> committed ch (wake_slot (Some p) x j @ r) \<and>
      \<not> presleep ch lk p (wake_slot (Some p) x j @ r)"
    using assms(5) by (auto simp: wake_slot_def committed_Cons presleep_Cons)
  then show ?case by (simp add: r_def)
qed

lemma wakes_all: "j < NPROC \<Longrightarrow> j \<noteq> p \<Longrightarrow> KWake j ch \<in> set (wakeup_code p ch)"
  by (auto simp: wakeup_code_def wake_slot_def intro!: bexI [of _ j])

lemma no_wake_other: "x \<noteq> ch \<Longrightarrow> no_wake ch (wakeup_code p x)"
  by (auto simp: wakeup_code_def wake_slot_def no_wake_def split: if_splits)

lemma prog_ok:
  assumes "sw_prog ch lk p c" "\<And>j. lk \<noteq> LkProc j"
  shows "ok_code ch lk p c \<and> (\<forall>l. \<not> holds p l c) \<and> \<not> committed ch c \<and> \<not> presleep ch lk p c"
  using assms(1)
proof cases
  case prog_signal
  have "ok_code ch lk p (wakeup_code p ch @ [KRelease lk]) \<and> \<not> committed ch (wakeup_code p ch @ [KRelease lk]) \<and>
      \<not> presleep ch lk p (wakeup_code p ch @ [KRelease lk])"
    unfolding wakeup_code_def by (rule ok_wakes) (use assms(2) in \<open>auto simp: committed_Cons presleep_Cons no_wake_def\<close>)
  moreover have "holds p l (wakeup_code p ch @ [KRelease lk]) \<longleftrightarrow> l = lk" for l
    using assms(2) by (auto simp: wakeup_code_def holds_wakes)
  ultimately show ?thesis
    using prog_signal wakes_all by (auto simp: committed_Cons presleep_Cons)
next
  case (prog_other x)
  then show ?thesis
    using ok_wakes [of ch lk p "[]" "[0..<NPROC]" x] holds_wakes [of p _ x "[0..<NPROC]" "[]"] assms(2)
    by (simp add: wakeup_code_def)
qed (use assms(2) in \<open>auto simp: committed_Cons presleep_Cons no_wake_def\<close>)

lemma committed_holds: "committed ch c \<Longrightarrow> holds p (LkProc p) c"
  using append_take_drop_id [of 3 c] append_take_drop_id [of 2 c] unfolding committed_def
  by (metis append_Cons holds.simps(4,6,7))

lemma presleep_holds: "presleep ch lk p c \<Longrightarrow> lk \<noteq> LkProc p \<Longrightarrow> holds p lk c"
  using append_take_drop_id [of 5 c] append_take_drop_id [of 4 c] unfolding presleep_def
  by (metis append_Cons holds.simps(2,3) lockid.inject)

text \<open>A process can only come to the point before it sleeps through the actions of \<open>sleep\<close>.\<close>

lemma ok_tail:
  assumes "ok_code ch lk p (i # c)"
  shows "committed ch c \<Longrightarrow> committed ch (i # c) \<or> i = KRelease lk \<and> presleep ch lk p (i # c)"
    and "presleep ch lk p c \<Longrightarrow> i = KAcquire (LkProc p) \<and> presleep ch lk p (i # c)"
  using assms by (cases c; auto simp: committed_Cons presleep_Cons)+

lemma sw_move:
  assumes inv: "sw_inv ch lk s" and p: "sw_code s p = i # c" "sw_code t = (sw_code s)(p := c')" and ok: "ok_code ch lk p c'"
    and lock: "\<And>q l. q \<noteq> p \<Longrightarrow> sw_lock t l = Some (Thread q) \<longleftrightarrow> sw_lock s l = Some (Thread q)"
      "\<And>l. sw_lock t l = Some (Thread p) \<longleftrightarrow> holds p l c'"
    and st: "\<And>q. q \<noteq> p \<Longrightarrow> sw_state t q = SLEEPING \<Longrightarrow> sw_state s q = SLEEPING"
      "sw_state t p = SLEEPING \<Longrightarrow> \<exists>r. c' = KSched # r \<or> c' = KResume # r"
    and pre: "\<And>q. presleep ch lk q (sw_code t q) \<Longrightarrow> \<not> sw_cond t"
    and wait: "\<And>q. sw_cond t \<Longrightarrow> waits ch t q \<Longrightarrow> \<exists>r. holds r lk (sw_code t r) \<and> KWake q ch \<in> set (sw_code t r)"
  shows "sw_inv ch lk t"
proof -
  have "p < NPROC" using sw_invD(3) [OF inv, of p] p(1) by (cases "p < NPROC") auto
  moreover have "\<exists>r. sw_code t q = KSched # r \<or> sw_code t q = KResume # r" if "sw_state t q = SLEEPING" for q
    using that st sw_invD(4) [OF inv, of q] p(2) by (cases "q = p") auto
  moreover have "sw_lock t l = Some (Thread q) \<longleftrightarrow> holds q l (sw_code t q)" for q l
    using lock sw_invD(1) [OF inv] p(2) by (cases "q = p") auto
  moreover have "ok_code ch lk q (sw_code t q)" for q using ok sw_invD(2) [OF inv] p(2) by (cases "q = p") auto
  ultimately show ?thesis
    using pre wait sw_invD(3) [OF inv] p(2) unfolding sw_inv_def by auto
qed

text \<open>The actions that leave the condition alone and only let processes leave the waiting ones.\<close>

lemma sw_quiet:
  assumes inv: "sw_inv ch lk s" and p: "sw_code s p = i # c" "sw_code t = (sw_code s)(p := c')" and ok: "ok_code ch lk p c'"
    and lock: "\<And>q l. q \<noteq> p \<Longrightarrow> sw_lock t l = Some (Thread q) \<longleftrightarrow> sw_lock s l = Some (Thread q)"
      "\<And>l. sw_lock t l = Some (Thread p) \<longleftrightarrow> holds p l c'"
    and st: "\<And>q. q \<noteq> p \<Longrightarrow> sw_state t q = SLEEPING \<Longrightarrow> sw_state s q = SLEEPING"
      "sw_state t p = SLEEPING \<Longrightarrow> \<exists>r. c' = KSched # r \<or> c' = KResume # r"
    and cond: "sw_cond t = sw_cond s" "presleep ch lk p c' \<Longrightarrow> presleep ch lk p (i # c) \<or> \<not> sw_cond s"
    and wait: "\<And>q. sw_cond s \<Longrightarrow> waits ch t q \<Longrightarrow> waits ch s q"
      "\<And>q. holds p lk (i # c) \<Longrightarrow> KWake q ch \<in> set (i # c) \<Longrightarrow> waits ch t q \<Longrightarrow> holds p lk c' \<and> KWake q ch \<in> set c'"
  shows "sw_inv ch lk t"
proof (rule sw_move [OF inv p ok lock st])
  show "\<not> sw_cond t" if "presleep ch lk q (sw_code t q)" for q
    using that cond sw_invD(5) [OF inv, of q] p by (cases "q = p") auto
  show "\<exists>r. holds r lk (sw_code t r) \<and> KWake q ch \<in> set (sw_code t r)" if q: "sw_cond t" "waits ch t q" for q
  proof -
    have "waits ch s q" using wait(1) q cond(1) by simp
    then obtain r where r: "holds r lk (sw_code s r)" "KWake q ch \<in> set (sw_code s r)"
      using sw_invD(6) [OF inv, of q] q(1) cond(1) by auto
    then show ?thesis using wait(2) [OF _ _ q(2)] p by (cases "r = p") (auto intro!: exI [of _ r])
  qed
qed

lemma running:
  assumes "sw_inv ch lk s" "sw_code s p = i # c" "i \<noteq> KSched" "i \<noteq> KResume"
  shows "sw_state s p \<noteq> SLEEPING"
  using sw_invD(4) [OF assms(1), of p] assms(2-4) by auto

lemma not_committed:
  assumes "ok_code ch lk p (i # c)" "i \<noteq> KRelease lk" "i \<noteq> KSetChan ch"
  shows "\<not> committed ch c"
  using ok_tail(1) [OF assms(1)] assms(2,3) by (cases c) (auto simp: committed_Cons)

lemma sw_locks_inv:
  assumes inv: "sw_inv ch lk s" and p: "sw_code s p = i # c" and lk: "\<And>j. lk \<noteq> LkProc j"
    and i: "i = KAcquire l \<or> i = KRelease l" and t: "sw_do ch lk p i c s = Some t"
  shows "sw_inv ch lk t"
proof -
  have ok: "ok_code ch lk p (i # c)" and h: "sw_lock s m = Some (Thread p) \<longleftrightarrow> holds p m (i # c)" for m
    using sw_invD(1,2) [OF inv] p by metis+
  have run: "sw_state s p \<noteq> SLEEPING" using running [OF inv p] i by auto
  have t': "sw_code t = (sw_code s)(p := c)" "sw_state t = sw_state s" "sw_chan t = sw_chan s" "sw_cond t = sw_cond s"
    "sw_lock t = (sw_lock s)(l := if i = KAcquire l then Some (Thread p) else None)"
    "i = KAcquire l \<Longrightarrow> sw_lock s l = None" "i = KRelease l \<Longrightarrow> sw_lock s l = Some (Thread p)"
    using i t by (auto split: if_splits)
  have wait: "waits ch s q" if "sw_cond s" "waits ch t q" for q
  proof (cases "q = p")
    case True
    then have "committed ch c" using that(2) t' run by (simp add: waits_def)
    then have "committed ch (i # c) \<or> presleep ch lk p (i # c)" using ok_tail(1) [OF ok] by blast
    then show ?thesis using sw_invD(5) [OF inv, of p] that(1) p True by (auto simp: waits_def)
  qed (use that t' in \<open>auto simp: waits_def\<close>)
  show ?thesis
  proof (rule sw_quiet [OF inv p t'(1)])
    show "ok_code ch lk p c" using ok by simp
    show "sw_lock t m = Some (Thread q) \<longleftrightarrow> sw_lock s m = Some (Thread q)" if "q \<noteq> p" for q m
      using that t'(5-7) i by auto
    show "sw_lock t m = Some (Thread p) \<longleftrightarrow> holds p m c" for m
      using h [of m] t'(5) ok i by auto
    show "presleep ch lk p c \<Longrightarrow> presleep ch lk p (i # c) \<or> \<not> sw_cond s" using ok_tail(2) [OF ok] by blast
    show "holds p lk c \<and> KWake q ch \<in> set c" if "holds p lk (i # c)" "KWake q ch \<in> set (i # c)" for q
      using that i ok by (auto simp: no_wake_def split: if_splits)
  qed (use t' run wait in auto)
qed

lemma sw_sched_inv:
  assumes inv: "sw_inv ch lk s" and p: "sw_code s p = i # c" and lk: "\<And>j. lk \<noteq> LkProc j"
    and i: "i = KSched \<or> i = KResume" and t: "sw_do ch lk p i c s = Some t"
  shows "sw_inv ch lk t"
proof -
  have ok: "ok_code ch lk p (i # c)" and h: "sw_lock s m = Some (Thread p) \<longleftrightarrow> holds p m (i # c)" for m
    using sw_invD(1,2) [OF inv] p by metis+
  have nc: "\<not> committed ch c" "\<not> presleep ch lk p c" using not_committed [OF ok] ok_tail(2) [OF ok] i by auto
  show ?thesis
  proof (cases "i = KSched")
    case True
    then have t: "t = sw_goto p (KResume # c) (sw_own (LkProc p) (Some Scheduler) s)" "sw_lock s (LkProc p) = Some (Thread p)"
      using t by (auto split: if_splits)
    have tc: "sw_code t = (sw_code s)(p := KResume # c)" using t(1) by simp
    have tl: "sw_lock t m = Some (Thread q) \<longleftrightarrow> sw_lock s m = Some (Thread q)" if "q \<noteq> p" for q m using that t by simp
    show ?thesis
      by (rule sw_quiet [OF inv p tc _ tl])
        (use True t(1) ok h lk nc in \<open>auto simp: waits_def committed_Cons presleep_Cons split: if_splits\<close>)
  next
    case False
    then have t: "t = sw_goto p c (sw_own (LkProc p) (Some (Thread p)) (sw_mark p RUNNING s))"
      "sw_lock s (LkProc p) = Some Scheduler" "i = KResume"
      using i t by (auto split: if_splits)
    have tc: "sw_code t = (sw_code s)(p := c)" using t(1) by simp
    have tl: "sw_lock t m = Some (Thread q) \<longleftrightarrow> sw_lock s m = Some (Thread q)" if "q \<noteq> p" for q m using that t by simp
    show ?thesis
      by (rule sw_quiet [OF inv p tc _ tl]) (use t(1,3) ok h lk nc in \<open>auto simp: waits_def split: if_splits\<close>)
  qed
qed

lemma sw_mark_inv:
  assumes inv: "sw_inv ch lk s" and p: "sw_code s p = i # c" and lk: "\<And>j. lk \<noteq> LkProc j"
    and i: "i = KSetChan x \<or> i = KSetState y" and t: "sw_do ch lk p i c s = Some t"
  shows "sw_inv ch lk t"
proof -
  have ok: "ok_code ch lk p (i # c)" and h: "sw_lock s m = Some (Thread p) \<longleftrightarrow> holds p m (i # c)" for m
    using sw_invD(1,2) [OF inv] p by metis+
  have run: "sw_state s p \<noteq> SLEEPING" using running [OF inv p] i by auto
  have nc: "committed ch c \<Longrightarrow> committed ch (i # c)" "\<not> presleep ch lk p c"
    using ok_tail [OF ok] i by auto
  have sl: "i = KSetState SLEEPING \<Longrightarrow> committed ch (i # c) \<and> (\<exists>r. c = KSched # r)" using ok by (auto simp: committed_Cons)
  have t': "sw_code t = (sw_code s)(p := c)" "sw_lock t = sw_lock s" "sw_cond t = sw_cond s"
    "sw_state t p = SLEEPING \<Longrightarrow> i = KSetState SLEEPING" "q \<noteq> p \<Longrightarrow> sw_state t q = sw_state s q \<and> sw_chan t q = sw_chan s q" for q
    using i t run by (auto split: if_splits)
  have wait: "waits ch s q" if "waits ch t q" for q
    using that nc(1) sl t' p by (cases "q = p") (auto simp: waits_def)
  show ?thesis
    by (rule sw_quiet [OF inv p t'(1)]) (use t' ok h nc sl wait i in auto)
qed

lemma sw_wake_inv:
  assumes inv: "sw_inv ch lk s" and p: "sw_code s p = i # c" and lk: "\<And>j. lk \<noteq> LkProc j"
    and i: "i = KWake j x \<or> i = KKill j" and t: "sw_do ch lk p i c s = Some t"
  shows "sw_inv ch lk t"
proof -
  have ok: "ok_code ch lk p (i # c)" and h: "sw_lock s m = Some (Thread p) \<longleftrightarrow> holds p m (i # c)" for m
    using sw_invD(1,2) [OF inv] p by metis+
  have run: "sw_state s p \<noteq> SLEEPING" using running [OF inv p] i by auto
  have nc: "\<not> committed ch c" "\<not> presleep ch lk p c" using not_committed [OF ok] ok_tail(2) [OF ok] i by auto
  have t': "sw_code t = (sw_code s)(p := c)" "sw_lock t = sw_lock s" "sw_cond t = sw_cond s" "sw_chan t = sw_chan s"
    "sw_state t q = SLEEPING \<Longrightarrow> sw_state s q = SLEEPING"
    "i = KWake j ch \<Longrightarrow> \<not> (sw_state t j = SLEEPING \<and> sw_chan t j = ch)" for q
    using i t by (auto split: if_splits)
  have wait: "waits ch s q" if "waits ch t q" for q
    using that nc(1) t' by (cases "q = p") (auto simp: waits_def)
  have gone: "\<not> waits ch t j" if w: "i = KWake j ch"
  proof
    assume "waits ch t j"
    then have c: "committed ch (sw_code t j)" using t'(6) [OF w] by (simp add: waits_def)
    then have "j \<noteq> p" using nc(1) t'(1) by auto
    then have "sw_lock s (LkProc j) = Some (Thread j)" using committed_holds [OF c, of j] sw_invD(1) [OF inv] t'(1) by simp
    moreover have "sw_lock s (LkProc j) = Some (Thread p)" using h [of "LkProc j"] ok w by simp
    ultimately show False using \<open>j \<noteq> p\<close> by simp
  qed
  show ?thesis
    by (rule sw_quiet [OF inv p t'(1)]) (use t' run ok h nc wait gone i in auto)
qed

lemma sw_wait_inv:
  assumes inv: "sw_inv ch lk s" and p: "sw_code s p = KWaitWhile # c" and lk: "\<And>j. lk \<noteq> LkProc j"
    and t: "sw_do ch lk p KWaitWhile c s = Some t"
  shows "sw_inv ch lk t"
proof -
  let ?c = "sleep_code ch lk p @ KWaitWhile # c"
  have ok: "ok_code ch lk p (KWaitWhile # c)" and h: "sw_lock s m = Some (Thread p) \<longleftrightarrow> holds p m c" for m
    using sw_invD(1,2) [OF inv, where p = p] unfolding p by simp_all
  have run: "sw_state s p \<noteq> SLEEPING" using running [OF inv p] by simp
  have nc: "\<not> committed ch c" "\<not> presleep ch lk p c" using not_committed [OF ok] ok_tail(2) [OF ok] by auto
  have ok': "ok_code ch lk p ?c"
    using ok lk nc by (auto simp: sleep_code_def committed_Cons presleep_Cons no_wake_def)
  have h': "holds p m ?c \<longleftrightarrow> holds p m c" for m
    using ok lk by (auto simp: sleep_code_def)
  have nc': "\<not> committed ch ?c" by (simp add: sleep_code_def committed_Cons)
  define d where "d = (if sw_cond s then c else ?c)"
  have d: "ok_code ch lk p d" "\<not> committed ch d" "\<And>m. holds p m d \<longleftrightarrow> holds p m c" "presleep ch lk p d \<Longrightarrow> \<not> sw_cond s"
      "KWake q ch \<in> set c \<Longrightarrow> KWake q ch \<in> set d" for q
    unfolding d_def using ok ok' h' nc nc' by (simp_all split: if_splits)
  have t: "t = sw_goto p d s" using t by (simp add: d_def)
  then have tc: "sw_code t = (sw_code s)(p := d)" by simp
  show ?thesis
    by (rule sw_quiet [OF inv p tc d(1)]) (use t h run d(2-) in \<open>simp_all add: waits_def split: if_splits\<close>)
qed

lemma sw_cond_inv:
  assumes inv: "sw_inv ch lk s" and p: "sw_code s p = KSetCond b # c" and lk: "\<And>j. lk \<noteq> LkProc j"
    and t: "sw_do ch lk p (KSetCond b) c s = Some t"
  shows "sw_inv ch lk t"
proof -
  have ok: "ok_code ch lk p (KSetCond b # c)" and h: "sw_lock s m = Some (Thread p) \<longleftrightarrow> holds p m c" for m
    using sw_invD(1,2) [OF inv, where p = p] unfolding p by simp_all
  have run: "sw_state s p \<noteq> SLEEPING" using running [OF inv p] by simp
  have nc: "\<not> committed ch c" "\<not> presleep ch lk p c" using not_committed [OF ok] ok_tail(2) [OF ok] by auto
  have t: "t = sw_goto p c (s\<lparr>sw_cond := b\<rparr>)" using t by simp
  then have tc: "sw_code t = (sw_code s)(p := c)" by simp
  show ?thesis
  proof (rule sw_move [OF inv p tc])
    show "\<not> sw_cond t" if "presleep ch lk q (sw_code t q)" for q
    proof (cases "q = p")
      case False
      then have "sw_lock s lk = Some (Thread q)" using presleep_holds [OF that] lk sw_invD(1) [OF inv] tc by simp
      moreover have "sw_lock s lk = Some (Thread p)" using h ok by simp
      ultimately show ?thesis using False by simp
    qed (use that nc tc in simp)
    show "\<exists>r. holds r lk (sw_code t r) \<and> KWake q ch \<in> set (sw_code t r)" if q: "sw_cond t" "waits ch t q" for q
    proof -
      have qp: "q \<noteq> p" using q(2) nc run t by (auto simp: waits_def)
      then have "sw_code s q \<noteq> []" using q(2) sw_invD(4) [OF inv, of q] t by (auto simp: waits_def)
      then have "q < NPROC" using sw_invD(3) [OF inv, of q] by (cases "q < NPROC") auto
      then have "holds p lk c \<and> KWake q ch \<in> set c" using ok q(1) qp t by simp
      then show ?thesis using tc by (intro exI [of _ p]) simp
    qed
  qed (use t ok h run in auto)
qed

lemma sw_start_inv:
  assumes inv: "sw_inv ch lk s" and p: "p < NPROC" "hd (sw_code s p @ [KSched]) \<noteq> KResume" "\<And>l. sw_lock s l \<noteq> Some (Thread p)"
    and c: "ok_code ch lk p c" "\<And>l. \<not> holds p l c" "\<not> committed ch c" "\<not> presleep ch lk p c"
  shows "sw_inv ch lk (sw_goto p c s)"
proof -
  have h: "\<not> holds p l (sw_code s p)" for l using p(3) sw_invD(1) [OF inv] by simp
  have run: "sw_state s p \<noteq> SLEEPING"
  proof
    assume "sw_state s p = SLEEPING"
    then obtain r where "sw_code s p = KSched # r \<or> sw_code s p = KResume # r" using sw_invD(4) [OF inv] by blast
    then show False using p(2) h [of "LkProc p"] by auto
  qed
  have wait: "\<exists>r. holds r lk (((sw_code s)(p := c)) r) \<and> KWake q ch \<in> set (((sw_code s)(p := c)) r)"
    if q: "sw_cond s" "waits ch (sw_goto p c s) q" for q
  proof -
    have "waits ch s q" using q(2) run c(3) by (cases "q = p") (auto simp: waits_def)
    then obtain r where "holds r lk (sw_code s r)" "KWake q ch \<in> set (sw_code s r)" using sw_invD(6) [OF inv q(1)] by blast
    moreover have "r \<noteq> p" using calculation(1) h by auto
    ultimately show ?thesis by (intro exI [of _ r]) simp
  qed
  show ?thesis
    unfolding sw_inv_def using sw_invD(1-5) [OF inv] p(1,3) c run wait by auto
qed

lemma sw_own_inv:
  assumes inv: "sw_inv ch lk s" and l: "\<And>p. sw_lock s l \<noteq> Some (Thread p)" "\<And>p. w \<noteq> Some (Thread p)"
  shows "sw_inv ch lk (sw_own l w s)"
proof -
  have "sw_lock (sw_own l w s) m = Some (Thread p) \<longleftrightarrow> sw_lock s m = Some (Thread p)" for m p using l by simp
  then show ?thesis using inv unfolding sw_inv_def waits_def by simp
qed

lemma sw_step_inv:
  assumes "sw_step ch lk s t" "sw_inv ch lk s" and lk: "\<And>j. lk \<noteq> LkProc j"
  shows "sw_inv ch lk t"
  using assms(1)
proof cases
  case (sw_thread p i c)
  note a = assms(2) sw_thread(1) lk
  show ?thesis
  proof (cases i)
    case KWaitWhile then show ?thesis using sw_wait_inv a sw_thread(2) by blast
  next
    case KSetCond then show ?thesis using sw_cond_inv a sw_thread(2) by blast
  qed (use sw_locks_inv [OF a _ sw_thread(2)] sw_sched_inv [OF a _ sw_thread(2)] sw_mark_inv [OF a _ sw_thread(2)]
        sw_wake_inv [OF a _ sw_thread(2)] in blast)+
next
  case (sw_begin p c)
  then show ?thesis
    using sw_start_inv [OF assms(2), of p c] prog_ok [OF _ lk] sw_invD(1) [OF assms(2), of _ p] by simp
next
  case (sw_timer p)
  have h: "\<not> holds p l (sw_code s p)" for l using sw_timer(4) sw_invD(1) [OF assms(2), of l p] by simp
  have "\<not> committed ch (sw_code s p)" "\<not> presleep ch lk p (sw_code s p)"
    using h committed_holds presleep_holds lk by blast+
  then show ?thesis
    unfolding sw_timer(1) using sw_timer(2-4) h sw_invD(2) [OF assms(2), of p] lk
    by (intro sw_start_inv [OF assms(2)]) (auto simp: yield_code_def committed_Cons presleep_Cons)
qed (use sw_own_inv [OF assms(2)] in simp_all)

lemma sw_reach_inv: "sw_reach ch lk s \<Longrightarrow> (\<And>j. lk \<noteq> LkProc j) \<Longrightarrow> sw_inv ch lk s"
proof (induction rule: sw_reach.induct)
  case sw_start
  show ?case by (simp add: sw_inv_def sw_init_def waits_def)
next
  case (sw_next s t)
  then show ?case using sw_step_inv by blast
qed

subsection \<open>Properties\<close>

text \<open>
  C18. No wakeup is lost, in any interleaving. Processes wait for a condition with \<open>sleep\<close> under a lock,
  set the condition under that lock and then call \<open>wakeup\<close>, are preempted, killed and scheduled in
  any order on any number of harts. Whenever the condition holds and some process is asleep on its
  channel, the process that holds the lock is still to examine that process in its \<open>wakeup\<close>; so no
  process is asleep on the channel when the condition holds and the lock is free.
\<close>

theorem no_lost_wakeup:
  assumes "sw_reach ch lk s" "\<And>j. lk \<noteq> LkProc j" "sw_cond s" "sw_state s p = SLEEPING" "sw_chan s p = ch"
  shows "\<exists>q. sw_lock s lk = Some (Thread q) \<and> KWake p ch \<in> set (sw_code s q)"
proof -
  note inv = sw_reach_inv [OF assms(1,2)]
  have "waits ch s p" using assms(4,5) by (simp add: waits_def)
  then obtain q where "holds q lk (sw_code s q)" "KWake p ch \<in> set (sw_code s q)" using sw_invD(6) [OF inv assms(3)] by blast
  then show ?thesis using sw_invD(1) [OF inv] by blast
qed

text \<open>Letting the given processes act in turn.\<close>

fun sw_play :: "chan \<Rightarrow> lockid \<Rightarrow> nat list \<Rightarrow> sw \<Rightarrow> sw option" where
  "sw_play ch lk [] s = Some s"
| "sw_play ch lk (p # ps) s =
     (case sw_code s p of [] \<Rightarrow> None | i # c \<Rightarrow>
      (case sw_do ch lk p i c s of None \<Rightarrow> None | Some t \<Rightarrow> sw_play ch lk ps t))"

lemma sw_play_reach: "sw_reach ch lk s \<Longrightarrow> sw_play ch lk ps s = Some t \<Longrightarrow> sw_reach ch lk t"
proof (induction ps arbitrary: s)
  case (Cons p ps)
  then obtain i c u where "sw_code s p = i # c" "sw_do ch lk p i c s = Some u" "sw_play ch lk ps u = Some t"
    by (auto split: list.splits option.splits)
  then show ?case using Cons.IH sw_next [OF Cons.prems(1) sw_thread] by blast
qed simp

definition demo_asleep :: sw where
  "demo_asleep = sw_goto 1 (KAcquire LkTicks # KSetCond True # wakeup_code 1 ChTicks @ [KRelease LkTicks])
     (sw_goto 0 [KAcquire LkTicks, KWaitWhile, KRelease LkTicks] sw_init)"

theorem no_lost_wakeup_witness:
  "\<exists>s. sw_play ChTicks LkTicks [0, 0, 0, 0, 1, 1, 0, 0, 0] demo_asleep = Some s \<and> sw_cond s \<and>
     sw_state s 0 = SLEEPING \<and> sw_chan s 0 = ChTicks \<and>
     (\<exists>q. sw_lock s LkTicks = Some (Thread q) \<and> KWake 0 ChTicks \<in> set (sw_code s q))"
proof -
  have "sw_step ChTicks LkTicks sw_init (sw_goto 0 [KAcquire LkTicks, KWaitWhile, KRelease LkTicks] sw_init)"
    by (rule sw_begin [OF _ _ prog_wait]) (simp_all add: NPROC_def sw_init_def)
  moreover have "sw_step ChTicks LkTicks (sw_goto 0 [KAcquire LkTicks, KWaitWhile, KRelease LkTicks] sw_init) demo_asleep"
    unfolding demo_asleep_def by (rule sw_begin [OF _ _ prog_signal]) (simp_all add: NPROC_def sw_init_def)
  ultimately have r: "sw_reach ChTicks LkTicks demo_asleep" using sw_start sw_next by blast
  obtain s where s: "sw_play ChTicks LkTicks [0, 0, 0, 0, 1, 1, 0, 0, 0] demo_asleep = Some s" "sw_cond s"
      "sw_state s 0 = SLEEPING" "sw_chan s 0 = ChTicks"
    by (simp add: demo_asleep_def sw_init_def sleep_code_def)
  show ?thesis using s no_lost_wakeup [OF sw_play_reach [OF r s(1)] _ s(2-4)] by auto
qed

end
