(* ===== verification/User_Grep.thy ===== *)
theory User_Grep
  imports Kernel_String
begin

text \<open>
  \<open>user/grep.c\<close>: the matcher for \<open>^ . * $\<close> patterns and the loop that reads a file through a buffer
  of 1024 bytes and writes the matching lines. C strings are the sequences of their characters.
  \<open>read\<close> may return fewer bytes than asked for: how many is an arbitrary positive number \<open>avail k\<close> when
  \<open>k\<close> bytes of the file are left.
\<close>

subsection \<open>The matcher\<close>

abbreviation (input) caret :: u8 where "caret \<equiv> 0x5E"
abbreviation (input) dollar :: u8 where "dollar \<equiv> 0x24"
abbreviation (input) star :: u8 where "star \<equiv> 0x2A"
abbreviation (input) dot :: u8 where "dot \<equiv> 0x2E"

function matchhere :: "u8 list \<Rightarrow> u8 list \<Rightarrow> bool" and matchstar :: "u8 \<Rightarrow> u8 list \<Rightarrow> u8 list \<Rightarrow> bool" where
  "matchhere re s =
     (if re = [] then True
      else if length re > 1 \<and> re ! 1 = star then matchstar (re ! 0) (drop 2 re) s
      else if re = [dollar] then s = []
      else if s \<noteq> [] \<and> (hd re = dot \<or> hd re = hd s) then matchhere (tl re) (tl s)
      else False)"
| "matchstar c re s =
     (if matchhere re s then True
      else if s \<noteq> [] \<and> (hd s = c \<or> c = dot) then matchstar c re (tl s)
      else False)"
  by pat_completeness auto
termination
  by (relation "measures [\<lambda>x. case x of Inl (re, s) \<Rightarrow> length re | Inr (c, re, s) \<Rightarrow> length re + 1,
       \<lambda>x. case x of Inl (re, s) \<Rightarrow> length s | Inr (c, re, s) \<Rightarrow> length s]") auto

declare matchhere.simps [simp del] matchstar.simps [simp del]

fun match_from :: "u8 list \<Rightarrow> u8 list \<Rightarrow> bool" where
  "match_from re [] = matchhere re []"
| "match_from re (c # s) = (if matchhere re (c # s) then True else match_from re s)"

definition match :: "u8 list \<Rightarrow> u8 list \<Rightarrow> bool" where
  "match re s = (if re \<noteq> [] \<and> hd re = caret then matchhere (tl re) s else match_from re s)"

subsection \<open>Reading lines\<close>







subsection \<open>What a pattern means\<close>

text \<open>
  A pattern is a sequence of items. The specification is declarative: which texts an item sequence
  matches as a whole.
\<close>

datatype item = One u8 | Many u8

definition accepts :: "u8 \<Rightarrow> u8 \<Rightarrow> bool" where
  "accepts c x \<longleftrightarrow> c = dot \<or> c = x"

inductive matches :: "item list \<Rightarrow> u8 list \<Rightarrow> bool" where
  none: "matches [] []"
| one: "accepts c x \<Longrightarrow> matches is s \<Longrightarrow> matches (One c # is) (x # s)"
| done_many: "matches is s \<Longrightarrow> matches (Many c # is) s"
| more: "accepts c x \<Longrightarrow> matches (Many c # is) s \<Longrightarrow> matches (Many c # is) (x # s)"

text \<open>The items of a pattern and whether a final \<open>$\<close> ties it to the end of the text.\<close>

fun items :: "u8 list \<Rightarrow> item list \<times> bool" where
  "items [] = ([], False)"
| "items [c] = (if c = dollar then ([], True) else ([One c], False))"
| "items (c # d # re) =
     (if d = star then (Many c # fst (items re), snd (items re))
      else (One c # fst (items (d # re)), snd (items (d # re))))"

definition matches_prefix :: "u8 list \<Rightarrow> u8 list \<Rightarrow> bool" where
  "matches_prefix re s \<longleftrightarrow>
     (\<exists>u v. s = u @ v \<and> matches (fst (items re)) u \<and> (snd (items re) \<longrightarrow> v = []))"

inductive_cases matches_nilE: "matches [] s"
inductive_cases matches_oneE: "matches (One c # is) s"
inductive_cases matches_manyE: "matches (Many c # is) s"

subsection \<open>The matcher is correct\<close>

lemma matches_many:
  "matches (Many c # is) s \<longleftrightarrow> (\<exists>u v. s = u @ v \<and> (\<forall>x \<in> set u. accepts c x) \<and> matches is v)"
proof
  assume "matches (Many c # is) s"
  then show "\<exists>u v. s = u @ v \<and> (\<forall>x \<in> set u. accepts c x) \<and> matches is v"
  proof (induction "Many c # is" s rule: matches.induct)
    case (done_many s)
    then have "s = [] @ s \<and> (\<forall>x \<in> set []. accepts c x) \<and> matches is s" by simp
    then show ?case by blast
  next
    case (more x s)
    then obtain u v where "s = u @ v" "\<forall>x \<in> set u. accepts c x" "matches is v" by blast
    then have "x # s = (x # u) @ v \<and> (\<forall>y \<in> set (x # u). accepts c y) \<and> matches is v" using more.hyps(1) by simp
    then show ?case by blast
  qed
next
  have "matches (Many c # is) (u @ v)" if "\<forall>x \<in> set u. accepts c x" "matches is v" for u v
    using that by (induction u) (auto intro: matches.intros)
  then show "\<exists>u v. s = u @ v \<and> (\<forall>x \<in> set u. accepts c x) \<and> matches is v \<Longrightarrow> matches (Many c # is) s" by blast
qed

lemma prefix_nil: "matches_prefix [] s"
  by (auto simp: matches_prefix_def intro: matches.none)

lemma prefix_dollar: "matches_prefix [dollar] s \<longleftrightarrow> s = []"
  by (auto simp: matches_prefix_def intro: matches.none elim: matches_nilE)

lemma prefix_star:
  "matches_prefix (c # star # re) s \<longleftrightarrow> (\<exists>u v. s = u @ v \<and> (\<forall>x \<in> set u. accepts c x) \<and> matches_prefix re v)"
proof
  assume "matches_prefix (c # star # re) s"
  then obtain u v where 1: "s = u @ v" "matches (Many c # fst (items re)) u" "snd (items re) \<longrightarrow> v = []"
    by (auto simp: matches_prefix_def)
  then obtain a b where 2: "u = a @ b" "\<forall>x \<in> set a. accepts c x" "matches (fst (items re)) b"
    unfolding matches_many by blast
  have "matches_prefix re (b @ v)" using 1(3) 2(3) unfolding matches_prefix_def by blast
  moreover have "s = a @ (b @ v)" using 1(1) 2(1) by simp
  ultimately show "\<exists>u v. s = u @ v \<and> (\<forall>x \<in> set u. accepts c x) \<and> matches_prefix re v" using 2(2) by blast
next
  assume "\<exists>u v. s = u @ v \<and> (\<forall>x \<in> set u. accepts c x) \<and> matches_prefix re v"
  then obtain a v where 1: "s = a @ v" "\<forall>x \<in> set a. accepts c x" "matches_prefix re v" by blast
  then obtain b w where 2: "v = b @ w" "matches (fst (items re)) b" "snd (items re) \<longrightarrow> w = []"
    unfolding matches_prefix_def by blast
  have "matches (Many c # fst (items re)) (a @ b)" using 1(2) 2(2) unfolding matches_many by blast
  moreover have "s = (a @ b) @ w" using 1(1) 2(1) by simp
  ultimately show "matches_prefix (c # star # re) s"
    using 2(3) unfolding matches_prefix_def by (metis fst_conv items.simps(3) snd_conv)
qed

lemma items_Cons:
  "re = [] \<or> hd re \<noteq> star \<Longrightarrow> c # re \<noteq> [dollar] \<Longrightarrow> items (c # re) = (One c # fst (items re), snd (items re))"
  by (cases re) auto

lemma prefix_one:
  assumes "re = [] \<or> hd re \<noteq> star" "c # re \<noteq> [dollar]"
  shows "matches_prefix (c # re) s \<longleftrightarrow> (\<exists>x s'. s = x # s' \<and> accepts c x \<and> matches_prefix re s')"
proof
  assume "matches_prefix (c # re) s"
  then obtain u v where *: "s = u @ v" "matches (One c # fst (items re)) u" "snd (items re) \<longrightarrow> v = []"
    unfolding matches_prefix_def items_Cons [OF assms] by auto
  from *(2) obtain x w where "u = x # w" "accepts c x" "matches (fst (items re)) w" by (auto elim: matches_oneE)
  then show "\<exists>x s'. s = x # s' \<and> accepts c x \<and> matches_prefix re s'"
    using *(1,3) unfolding matches_prefix_def by auto
next
  assume "\<exists>x s'. s = x # s' \<and> accepts c x \<and> matches_prefix re s'"
  then obtain x u v where "s = x # u @ v" "accepts c x" "matches (fst (items re)) u" "snd (items re) \<longrightarrow> v = []"
    unfolding matches_prefix_def by auto
  then have "s = (x # u) @ v \<and> matches (fst (items (c # re))) (x # u) \<and> (snd (items (c # re)) \<longrightarrow> v = [])"
    unfolding items_Cons [OF assms] by (auto intro: matches.one)
  then show "matches_prefix (c # re) s" unfolding matches_prefix_def by blast
qed

lemma star_step:
  "(\<exists>u v. s = u @ v \<and> (\<forall>x \<in> set u. accepts c x) \<and> P v) \<longleftrightarrow>
     P s \<or> (s \<noteq> [] \<and> accepts c (hd s) \<and> (\<exists>u v. tl s = u @ v \<and> (\<forall>x \<in> set u. accepts c x) \<and> P v))"
  (is "?L s \<longleftrightarrow> _")
proof
  assume "?L s"
  then obtain u v where *: "s = u @ v" "\<forall>x \<in> set u. accepts c x" "P v" by blast
  then show "P s \<or> (s \<noteq> [] \<and> accepts c (hd s) \<and> ?L (tl s))" by (cases u) auto
next
  assume "P s \<or> (s \<noteq> [] \<and> accepts c (hd s) \<and> ?L (tl s))"
  then show "?L s"
  proof
    assume "P s"
    then have "s = [] @ s \<and> (\<forall>x \<in> set []. accepts c x) \<and> P s" by simp
    then show ?thesis by blast
  next
    assume a: "s \<noteq> [] \<and> accepts c (hd s) \<and> ?L (tl s)"
    then obtain u v where "tl s = u @ v" "\<forall>x \<in> set u. accepts c x" "P v" by blast
    then have "s = (hd s # u) @ v \<and> (\<forall>x \<in> set (hd s # u). accepts c x) \<and> P v" using a by (cases s) simp_all
    then show ?thesis by blast
  qed
qed

lemma matcher_spec:
  "matchhere re s \<longleftrightarrow> matches_prefix re s"
  "matchstar c re s \<longleftrightarrow> (\<exists>u v. s = u @ v \<and> (\<forall>x \<in> set u. accepts c x) \<and> matches_prefix re v)"
proof (induction re s and c re s rule: matchhere_matchstar.induct)
  case (1 re s)
  show ?case
  proof (cases re)
    case Nil
    then show ?thesis by (simp add: matchhere.simps prefix_nil)
  next
    case (Cons c r)
    show ?thesis
    proof (cases "r \<noteq> [] \<and> hd r = star")
      case True
      then obtain r' where r: "r = star # r'" by (cases r) auto
      then have "matchhere re s = matchstar c r' s" using Cons by (subst matchhere.simps) simp
      moreover have "matchstar c r' s \<longleftrightarrow> (\<exists>u v. s = u @ v \<and> (\<forall>x \<in> set u. accepts c x) \<and> matches_prefix r' v)"
        using 1(1) Cons r by simp
      ultimately show ?thesis unfolding Cons r prefix_star by simp
    next
      case False
      then have nostar: "\<not> (length re > 1 \<and> re ! 1 = star)" using Cons by (cases r) auto
      show ?thesis
      proof (cases "re = [dollar]")
        case True
        then show ?thesis using prefix_dollar by (simp add: matchhere.simps)
      next
        case nodollar: False
        have eq: "matchhere re s = (s \<noteq> [] \<and> accepts c (hd s) \<and> matchhere r (tl s))"
          using Cons nostar nodollar by (subst matchhere.simps) (auto simp: accepts_def)
        have "matchhere r (tl s) \<longleftrightarrow> matches_prefix r (tl s)" if "s \<noteq> [] \<and> accepts c (hd s)"
          using 1(2) Cons nostar nodollar that by (simp add: accepts_def)
        then have "matchhere re s \<longleftrightarrow> s \<noteq> [] \<and> accepts c (hd s) \<and> matches_prefix r (tl s)" using eq by blast
        also have "\<dots> \<longleftrightarrow> matches_prefix re s"
          using prefix_one [of r c s] False nodollar unfolding Cons by (cases s) auto
        finally show ?thesis .
      qed
    qed
  qed
next
  case (2 c re s)
  show ?case
  proof (cases "matches_prefix re s")
    case True
    then show ?thesis using 2(1) by (subst matchstar.simps, subst star_step) simp
  next
    case False
    then have "matchstar c re s = (s \<noteq> [] \<and> accepts c (hd s) \<and> matchstar c re (tl s))"
      using 2(1) by (subst matchstar.simps) (auto simp: accepts_def)
    moreover have "matchstar c re (tl s) \<longleftrightarrow> (\<exists>u v. tl s = u @ v \<and> (\<forall>x \<in> set u. accepts c x) \<and> matches_prefix re v)"
      if "s \<noteq> [] \<and> accepts c (hd s)" using 2 False that by (auto simp: accepts_def)
    ultimately show ?thesis using False by (subst star_step) blast
  qed
qed

text \<open>
  C8. The matcher accepts exactly the texts its pattern describes: a pattern that starts with \<open>^\<close> must
  match at the beginning of the text, any other pattern somewhere in it, and a pattern that ends
  with \<open>$\<close> must match up to the end of the text. The meaning of a pattern is the declarative
  \<open>matches\<close>, in which a starred character stands for any number of characters it accepts.
\<close>

theorem match_correct:
  "match re s = (if re \<noteq> [] \<and> hd re = caret then matches_prefix (tl re) s
     else \<exists>u v. s = u @ v \<and> matches_prefix re v)"
proof -
  have "match_from re t \<longleftrightarrow> (\<exists>u v. t = u @ v \<and> matches_prefix re v)" for t
  proof (induction t)
    case Nil
    then show ?case by (simp add: matcher_spec)
  next
    case (Cons c t)
    have "(\<exists>u v. c # t = u @ v \<and> matches_prefix re v) \<longleftrightarrow>
        matches_prefix re (c # t) \<or> (\<exists>u v. t = u @ v \<and> matches_prefix re v)"
      by (auto simp: Cons_eq_append_conv)
    then show ?case using Cons by (simp add: matcher_spec)
  qed
  note this [of s]
  then show ?thesis by (cases "re \<noteq> [] \<and> hd re = caret") (auto simp: match_def matcher_spec)
qed

subsection \<open>The loop is correct\<close>














end
