(* ===== verification/User_Sh.thy ===== *)
theory User_Sh
  imports Kernel_Params Kernel_String "HOL-Library.Sublist"
begin

text \<open>
  The parser of \<open>user/sh.c\<close>. A pointer into the command line is the rest of the line from there, so
  \<open>s < es\<close> is \<open>s \<noteq> []\<close> and advancing drops characters; the token between two pointers \<open>q\<close> and \<open>eq\<close> is what
  lies between them. The recursive functions take fuel; \<open>parsecmd\<close> passes enough of it for every
  line. \<open>panic\<close> ends the shell's child process and is an error value here; \<open>malloc\<close> is taken to succeed.
\<close>

subsection \<open>Characters\<close>

definition whitespace :: "u8 list" where "whitespace = [0x20, 0x09, 0x0D, 0x0A, 0x0B]"
definition symbols :: "u8 list" where "symbols = [0x3C, 0x7C, 0x3E, 0x26, 0x3B, 0x28, 0x29]"

abbreviation (input) lt :: u8 where "lt \<equiv> 0x3C"
abbreviation (input) gt :: u8 where "gt \<equiv> 0x3E"
abbreviation (input) bar :: u8 where "bar \<equiv> 0x7C"
abbreviation (input) amp :: u8 where "amp \<equiv> 0x26"
abbreviation (input) semi :: u8 where "semi \<equiv> 0x3B"
abbreviation (input) lpar :: u8 where "lpar \<equiv> 0x28"
abbreviation (input) rpar :: u8 where "rpar \<equiv> 0x29"
abbreviation (input) plus_ch :: u8 where "plus_ch \<equiv> 0x2B"
abbreviation (input) word_ch :: u8 where "word_ch \<equiv> 0x61"

type_synonym ptr = "u8 list"

subsection \<open>Commands\<close>

definition MAXARGS :: nat where "MAXARGS = 10"

datatype cmd =
    ExecCmd "(ptr \<times> ptr) list"
  | RedirCmd cmd ptr ptr u32 nat
  | PipeCmd cmd cmd
  | ListCmd cmd cmd
  | BackCmd cmd

definition execcmd :: cmd where "execcmd = ExecCmd []"

definition redircmd :: "cmd \<Rightarrow> ptr \<Rightarrow> ptr \<Rightarrow> u32 \<Rightarrow> nat \<Rightarrow> cmd" where
  "redircmd subcmd fl efl mode fd = RedirCmd subcmd fl efl mode fd"

definition pipecmd :: "cmd \<Rightarrow> cmd \<Rightarrow> cmd" where "pipecmd left right = PipeCmd left right"
definition listcmd :: "cmd \<Rightarrow> cmd \<Rightarrow> cmd" where "listcmd left right = ListCmd left right"
definition backcmd :: "cmd \<Rightarrow> cmd" where "backcmd subcmd = BackCmd subcmd"

text \<open>
  \<open>parseexec\<close> keeps a pointer to the exec node it made while redirections are wrapped around it, and
  stores arguments through that pointer.
\<close>

fun add_arg :: "ptr \<times> ptr \<Rightarrow> cmd \<Rightarrow> cmd" where
  "add_arg a (ExecCmd as) = ExecCmd (as @ [a])"
| "add_arg a (RedirCmd c q eq mode fd) = RedirCmd (add_arg a c) q eq mode fd"
| "add_arg a c = c"

subsection \<open>Tokens\<close>

definition skip_ws :: "ptr \<Rightarrow> ptr" where
  "skip_ws s = dropWhile (\<lambda>c. c \<in> set whitespace) s"

definition word_char :: "u8 \<Rightarrow> bool" where
  "word_char c \<longleftrightarrow> c \<notin> set whitespace \<and> c \<notin> set symbols"

text \<open>The \<open>switch\<close> of \<open>gettoken\<close>: the kind of the token at a pointer and the pointer just after it.\<close>

fun token_at :: "ptr \<Rightarrow> u8 \<times> ptr" where
  "token_at [] = (0, [])"
| "token_at (c # r) =
     (if c = 0 then (0, c # r)
      else if c \<in> {bar, lpar, rpar, semi, amp, lt} then (c, r)
      else if c = gt then (if r \<noteq> [] \<and> hd r = gt then (plus_ch, tl r) else (gt, r))
      else (word_ch, dropWhile word_char (c # r)))"

definition gettoken :: "ptr \<Rightarrow> u8 \<times> ptr \<times> ptr \<times> ptr" where
  "gettoken s =
     (let q = skip_ws s; (tok, eq) = token_at q
      in (tok, q, eq, skip_ws eq))"

definition peek :: "ptr \<Rightarrow> u8 list \<Rightarrow> ptr \<times> bool" where
  "peek s toks = (let s' = skip_ws s in (s', s' \<noteq> [] \<and> hd s' \<noteq> 0 \<and> hd s' \<in> set toks))"

subsection \<open>The parser\<close>

datatype perr = PPanic string | PFuel

definition redirect :: "u8 \<Rightarrow> cmd \<Rightarrow> ptr \<Rightarrow> ptr \<Rightarrow> cmd" where
  "redirect tok c q eq =
     (if tok = lt then redircmd c q eq O_RDONLY 0
      else if tok = gt then redircmd c q eq (O_WRONLY OR O_CREATE OR O_TRUNC) 1
      else if tok = plus_ch then redircmd c q eq (O_WRONLY OR O_CREATE) 1
      else c)"

fun parseredirs :: "nat \<Rightarrow> cmd \<Rightarrow> ptr \<Rightarrow> perr + cmd \<times> ptr" where
  "parseredirs 0 c s = Inl PFuel"
| "parseredirs (Suc n) c s =
     (case peek s [lt, gt] of (s, p) \<Rightarrow>
      if \<not> p then Inr (c, s) else
      (case gettoken s of (tok, _, _, s) \<Rightarrow>
      (case gettoken s of (w, q, eq, s) \<Rightarrow>
      if w \<noteq> word_ch then Inl (PPanic ''missing file for redirection'')
      else parseredirs n (redirect tok c q eq) s)))"

fun parseargs :: "nat \<Rightarrow> nat \<Rightarrow> cmd \<Rightarrow> ptr \<Rightarrow> perr + cmd \<times> ptr" where
  "parseargs 0 argc c s = Inl PFuel"
| "parseargs (Suc n) argc c s =
     (case peek s [bar, rpar, amp, semi] of (s, p) \<Rightarrow>
      if p then Inr (c, s) else
      (case gettoken s of (tok, q, eq, s) \<Rightarrow>
      if tok = 0 then Inr (c, s)
      else if tok \<noteq> word_ch then Inl (PPanic ''syntax'')
      else if Suc argc \<ge> MAXARGS then Inl (PPanic ''too many args'') else
      (case parseredirs n (add_arg (q, eq) c) s of
         Inl e \<Rightarrow> Inl e
       | Inr (c, s) \<Rightarrow> parseargs n (Suc argc) c s)))"

fun parseback :: "nat \<Rightarrow> cmd \<Rightarrow> ptr \<Rightarrow> perr + cmd \<times> ptr" where
  "parseback 0 c s = Inl PFuel"
| "parseback (Suc n) c s =
     (case peek s [amp] of (s, p) \<Rightarrow>
      if \<not> p then Inr (c, s) else
      (case gettoken s of (_, _, _, s) \<Rightarrow> parseback n (backcmd c) s))"

fun parseline :: "nat \<Rightarrow> ptr \<Rightarrow> perr + cmd \<times> ptr"
  and parsepipe :: "nat \<Rightarrow> ptr \<Rightarrow> perr + cmd \<times> ptr"
  and parseexec :: "nat \<Rightarrow> ptr \<Rightarrow> perr + cmd \<times> ptr"
  and parseblock :: "nat \<Rightarrow> ptr \<Rightarrow> perr + cmd \<times> ptr" where
  "parseline 0 s = Inl PFuel"
| "parseline (Suc n) s =
     (case parsepipe n s of Inl e \<Rightarrow> Inl e | Inr (c, s) \<Rightarrow>
     (case parseback n c s of Inl e \<Rightarrow> Inl e | Inr (c, s) \<Rightarrow>
     (case peek s [semi] of (s, p) \<Rightarrow>
      if \<not> p then Inr (c, s) else
      (case gettoken s of (_, _, _, s) \<Rightarrow>
      (case parseline n s of Inl e \<Rightarrow> Inl e | Inr (d, s) \<Rightarrow> Inr (listcmd c d, s))))))"
| "parsepipe 0 s = Inl PFuel"
| "parsepipe (Suc n) s =
     (case parseexec n s of Inl e \<Rightarrow> Inl e | Inr (c, s) \<Rightarrow>
     (case peek s [bar] of (s, p) \<Rightarrow>
      if \<not> p then Inr (c, s) else
      (case gettoken s of (_, _, _, s) \<Rightarrow>
      (case parsepipe n s of Inl e \<Rightarrow> Inl e | Inr (d, s) \<Rightarrow> Inr (pipecmd c d, s)))))"
| "parseexec 0 s = Inl PFuel"
| "parseexec (Suc n) s =
     (case peek s [lpar] of (s, p) \<Rightarrow>
      if p then parseblock n s else
      (case parseredirs n execcmd s of Inl e \<Rightarrow> Inl e | Inr (c, s) \<Rightarrow> parseargs n 0 c s))"
| "parseblock 0 s = Inl PFuel"
| "parseblock (Suc n) s =
     (case peek s [lpar] of (s, p) \<Rightarrow>
      if \<not> p then Inl (PPanic ''parseblock'') else
      (case gettoken s of (_, _, _, s) \<Rightarrow>
      (case parseline n s of Inl e \<Rightarrow> Inl e | Inr (c, s) \<Rightarrow>
      (case peek s [rpar] of (s, p) \<Rightarrow>
       if \<not> p then Inl (PPanic ''syntax - missing )'') else
       (case gettoken s of (_, _, _, s) \<Rightarrow> parseredirs n c s)))))"

definition parse_fuel :: "ptr \<Rightarrow> nat" where
  "parse_fuel s = 4 * length s + 4"

text \<open>The string functions write a NUL at the end of every token of the tree.\<close>

definition put_nul :: "ptr \<Rightarrow> u8 list \<Rightarrow> u8 list" where
  "put_nul p b = b[length b - length p := 0]"

fun nulterminate :: "cmd \<Rightarrow> u8 list \<Rightarrow> u8 list" where
  "nulterminate (ExecCmd as) b = fold (\<lambda>(q, eq). put_nul eq) as b"
| "nulterminate (RedirCmd c q eq mode fd) b = put_nul eq (nulterminate c b)"
| "nulterminate (PipeCmd l r) b = nulterminate r (nulterminate l b)"
| "nulterminate (ListCmd l r) b = nulterminate r (nulterminate l b)"
| "nulterminate (BackCmd c) b = nulterminate c b"

definition parsecmd :: "u8 list \<Rightarrow> perr + cmd \<times> u8 list" where
  "parsecmd s =
     (case parseline (parse_fuel s) s of Inl e \<Rightarrow> Inl e | Inr (c, r) \<Rightarrow>
     (case peek r [] of (r, _) \<Rightarrow>
      if r \<noteq> [] then Inl (PPanic ''syntax'') else Inr (c, nulterminate c s)))"

subsection \<open>The parser ends\<close>

lemma length_skip_ws: "length (skip_ws s) \<le> length s"
  by (simp add: skip_ws_def length_dropWhile_le)

lemma skip_ws_idem [simp]: "skip_ws (skip_ws s) = skip_ws s"
  by (simp add: skip_ws_def)

lemma gettoken_eq: "gettoken s = (fst (token_at (skip_ws s)), skip_ws s, snd (token_at (skip_ws s)), skip_ws (snd (token_at (skip_ws s))))"
  by (simp add: gettoken_def Let_def split: prod.splits)

lemma skip_ws_Cons: "skip_ws s = c # r \<Longrightarrow> c \<notin> set whitespace"
  unfolding skip_ws_def by (simp add: dropWhile_eq_Cons_conv)

lemma length_token_at: "q = skip_ws s \<Longrightarrow> length (snd (token_at q)) < length q \<or> (snd (token_at q) = q \<and> fst (token_at q) = 0)"
proof (cases q)
  case (Cons c r)
  assume q: "q = skip_ws s"
  have "length (dropWhile word_char r) \<le> length r" by (rule length_dropWhile_le)
  moreover have "word_char c" if "c \<notin> {bar, lpar, rpar, semi, amp, lt}" "c \<noteq> gt"
    using skip_ws_Cons [of s c r] q Cons that by (simp add: word_char_def symbols_def)
  ultimately show ?thesis unfolding Cons by (cases r) auto
qed simp

lemma length_gettoken:
  assumes "gettoken s = (t, q, eq, s')"
  shows "length s' \<le> length eq" "length eq \<le> length q" "length q \<le> length s" "t \<noteq> 0 \<Longrightarrow> length eq < length q"
  using assms length_token_at [of q s] length_skip_ws [of s] length_skip_ws [of eq] by (auto simp: gettoken_eq)

lemma peek_len: "peek s toks = (s', p) \<Longrightarrow> length s' \<le> length s"
  using length_skip_ws by (auto simp: peek_def Let_def)

lemma peek_token:
  assumes "peek s toks = (s', True)" "set toks \<subseteq> set symbols" "gettoken s' = (t, q, eq, s'')"
  shows "length s'' < length s"
proof -
  have s': "s' = skip_ws s" "s' \<noteq> []" "hd s' \<in> set symbols" using assms(1,2) by (auto simp: peek_def Let_def)
  then have "t \<noteq> 0"
    using assms(3) by (cases s') (auto simp: gettoken_eq symbols_def split: if_splits)
  then show ?thesis using length_gettoken [OF assms(3)] length_skip_ws [of s] s'(1) by simp
qed

lemma sym_toks [simp]:
  "set [lt, gt] \<subseteq> set symbols" "set [amp] \<subseteq> set symbols" "set [semi] \<subseteq> set symbols" "set [bar] \<subseteq> set symbols"
  "set [lpar] \<subseteq> set symbols" "set [rpar] \<subseteq> set symbols"
  by (simp_all add: symbols_def)

lemma length_parseredirs: "parseredirs n c s = Inr (c', s') \<Longrightarrow> length s' \<le> length s"
proof (induction n c s rule: parseredirs.induct)
  case (2 n c s)
  obtain s1 p where p: "peek s [lt, gt] = (s1, p)" by (cases "peek s [lt, gt]")
  obtain t a b s2 where t: "gettoken s1 = (t, a, b, s2)" by (cases "gettoken s1") auto
  obtain w q e s3 where w: "gettoken s2 = (w, q, e, s3)" by (cases "gettoken s2") auto
  have "length s1 \<le> length s" by (rule peek_len [OF p])
  moreover have "length s2 \<le> length s1" using length_gettoken(1-3) [OF t] by simp
  moreover have "length s3 \<le> length s2" using length_gettoken(1-3) [OF w] by simp
  ultimately show ?case
    using 2(2) 2(1) [OF p [symmetric] _ t [symmetric] refl refl w [symmetric] refl refl] p t w
    by (auto split: if_splits)
qed simp

lemma parseredirs_fuel: "length s < n \<Longrightarrow> parseredirs n c s \<noteq> Inl PFuel"
proof (induction n arbitrary: c s)
  case (Suc n)
  obtain s1 p where p: "peek s [lt, gt] = (s1, p)" by (cases "peek s [lt, gt]")
  obtain t a b s2 where t: "gettoken s1 = (t, a, b, s2)" by (cases "gettoken s1") auto
  obtain w q e s3 where w: "gettoken s2 = (w, q, e, s3)" by (cases "gettoken s2") auto
  have "length s3 < n" if p
    using peek_token [OF p [unfolded that [THEN eqTrueI]] sym_toks(1) t] length_gettoken(1-3) [OF w] Suc.prems that by simp
  then show ?case using Suc.IH p t w by auto
qed simp

lemma length_parseargs: "parseargs n k c s = Inr (c', s') \<Longrightarrow> length s' \<le> length s"
proof (induction n arbitrary: k c s)
  case (Suc n)
  obtain s1 p where p: "peek s [bar, rpar, amp, semi] = (s1, p)" by (cases "peek s [bar, rpar, amp, semi]")
  obtain t q e s2 where t: "gettoken s1 = (t, q, e, s2)" by (cases "gettoken s1") auto
  have l: "length s1 \<le> length s" "length s2 \<le> length s1" using peek_len [OF p] length_gettoken(1-3) [OF t] by simp_all
  show ?case
  proof (cases "parseredirs n (add_arg (q, e) c) s2")
    case (Inl x)
    then show ?thesis using Suc.prems p t l by (auto split: if_splits)
  next
    case (Inr y)
    then obtain c2 s3 where y: "parseredirs n (add_arg (q, e) c) s2 = Inr (c2, s3)" by (cases y) auto
    then show ?thesis using Suc.prems Suc.IH [of "Suc k" c2 s3] length_parseredirs [OF y] p t l by (auto split: if_splits)
  qed
qed simp

lemma parseargs_fuel: "length s < n \<Longrightarrow> parseargs n k c s \<noteq> Inl PFuel"
proof (induction n arbitrary: k c s)
  case (Suc n)
  obtain s1 p where p: "peek s [bar, rpar, amp, semi] = (s1, p)" by (cases "peek s [bar, rpar, amp, semi]")
  obtain t q e s2 where t: "gettoken s1 = (t, q, e, s2)" by (cases "gettoken s1") auto
  have l: "t \<noteq> 0 \<Longrightarrow> length s2 < n" using peek_len [OF p] length_gettoken [OF t] Suc.prems by simp
  show ?case
  proof (cases "parseredirs n (add_arg (q, e) c) s2")
    case (Inl x)
    then show ?thesis using parseredirs_fuel [of s2 n] l p t by auto
  next
    case (Inr y)
    then obtain c2 s3 where y: "parseredirs n (add_arg (q, e) c) s2 = Inr (c2, s3)" by (cases y) auto
    then show ?thesis using Suc.IH [of s3 "Suc k" c2] length_parseredirs [OF y] l p t by auto
  qed
qed simp

lemma length_parseback: "parseback n c s = Inr (c', s') \<Longrightarrow> length s' \<le> length s"
proof (induction n arbitrary: c s)
  case (Suc n)
  obtain s1 p where p: "peek s [amp] = (s1, p)" by (cases "peek s [amp]")
  obtain t q e s2 where t: "gettoken s1 = (t, q, e, s2)" by (cases "gettoken s1") auto
  show ?case
    using Suc.prems Suc.IH [of "backcmd c" s2] peek_len [OF p] length_gettoken(1-3) [OF t] p t by (auto split: if_splits)
qed simp

lemma parseback_fuel: "length s < n \<Longrightarrow> parseback n c s \<noteq> Inl PFuel"
proof (induction n arbitrary: c s)
  case (Suc n)
  obtain s1 p where p: "peek s [amp] = (s1, p)" by (cases "peek s [amp]")
  obtain t q e s2 where t: "gettoken s1 = (t, q, e, s2)" by (cases "gettoken s1") auto
  show ?case
  proof (cases p)
    case True
    then have "length s2 < n" using peek_token [OF _ sym_toks(2) t] p Suc.prems by fastforce
    then show ?thesis using Suc.IH p t by auto
  qed (simp add: p)
qed simp

definition shorter :: "(perr + cmd \<times> ptr) \<Rightarrow> ptr \<Rightarrow> bool" where
  "shorter r s \<longleftrightarrow> r \<noteq> Inl PFuel \<and> (\<forall>c s'. r = Inr (c, s') \<longrightarrow> length s' \<le> length s)"

lemma shorter_leaf:
  "length s < n \<Longrightarrow> shorter (parseredirs n c s) s" "length s < n \<Longrightarrow> shorter (parseargs n k c s) s"
  "length s < n \<Longrightarrow> shorter (parseback n c s) s"
  unfolding shorter_def
  by (auto dest: length_parseredirs length_parseargs length_parseback
      simp: parseredirs_fuel parseargs_fuel parseback_fuel)

lemma shorter_cases:
  assumes "shorter r s"
  obtains msg where "r = Inl (PPanic msg)" | c s' where "r = Inr (c, s')" "length s' \<le> length s"
proof (cases r)
  case (Inl e)
  then show ?thesis using assms that(1) by (cases e) (auto simp: shorter_def)
next
  case (Inr y)
  then show ?thesis using assms that(2) by (cases y) (auto simp: shorter_def)
qed

lemma shorter_simps [simp]:
  "shorter (Inl (PPanic m)) s" "shorter (Inr (c, s')) s \<longleftrightarrow> length s' \<le> length s"
  by (auto simp: shorter_def)

lemma shorter_trans: "shorter r s' \<Longrightarrow> length s' \<le> length s \<Longrightarrow> shorter r s"
  by (auto simp: shorter_def)

lemma parse_ends:
  "4 * length s + 4 \<le> n \<Longrightarrow> shorter (parseline n s) s"
  "4 * length s + 3 \<le> n \<Longrightarrow> shorter (parsepipe n s) s"
  "4 * length s + 2 \<le> n \<Longrightarrow> shorter (parseexec n s) s"
  "4 * length s + 1 \<le> n \<Longrightarrow> shorter (parseblock n s) s"
proof (induction n arbitrary: s)
  case (Suc n)
  have tok: "length s2 < length s1"
    if "peek s1 [c] = (s', True)" "c \<in> set symbols" "gettoken s' = (t, q, e, s2)" for s1 s2 s' c t q e
    using peek_token [OF that(1) _ that(3)] that(2) by simp
  {
    case 1
    have "shorter (parsepipe n s) s" using Suc.IH(2) 1 by simp
    then show ?case
    proof (cases rule: shorter_cases)
      case (2 c s1)
      have "shorter (parseback n c s1) s1" using 1 2(2) by (intro shorter_leaf) simp
      then show ?thesis
      proof (cases rule: shorter_cases)
        case b: (2 d s2)
        obtain s3 p where p: "peek s2 [semi] = (s3, p)" by (cases "peek s2 [semi]")
        obtain t q e s4 where t: "gettoken s3 = (t, q, e, s4)" by (cases "gettoken s3") auto
        show ?thesis
        proof (cases p)
          case True
          then have l: "length s4 < length s" using tok [of s2 semi s3] p t b(2) 2(2) by (simp add: symbols_def)
          then have "shorter (parseline n s4) s4" using Suc.IH(1) 1 by simp
          then show ?thesis using True l 2(1) b(1) p t by (cases rule: shorter_cases) auto
        next
          case False
          then show ?thesis using 2 b p peek_len [OF p] by simp
        qed
      qed (simp add: 2)
    qed simp
  next
    case 2
    have "shorter (parseexec n s) s" using Suc.IH(3) 2 by simp
    then show ?case
    proof (cases rule: shorter_cases)
      case b: (2 c s1)
      obtain s2 p where p: "peek s1 [bar] = (s2, p)" by (cases "peek s1 [bar]")
      obtain t q e s3 where t: "gettoken s2 = (t, q, e, s3)" by (cases "gettoken s2") auto
      show ?thesis
      proof (cases p)
        case True
        then have l: "length s3 < length s" using tok [of s1 bar s2] p t b(2) by (simp add: symbols_def)
        then have "shorter (parsepipe n s3) s3" using Suc.IH(2) 2 by simp
        then show ?thesis using True l b(1) p t by (cases rule: shorter_cases) auto
      next
        case False
        then show ?thesis using b p peek_len [OF p] by simp
      qed
    qed simp
  next
    case 3
    obtain s1 p where p: "peek s [lpar] = (s1, p)" by (cases "peek s [lpar]")
    have l: "length s1 \<le> length s" by (rule peek_len [OF p])
    show ?case
    proof (cases p)
      case True
      have "shorter (parseblock n s1) s1" using Suc.IH(4) 3 l by simp
      then show ?thesis using shorter_trans l p True by auto
    next
      case False
      have "shorter (parseredirs n execcmd s1) s1" using 3 l by (intro shorter_leaf) simp
      then show ?thesis
      proof (cases rule: shorter_cases)
        case b: (2 c s2)
        have "shorter (parseargs n 0 c s2) s2" using 3 l b(2) by (intro shorter_leaf) simp
        then show ?thesis using p False b shorter_trans [of _ s2 s] l by simp
      qed (simp add: p False)
    qed
  next
    case 4
    obtain s1 p where p: "peek s [lpar] = (s1, p)" by (cases "peek s [lpar]")
    obtain t q e s2 where t: "gettoken s1 = (t, q, e, s2)" by (cases "gettoken s1") auto
    show ?case
    proof (cases p)
      case True
      then have l: "length s2 < length s" using tok [of s lpar s1] p t by (simp add: symbols_def)
      then have "shorter (parseline n s2) s2" using Suc.IH(1) 4 by simp
      then show ?thesis
      proof (cases rule: shorter_cases)
        case b: (2 c s3)
        obtain s4 p' where p': "peek s3 [rpar] = (s4, p')" by (cases "peek s3 [rpar]")
        obtain t' q' e' s5 where t': "gettoken s4 = (t', q', e', s5)" by (cases "gettoken s4") auto
        have l5: "length s5 < length s" using peek_len [OF p'] length_gettoken(1-3) [OF t'] b(2) l by simp
        have "shorter (parseredirs n c s5) s5" using 4 l5 by (intro shorter_leaf) simp
        then have "shorter (parseredirs n c s5) s" using shorter_trans l5 by simp
        then show ?thesis using p True t b p' t' by simp
      qed (simp add: p True t)
    qed (simp add: p)
  }
qed simp_all

text \<open>
  C22. The parser ends on every command line: the recursion of \<open>parseline\<close>, \<open>parsepipe\<close>, \<open>parseexec\<close> and
  \<open>parseblock\<close> always gives a tree or one of the shell's own error messages within the fuel that
  \<open>parsecmd\<close> computes from the length of the line.
\<close>

theorem parsecmd_terminates: "parsecmd s \<noteq> Inl PFuel"
  using parse_ends(1) [of s "parse_fuel s"]
  by (auto simp: parsecmd_def parse_fuel_def shorter_def split: sum.splits prod.splits)

subsection \<open>Printing command trees\<close>

text \<open>
  The tree a shell user means: words instead of pointers. \<open>texts\<close> reads the tokens of a parsed tree,
  \<open>strings\<close> reads the C strings its pointers denote in a buffer.
\<close>

datatype ast =
    AExec "u8 list list"
  | ARedir ast "u8 list" u32 nat
  | APipe ast ast
  | AList ast ast
  | ABack ast

definition cstr_at :: "u8 list \<Rightarrow> ptr \<Rightarrow> u8 list" where
  "cstr_at b q = takeWhile (\<lambda>c. c \<noteq> 0) (drop (length b - length q) b)"

fun strings :: "u8 list \<Rightarrow> cmd \<Rightarrow> ast" where
  "strings b (ExecCmd as) = AExec (map (\<lambda>(q, eq). cstr_at b q) as)"
| "strings b (RedirCmd c q eq mode fd) = ARedir (strings b c) (cstr_at b q) mode fd"
| "strings b (PipeCmd l r) = APipe (strings b l) (strings b r)"
| "strings b (ListCmd l r) = AList (strings b l) (strings b r)"
| "strings b (BackCmd c) = ABack (strings b c)"

fun texts :: "cmd \<Rightarrow> ast" where
  "texts (ExecCmd as) = AExec (map (\<lambda>(q, eq). takeWhile word_char q) as)"
| "texts (RedirCmd c q eq mode fd) = ARedir (texts c) (takeWhile word_char q) mode fd"
| "texts (PipeCmd l r) = APipe (texts l) (texts r)"
| "texts (ListCmd l r) = AList (texts l) (texts r)"
| "texts (BackCmd c) = ABack (texts c)"

abbreviation (input) sp :: u8 where "sp \<equiv> 0x20"

definition redir_sym :: "u32 \<Rightarrow> u8 list" where
  "redir_sym mode = (if mode = O_RDONLY then [lt] else if mode = (O_WRONLY OR O_CREATE OR O_TRUNC) then [gt] else [gt, gt])"

definition parens :: "bool \<Rightarrow> u8 list \<Rightarrow> u8 list" where
  "parens b s = (if b then [lpar] @ s @ [rpar] else s)"

text \<open>Level 0 is what \<open>parseexec\<close> reads, 1 \<open>parsepipe\<close>, 2 a command with its \<open>&\<close>, 3 \<open>parseline\<close>.\<close>

fun pr :: "nat \<Rightarrow> ast \<Rightarrow> u8 list" where
  "pr k (AExec ws) = concat (map (\<lambda>w. w @ [sp]) ws)"
| "pr k (ARedir c w mode fd) = pr 0 c @ redir_sym mode @ w @ [sp]"
| "pr k (APipe l r) = parens (k < 1) (pr 0 l @ [bar] @ pr 1 r)"
| "pr k (ABack c) = parens (k < 2) (pr 2 c @ [amp])"
| "pr k (AList l r) = parens (k < 3) (pr 2 l @ [semi] @ pr 3 r)"

definition wordp :: "u8 list \<Rightarrow> bool" where
  "wordp w \<longleftrightarrow> w \<noteq> [] \<and> (\<forall>c \<in> set w. word_char c \<and> c \<noteq> 0)"

fun wf_ast :: "ast \<Rightarrow> bool" where
  "wf_ast (AExec ws) \<longleftrightarrow> (\<forall>w \<in> set ws. wordp w) \<and> length ws < MAXARGS"
| "wf_ast (ARedir c w mode fd) \<longleftrightarrow> wf_ast c \<and> wordp w \<and>
     (mode, fd) \<in> {(O_RDONLY, 0), (O_WRONLY OR O_CREATE OR O_TRUNC, 1), (O_WRONLY OR O_CREATE, 1)}"
| "wf_ast (APipe l r) \<longleftrightarrow> wf_ast l \<and> wf_ast r"
| "wf_ast (AList l r) \<longleftrightarrow> wf_ast l \<and> wf_ast r"
| "wf_ast (ABack c) \<longleftrightarrow> wf_ast c"

subsection \<open>Terminating the tokens\<close>

fun toks :: "cmd \<Rightarrow> (ptr \<times> ptr) list" where
  "toks (ExecCmd as) = as"
| "toks (RedirCmd c q eq mode fd) = toks c @ [(q, eq)]"
| "toks (PipeCmd l r) = toks l @ toks r"
| "toks (ListCmd l r) = toks l @ toks r"
| "toks (BackCmd c) = toks c"

definition tok_ok :: "u8 list \<Rightarrow> ptr \<times> ptr \<Rightarrow> bool" where
  "tok_ok b = (\<lambda>(q, eq). suffix q b \<and> q \<noteq> [] \<and> word_char (hd q) \<and> eq = dropWhile word_char q)"

definition good :: "u8 list \<Rightarrow> cmd \<Rightarrow> bool" where
  "good b c \<longleftrightarrow> (\<forall>t \<in> set (toks c). tok_ok b t)"

lemma good_simps [simp]:
  "good b (ExecCmd as) \<longleftrightarrow> (\<forall>t \<in> set as. tok_ok b t)"
  "good b (RedirCmd c q eq mode fd) \<longleftrightarrow> good b c \<and> tok_ok b (q, eq)"
  "good b (PipeCmd l r) \<longleftrightarrow> good b l \<and> good b r" "good b (ListCmd l r) \<longleftrightarrow> good b l \<and> good b r"
  "good b (BackCmd c) \<longleftrightarrow> good b c"
  by (auto simp: good_def)

lemma length_put_nul [simp]: "length (put_nul p b) = length b"
  by (simp add: put_nul_def)

lemma nth_put_nul:
  "i < length b \<Longrightarrow> put_nul p b ! i = (if i = length b - length p then 0 else b ! i)"
  by (simp add: put_nul_def nth_list_update)

lemma fold_put_nul:
  "length (fold (\<lambda>(q, eq). put_nul eq) as b) = length b"
  "i < length b \<Longrightarrow> fold (\<lambda>(q, eq). put_nul eq) as b ! i =
     (if \<exists>(q, eq) \<in> set as. i = length b - length eq then 0 else b ! i)"
  by (induction as arbitrary: b) (auto simp: nth_put_nul)

lemma nulterminate_fold: "nulterminate c b = fold (\<lambda>(q, eq). put_nul eq) (toks c) b"
  by (induction c b rule: nulterminate.induct) simp_all

lemma suffix_nth: "suffix q b \<Longrightarrow> i < length q \<Longrightarrow> b ! (length b - length q + i) = q ! i"
  by (auto simp: suffix_def nth_append)

lemma eq_position:
  assumes "tok_ok b (q, eq)"
  shows "suffix eq b" "length eq < length q" "eq = [] \<or> \<not> word_char (hd eq)"
    "length q - length eq = length (takeWhile word_char q)"
proof -
  have q: "suffix q b" "q \<noteq> []" "word_char (hd q)" "eq = dropWhile word_char q" using assms by (simp_all add: tok_ok_def)
  show "suffix eq b" using q(1,4) suffix_dropWhile suffix_order.trans by blast
  show "length eq < length q"
    using q(2-4) length_dropWhile_le [of word_char "tl q"] by (cases q) auto
  show "eq = [] \<or> \<not> word_char (hd eq)" using hd_dropWhile [of word_char q] q(4) by blast
  show "length q - length eq = length (takeWhile word_char q)"
    using q(4) takeWhile_dropWhile_id [of word_char q] by (metis add_diff_cancel_right' length_append)
qed

lemma nul_free_token:
  assumes "tok_ok s (q, eq)" "tok_ok s (q', eq')" "i < length (takeWhile word_char q)"
  shows "length s - length q + i \<noteq> length s - length eq'"
proof
  assume e: "length s - length q + i = length s - length eq'"
  note p = eq_position [OF assms(1)] and p' = eq_position [OF assms(2)]
  have i: "i < length q" using assms(3) p(4) by simp
  have l: "length q \<le> length s" "length eq' \<le> length s"
    using assms(1) p'(1) suffix_length_le by (auto simp: tok_ok_def)
  have "word_char (q ! i)" using assms(3) by (metis nth_mem set_takeWhileD takeWhile_nth)
  moreover have "q ! i = s ! (length s - length eq')"
    using suffix_nth [of q s i] assms(1) i e by (simp add: tok_ok_def)
  moreover have "eq' \<noteq> []" using e i l by auto
  then have "s ! (length s - length eq') = hd eq'"
    using suffix_nth [OF p'(1), of 0] by (simp add: hd_conv_nth)
  ultimately show False using p'(3) \<open>eq' \<noteq> []\<close> by simp
qed

lemma cstr_at_token:
  assumes "good s c" "(q, eq) \<in> set (toks c)" "0 \<notin> set s"
  shows "cstr_at (nulterminate c s) q = takeWhile word_char q"
proof -
  let ?b = "nulterminate c s"
  let ?a = "length s - length q"
  let ?w = "takeWhile word_char q"
  have t: "tok_ok s (q, eq)" using assms(1,2) by (auto simp: good_def)
  note p = eq_position [OF t]
  have len: "length ?b = length s" unfolding nulterminate_fold by (rule fold_put_nul)
  have lq: "length q \<le> length s" "length ?w \<le> length q"
    using t suffix_length_le by (auto simp: tok_ok_def length_takeWhile_le)
  have nth: "?b ! i = (if \<exists>(q, eq) \<in> set (toks c). i = length s - length eq then 0 else s ! i)" if "i < length s" for i
    unfolding nulterminate_fold by (rule fold_put_nul(2) [OF that])
  have w: "?b ! (?a + i) = ?w ! i" "?w ! i \<noteq> 0" if "i < length ?w" for i
  proof -
    have il: "?a + i < length s" "i < length q" using that lq p(4) by auto
    have "\<not> (\<exists>(q, eq) \<in> set (toks c). ?a + i = length s - length eq)"
      using nul_free_token [OF t _ that] assms(1) by (auto simp: good_def)
    then have "?b ! (?a + i) = q ! i" using nth [OF il(1)] suffix_nth [of q s i] t il(2) by (simp add: tok_ok_def)
    then show "?b ! (?a + i) = ?w ! i" using that by (simp add: takeWhile_nth)
    have "set q \<subseteq> set s" using t set_mono_suffix by (auto simp: tok_ok_def)
    then have "?w ! i \<in> set s" using nth_mem [OF that] set_takeWhileD [of _ word_char q] by blast
    then show "?w ! i \<noteq> 0" using assms(3) by auto
  qed
  have split: "drop ?a ?b = ?w @ drop (?a + length ?w) ?b"
  proof (rule nth_equalityI)
    show "length (drop ?a ?b) = length (?w @ drop (?a + length ?w) ?b)" using len lq by simp
    show "drop ?a ?b ! i = (?w @ drop (?a + length ?w) ?b) ! i" if "i < length (drop ?a ?b)" for i
      using that w(1) [of i] len lq by (auto simp: nth_append)
  qed
  have "drop (?a + length ?w) ?b = [] \<or> hd (drop (?a + length ?w) ?b) = 0"
  proof (cases "?a + length ?w < length s")
    case True
    then have "?a + length ?w = length s - length eq" using p(2,4) lq by simp
    then have "?b ! (?a + length ?w) = 0" using nth [OF True] assms(2) by auto
    then show ?thesis using True len by (simp add: hd_drop_conv_nth)
  qed (simp add: len)
  then have "takeWhile (\<lambda>c. c \<noteq> 0) (drop (?a + length ?w) ?b) = []" by (cases "drop (?a + length ?w) ?b") auto
  moreover have "\<forall>c \<in> set ?w. c \<noteq> 0" using w(2) by (metis in_set_conv_nth)
  ultimately have "takeWhile (\<lambda>c. c \<noteq> 0) (?w @ drop (?a + length ?w) ?b) = ?w" by (simp add: takeWhile_append)
  then show ?thesis unfolding cstr_at_def len split by simp
qed

lemma strings_texts:
  assumes "good s c" "0 \<notin> set s"
  shows "strings (nulterminate c s) c = texts c"
proof -
  have "strings (nulterminate c s) d = texts d" if "set (toks d) \<subseteq> set (toks c)" for d
    using that
  proof (induction d)
    case (ExecCmd as)
    then have "cstr_at (nulterminate c s) q = takeWhile word_char q" if "(q, eq) \<in> set as" for q eq
      using cstr_at_token [OF assms(1) _ assms(2), of q eq] that by auto
    then show ?case by auto
  next
    case (RedirCmd d q eq m f)
    then show ?case using cstr_at_token [OF assms(1) _ assms(2), of q eq] by auto
  qed auto
  then show ?thesis by simp
qed

subsection \<open>The tokens of a parsed tree\<close>

lemma suffix_skip: "suffix s b \<Longrightarrow> suffix (skip_ws s) b"
  unfolding skip_ws_def using suffix_dropWhile suffix_order.trans by blast

lemma suffix_token_at: "suffix (snd (token_at q)) q"
proof (cases q)
  case (Cons c r)
  have "suffix (tl r) (c # r)" by (cases r) (auto simp: suffix_ConsI)
  moreover have "suffix r (c # r)" by (simp add: suffix_ConsI)
  moreover have "suffix (dropWhile word_char (c # r)) (c # r)" by (rule suffix_dropWhile)
  ultimately show ?thesis unfolding Cons by (auto simp del: dropWhile.simps)
qed simp

lemma gettoken_suffix:
  assumes "gettoken s = (t, q, eq, s')" "suffix s b"
  shows "suffix s' b" "t = word_ch \<Longrightarrow> tok_ok b (q, eq)"
proof -
  have e: "q = skip_ws s" "eq = snd (token_at q)" "t = fst (token_at q)" "s' = skip_ws eq"
    using assms(1) by (auto simp: gettoken_eq)
  have q: "suffix q b" unfolding e(1) by (rule suffix_skip [OF assms(2)])
  then show "suffix s' b" unfolding e(4) using suffix_token_at [of q] e(2) suffix_order.trans by (blast intro: suffix_skip)
  show "tok_ok b (q, eq)" if "t = word_ch"
  proof (cases q)
    case (Cons c r)
    have "c \<notin> {bar, lpar, rpar, semi, amp, lt}" "c \<noteq> gt" "c \<noteq> 0" using that e(3) Cons by (auto split: if_splits)
    moreover from this have "word_char c"
      using skip_ws_Cons [of s c r] e(1) Cons by (simp add: word_char_def symbols_def)
    ultimately show ?thesis using q e(2) Cons by (simp add: tok_ok_def)
  qed (use that e(3) in simp)
qed

lemma peek_suffix: "peek s cs = (s', p) \<Longrightarrow> suffix s b \<Longrightarrow> suffix s' b"
  using suffix_skip by (auto simp: peek_def Let_def)

definition gok :: "u8 list \<Rightarrow> (perr + cmd \<times> ptr) \<Rightarrow> bool" where
  "gok b r \<longleftrightarrow> (\<forall>c s. r = Inr (c, s) \<longrightarrow> good b c \<and> suffix s b)"

lemma gok_simps [simp]: "gok b (Inl e)" "gok b (Inr (c, s)) \<longleftrightarrow> good b c \<and> suffix s b"
  by (auto simp: gok_def)

lemma gok_cases:
  assumes "gok b r"
  obtains e where "r = Inl e" | c s where "r = Inr (c, s)" "good b c" "suffix s b"
  using assms by (cases r) (auto simp: gok_def)

lemma good_redirect: "good b c \<Longrightarrow> tok_ok b (q, eq) \<Longrightarrow> good b (redirect tok c q eq)"
  by (simp add: redirect_def redircmd_def)

lemma good_add_arg: "good b c \<Longrightarrow> tok_ok b a \<Longrightarrow> good b (add_arg a c)"
  by (induction a c rule: add_arg.induct) auto

lemma gok_parseredirs: "good b c \<Longrightarrow> suffix s b \<Longrightarrow> gok b (parseredirs n c s)"
proof (induction n arbitrary: c s)
  case (Suc n)
  obtain s1 p where p: "peek s [lt, gt] = (s1, p)" by (cases "peek s [lt, gt]")
  obtain t a e s2 where t: "gettoken s1 = (t, a, e, s2)" by (cases "gettoken s1") auto
  obtain w q eq s3 where w: "gettoken s2 = (w, q, eq, s3)" by (cases "gettoken s2") auto
  have s1: "suffix s1 b" by (rule peek_suffix [OF p Suc.prems(2)])
  note s2 = gettoken_suffix(1) [OF t s1]
  note s3 = gettoken_suffix [OF w s2]
  show ?case using p t w s1 Suc.prems(1) Suc.IH s3 good_redirect by simp
qed simp

lemma gok_parseargs: "good b c \<Longrightarrow> suffix s b \<Longrightarrow> gok b (parseargs n k c s)"
proof (induction n arbitrary: k c s)
  case (Suc n)
  obtain s1 p where p: "peek s [bar, rpar, amp, semi] = (s1, p)" by (cases "peek s [bar, rpar, amp, semi]")
  obtain t q eq s2 where t: "gettoken s1 = (t, q, eq, s2)" by (cases "gettoken s1") auto
  have s1: "suffix s1 b" by (rule peek_suffix [OF p Suc.prems(2)])
  note s2 = gettoken_suffix [OF t s1]
  show ?case
  proof (cases "t = word_ch")
    case True
    have "gok b (parseredirs n (add_arg (q, eq) c) s2)"
      using s2(2) [OF True] s2(1) Suc.prems(1) by (intro gok_parseredirs good_add_arg)
    then show ?thesis using p t True s1 Suc.prems(1) Suc.IH by (cases rule: gok_cases) auto
  next
    case False
    then show ?thesis using p t s1 s2(1) Suc.prems(1) by simp
  qed
qed simp

lemma gok_parseback: "good b c \<Longrightarrow> suffix s b \<Longrightarrow> gok b (parseback n c s)"
proof (induction n arbitrary: c s)
  case (Suc n)
  obtain s1 p where p: "peek s [amp] = (s1, p)" by (cases "peek s [amp]")
  obtain t q eq s2 where t: "gettoken s1 = (t, q, eq, s2)" by (cases "gettoken s1") auto
  have s1: "suffix s1 b" by (rule peek_suffix [OF p Suc.prems(2)])
  show ?case using p t s1 gettoken_suffix(1) [OF t s1] Suc.prems(1) Suc.IH by (simp add: backcmd_def)
qed simp

lemma gok_parse:
  "suffix s b \<Longrightarrow> gok b (parseline n s)" "suffix s b \<Longrightarrow> gok b (parsepipe n s)"
  "suffix s b \<Longrightarrow> gok b (parseexec n s)" "suffix s b \<Longrightarrow> gok b (parseblock n s)"
proof (induction n arbitrary: s)
  case (Suc n)
  {
    case 1
    have "gok b (parsepipe n s)" by (rule Suc.IH(2) [OF 1])
    then show ?case
    proof (cases rule: gok_cases)
      case (2 c s1)
      have "gok b (parseback n c s1)" by (rule gok_parseback [OF 2(2,3)])
      then show ?thesis
      proof (cases rule: gok_cases)
        case c: (2 d s2)
        obtain s3 p where p: "peek s2 [semi] = (s3, p)" by (cases "peek s2 [semi]")
        obtain t q e s4 where t: "gettoken s3 = (t, q, e, s4)" by (cases "gettoken s3") auto
        have s3: "suffix s3 b" by (rule peek_suffix [OF p c(3)])
        have "gok b (parseline n s4)" by (rule Suc.IH(1) [OF gettoken_suffix(1) [OF t s3]])
        then show ?thesis using 2 c p t s3 by (cases rule: gok_cases) (auto simp: listcmd_def)
      qed (simp add: 2)
    qed simp
  next
    case 2
    have "gok b (parseexec n s)" by (rule Suc.IH(3) [OF 2])
    then show ?case
    proof (cases rule: gok_cases)
      case c: (2 d s2)
      obtain s3 p where p: "peek s2 [bar] = (s3, p)" by (cases "peek s2 [bar]")
      obtain t q e s4 where t: "gettoken s3 = (t, q, e, s4)" by (cases "gettoken s3") auto
      have s3: "suffix s3 b" by (rule peek_suffix [OF p c(3)])
      have "gok b (parsepipe n s4)" by (rule Suc.IH(2) [OF gettoken_suffix(1) [OF t s3]])
      then show ?thesis using c p t s3 by (cases rule: gok_cases) (auto simp: pipecmd_def)
    qed simp
  next
    case 3
    obtain s1 p where p: "peek s [lpar] = (s1, p)" by (cases "peek s [lpar]")
    have s1: "suffix s1 b" by (rule peek_suffix [OF p 3])
    have "gok b (parseredirs n execcmd s1)" by (rule gok_parseredirs [OF _ s1]) (simp add: execcmd_def)
    then show ?case
      using p Suc.IH(4) [OF s1] gok_parseargs by (cases rule: gok_cases) auto
  next
    case 4
    obtain s1 p where p: "peek s [lpar] = (s1, p)" by (cases "peek s [lpar]")
    obtain t q e s2 where t: "gettoken s1 = (t, q, e, s2)" by (cases "gettoken s1") auto
    have s1: "suffix s1 b" by (rule peek_suffix [OF p 4])
    have "gok b (parseline n s2)" by (rule Suc.IH(1) [OF gettoken_suffix(1) [OF t s1]])
    then show ?case
    proof (cases rule: gok_cases)
      case c: (2 c s3)
      obtain s4 p' where p': "peek s3 [rpar] = (s4, p')" by (cases "peek s3 [rpar]")
      obtain t' q' e' s5 where t': "gettoken s4 = (t', q', e', s5)" by (cases "gettoken s4") auto
      have s4: "suffix s4 b" by (rule peek_suffix [OF p' c(3)])
      have "gok b (parseredirs n c s5)" by (rule gok_parseredirs [OF c(2) gettoken_suffix(1) [OF t' s4]])
      then show ?thesis using p t c(1) p' t' by simp
    qed (simp add: p t)
  }
qed simp_all

text \<open>
  C23. The NULs that \<open>nulterminate\<close> writes cut the line exactly into its tokens: after \<open>parsecmd\<close> every
  pointer of the tree denotes, as a C string in the modified buffer, the whole token it was set to
  and nothing more, whatever follows the token in the line.
\<close>

theorem nulterminate_cuts_tokens:
  assumes "parsecmd s = Inr (c, b)" "0 \<notin> set s"
  shows "strings b c = texts c"
proof -
  obtain r where r: "parseline (parse_fuel s) s = Inr (c, r)" "b = nulterminate c s"
    using assms(1) by (auto simp: parsecmd_def split: sum.splits prod.splits if_splits)
  have "good s c" using gok_parse(1) [of s s "parse_fuel s"] r(1) by simp
  then show ?thesis unfolding r(2) by (rule strings_texts [OF _ assms(2)])
qed

theorem nulterminate_cuts_tokens_witness:
  "parsecmd [97, 98, gt, 99] = Inr (RedirCmd (ExecCmd [([97, 98, gt, 99], [gt, 99])]) [99] [] 0x601 1, [97, 98, 0, 99]) \<and>
   strings [97, 98, 0, 99] (RedirCmd (ExecCmd [([97, 98, gt, 99], [gt, 99])]) [99] [] 0x601 1) =
     ARedir (AExec [[97, 98]]) [99] 0x601 1"
proof -
  have p: "parsecmd [97, 98, gt, 99] =
      Inr (RedirCmd (ExecCmd [([97, 98, gt, 99], [gt, 99])]) [99] [] 0x601 1, [97, 98, 0, 99])"
    by code_simp
  show ?thesis using nulterminate_cuts_tokens [OF p] p by (simp add: word_char_def whitespace_def symbols_def)
qed

end
