(* ===== verification/User_Sh_Print.thy ===== *)
theory User_Sh_Print
  imports User_Sh
begin

text \<open>
  Every command tree with legal words can be written as a command line that the parser of
  \<open>user/sh.c\<close> reads back as that tree. The claims \<open>Ecl\<close> to \<open>Lcl\<close> say of a string that one of the four
  parsing functions reads it as a given tree, whatever legal text follows.
\<close>

subsection \<open>Tokens of printed text\<close>

lemma skip_simps [simp]:
  "skip_ws [] = []" "skip_ws (sp # s) = skip_ws s" "skip_ws (lt # s) = lt # s" "skip_ws (gt # s) = gt # s"
  "skip_ws (bar # s) = bar # s" "skip_ws (amp # s) = amp # s" "skip_ws (semi # s) = semi # s"
  "skip_ws (lpar # s) = lpar # s" "skip_ws (rpar # s) = rpar # s"
  by (simp_all add: skip_ws_def whitespace_def)

lemma skip_word: "wordp w \<Longrightarrow> skip_ws (w @ s) = w @ s"
  by (cases w) (auto simp: skip_ws_def wordp_def word_char_def)

lemma gettoken_skip [simp]: "gettoken (skip_ws s) = gettoken s"
  by (simp add: gettoken_eq)

lemma peek_skip [simp]: "peek (skip_ws s) cs = peek s cs"
  by (simp add: peek_def)

lemma takeWhile_word: "wordp w \<Longrightarrow> takeWhile word_char (w @ sp # r) = w"
  by (simp add: wordp_def takeWhile_append word_char_def whitespace_def)

lemma gettoken_word: "wordp w \<Longrightarrow> gettoken (w @ sp # r) = (word_ch, w @ sp # r, sp # r, skip_ws r)"
proof -
  assume w: "wordp w"
  then obtain c v where cv: "w = c # v" by (cases w) (auto simp: wordp_def)
  have c: "word_char c" "c \<noteq> 0" using w cv by (simp_all add: wordp_def)
  have "\<forall>c \<in> set w. word_char c" "\<not> word_char sp" using w by (simp_all add: wordp_def word_char_def whitespace_def)
  then have "dropWhile word_char (w @ sp # r) = sp # r" by simp
  moreover have "c \<notin> {bar, lpar, rpar, semi, amp, lt}" "c \<noteq> gt" using c(1) by (auto simp: word_char_def symbols_def)
  ultimately have "token_at (w @ sp # r) = (word_ch, sp # r)" using c cv by simp
  then show ?thesis using skip_word [OF w] by (simp add: gettoken_eq)
qed

lemma gettoken_sym: "c \<in> {bar, lpar, rpar, semi, amp, lt} \<Longrightarrow> gettoken (c # r) = (c, c # r, r, skip_ws r)"
  by (auto simp: gettoken_eq)

lemma peek_word: "wordp w \<Longrightarrow> set cs \<subseteq> set symbols \<Longrightarrow> peek (w @ s) cs = (w @ s, False)"
  using skip_word [of w s] by (cases w) (auto simp: peek_def Let_def wordp_def word_char_def)

lemma parse_skip:
  "parseredirs n c (skip_ws s) = parseredirs n c s" "parseback n c (skip_ws s) = parseback n c s"
  "parseexec n (skip_ws s) = parseexec n s" "parsepipe n (skip_ws s) = parsepipe n s"
  "parseline n (skip_ws s) = parseline n s"
proof -
  show e: "parseexec n (skip_ws s) = parseexec n s" for n by (cases n) simp_all
  show p: "parsepipe n (skip_ws s) = parsepipe n s" for n by (cases n) (simp_all add: e)
  show "parseline n (skip_ws s) = parseline n s" by (cases n) (simp_all add: p)
  show "parseredirs n c (skip_ws s) = parseredirs n c s" "parseback n c (skip_ws s) = parseback n c s"
    by (cases n; simp)+
qed

subsection \<open>Redirections and arguments\<close>

definition follow :: "u8 list \<Rightarrow> ptr \<Rightarrow> bool" where
  "follow cs post \<longleftrightarrow> skip_ws post = [] \<or> hd (skip_ws post) \<in> set cs"

lemma follow_peek:
  "follow cs post \<Longrightarrow> set ds \<inter> set cs = {} \<Longrightarrow> peek post ds = (skip_ws post, False)"
  by (auto simp: follow_def peek_def Let_def)

type_synonym redir = "u8 list \<times> u32 \<times> nat"

definition redir_ok :: "redir \<Rightarrow> bool" where
  "redir_ok = (\<lambda>(w, m, d). wordp w \<and>
     (m, d) \<in> {(O_RDONLY, 0), (O_WRONLY OR O_CREATE OR O_TRUNC, 1), (O_WRONLY OR O_CREATE, 1)})"

definition pr_redir :: "redir \<Rightarrow> u8 list" where
  "pr_redir = (\<lambda>(w, m, d). redir_sym m @ w @ [sp])"

definition add_redirs :: "ast \<Rightarrow> redir list \<Rightarrow> ast" where
  "add_redirs t rs = foldl (\<lambda>a (w, m, d). ARedir a w m d) t rs"

lemma add_redirs_simps [simp]: "add_redirs t [] = t" "add_redirs t ((w, m, d) # rs) = add_redirs (ARedir t w m d) rs"
  by (simp_all add: add_redirs_def)

lemma redir_token:
  assumes "redir_ok (w, m, d)"
  obtains tok where "gettoken (pr_redir (w, m, d) @ r) = (tok, pr_redir (w, m, d) @ r, w @ sp # r, w @ sp # r)"
    "peek (pr_redir (w, m, d) @ r) [lt, gt] = (pr_redir (w, m, d) @ r, True)"
    "\<And>c q eq. redirect tok c q eq = RedirCmd c q eq m d"
proof -
  have w: "wordp w" using assms by (simp add: redir_ok_def)
  have hd: "w \<noteq> []" "hd w \<noteq> gt" using w by (cases w; auto simp: wordp_def word_char_def symbols_def)+
  have sk: "skip_ws (w @ sp # r) = w @ sp # r" by (rule skip_word [OF w])
  have f: "(O_WRONLY OR O_CREATE OR O_TRUNC :: u32) \<noteq> O_RDONLY" "(O_WRONLY OR O_CREATE :: u32) \<noteq> O_RDONLY"
      "(O_WRONLY OR O_CREATE :: u32) \<noteq> (O_WRONLY OR O_CREATE OR O_TRUNC)"
    by (simp_all add: O_WRONLY_def O_CREATE_def O_TRUNC_def O_RDONLY_def)
  consider "m = O_RDONLY" "d = 0" | "m = (O_WRONLY OR O_CREATE OR O_TRUNC)" "d = 1" | "m = (O_WRONLY OR O_CREATE)" "d = 1"
    using assms by (auto simp: redir_ok_def)
  then show ?thesis
  proof cases
    case 1
    then show ?thesis
      using sk by (intro that [of lt]) (simp_all add: pr_redir_def redir_sym_def gettoken_eq peek_def redirect_def redircmd_def)
  next
    case 2
    then show ?thesis
      using sk hd f by (intro that [of gt]) (simp_all add: pr_redir_def redir_sym_def gettoken_eq peek_def redirect_def redircmd_def)
  next
    case 3
    then show ?thesis
      using sk f by (intro that [of plus_ch]) (simp_all add: pr_redir_def redir_sym_def gettoken_eq peek_def redirect_def redircmd_def)
  qed
qed

lemma parseredirs_print:
  assumes "\<forall>r \<in> set rs. redir_ok r" "peek post [lt, gt] = (skip_ws post, False)" "length rs < n"
  shows "\<exists>c'. parseredirs n c (concat (map pr_redir rs) @ post) = Inr (c', skip_ws post) \<and> texts c' = add_redirs (texts c) rs"
  using assms(1,3)
proof (induction rs arbitrary: n c)
  case Nil
  then show ?case using assms(2) by (cases n) simp_all
next
  case (Cons r rs)
  obtain w m d where r: "r = (w, m, d)" by (cases r)
  obtain k where n: "n = Suc k" "length rs < k" using Cons.prems(2) by (cases n) auto
  let ?s = "concat (map pr_redir rs) @ post"
  have ok: "redir_ok (w, m, d)" and w: "wordp w" using Cons.prems(1) r by (simp_all add: redir_ok_def)
  obtain tok where tok: "gettoken (pr_redir (w, m, d) @ ?s) = (tok, pr_redir (w, m, d) @ ?s, w @ sp # ?s, w @ sp # ?s)"
      "peek (pr_redir (w, m, d) @ ?s) [lt, gt] = (pr_redir (w, m, d) @ ?s, True)"
      "\<And>c q eq. redirect tok c q eq = RedirCmd c q eq m d"
    by (rule redir_token [OF ok, of ?s]) blast
  have "parseredirs n c (concat (map pr_redir (r # rs)) @ post) =
      parseredirs k (RedirCmd c (w @ sp # ?s) (sp # ?s) m d) ?s"
    using tok gettoken_word [OF w, of ?s] unfolding n(1) r by (simp add: parse_skip)
  moreover obtain c' where "parseredirs k (RedirCmd c (w @ sp # ?s) (sp # ?s) m d) ?s = Inr (c', skip_ws post)"
      "texts c' = add_redirs (texts (RedirCmd c (w @ sp # ?s) (sp # ?s) m d)) rs"
    using Cons.IH [of k "RedirCmd c (w @ sp # ?s) (sp # ?s) m d"] Cons.prems(1) n(2) by auto
  ultimately show ?case using takeWhile_word [OF w, of ?s] r by simp
qed

abbreviation (input) redirs_args :: "nat \<Rightarrow> nat \<Rightarrow> cmd \<Rightarrow> ptr \<Rightarrow> perr + cmd \<times> ptr" where
  "redirs_args n k c s \<equiv> (case parseredirs n c s of Inl e \<Rightarrow> Inl e | Inr (c, s) \<Rightarrow> parseargs n k c s)"

lemma args_print:
  assumes "\<forall>w \<in> set ws. wordp w" "\<forall>r \<in> set rs. redir_ok r" "follow [bar, rpar, amp, semi] post"
    and "length as + length ws < MAXARGS" "length ws + length rs < n"
  shows "\<exists>c. redirs_args n (length as) (ExecCmd as) (concat (map (\<lambda>w. w @ [sp]) ws) @ concat (map pr_redir rs) @ post)
      = Inr (c, skip_ws post) \<and>
    texts c = add_redirs (AExec (map (\<lambda>(q, eq). takeWhile word_char q) as @ ws)) rs"
  using assms(1,4,5)
proof (induction ws arbitrary: n as)
  case Nil
  obtain c where c: "parseredirs n (ExecCmd as) (concat (map pr_redir rs) @ post) = Inr (c, skip_ws post)"
      "texts c = add_redirs (texts (ExecCmd as)) rs"
    using parseredirs_print [OF assms(2) follow_peek [OF assms(3)], of n "ExecCmd as"] Nil.prems(3) by auto
  obtain k where n: "n = Suc k" using Nil.prems(3) by (cases n) auto
  have "parseargs n (length as) c (skip_ws post) = Inr (c, skip_ws post)"
    using assms(3) unfolding n by (cases "skip_ws post") (auto simp: peek_def follow_def gettoken_eq)
  then show ?case using c by simp
next
  case (Cons w ws)
  define s where "s = concat (map (\<lambda>w. w @ [sp]) ws) @ concat (map pr_redir rs) @ post"
  let ?as = "as @ [(w @ sp # s, sp # s)]"
  have w: "wordp w" using Cons.prems(1) by simp
  obtain k where n: "n = Suc k" "length ws + length rs < k" using Cons.prems(3) by (cases n) auto
  have sym: "set [lt, gt] \<subseteq> set symbols" "set [bar, rpar, amp, semi] \<subseteq> set symbols" by (simp_all add: symbols_def)
  have step: "redirs_args n (length as) (ExecCmd as) (w @ sp # s) = redirs_args k (Suc (length as)) (ExecCmd ?as) s"
    using peek_word [OF w sym(1)] peek_word [OF w sym(2)] gettoken_word [OF w] Cons.prems(2)
    unfolding n(1) by (simp add: parse_skip)
  have "\<forall>w \<in> set ws. wordp w" "length ?as + length ws < MAXARGS" using Cons.prems(1,2) by simp_all
  from Cons.IH [OF this n(2), folded s_def] obtain c where c: "redirs_args k (length ?as) (ExecCmd ?as) s = Inr (c, skip_ws post)"
      "texts c = add_redirs (AExec (map (\<lambda>(q, eq). takeWhile word_char q) ?as @ ws)) rs"
    by blast
  have "texts c = add_redirs (AExec (map (\<lambda>(q, eq). takeWhile word_char q) as @ w # ws)) rs"
    using c(2) takeWhile_word [OF w, of s] by simp
  moreover have "concat (map (\<lambda>w. w @ [sp]) (w # ws)) @ concat (map pr_redir rs) @ post = w @ sp # s" by (simp add: s_def)
  moreover have "redirs_args k (Suc (length as)) (ExecCmd ?as) s = Inr (c, skip_ws post)"
    using c(1) unfolding length_append_singleton .
  ultimately show ?case using step by metis
qed

subsection \<open>The four levels\<close>

definition Ecl :: "u8 list \<Rightarrow> ast \<Rightarrow> bool" where
  "Ecl x t \<longleftrightarrow> (\<forall>post n. follow [bar, rpar, amp, semi] post \<and> 4 * length (x @ post) + 2 \<le> n \<longrightarrow>
     (\<exists>c. parseexec n (x @ post) = Inr (c, skip_ws post) \<and> texts c = t))"

definition Pcl :: "u8 list \<Rightarrow> ast \<Rightarrow> bool" where
  "Pcl x t \<longleftrightarrow> (\<forall>post n. follow [rpar, amp, semi] post \<and> 4 * length (x @ post) + 3 \<le> n \<longrightarrow>
     (\<exists>c. parsepipe n (x @ post) = Inr (c, skip_ws post) \<and> texts c = t))"

definition Bcl :: "u8 list \<Rightarrow> ast \<Rightarrow> bool" where
  "Bcl x t \<longleftrightarrow> (\<forall>post n. follow [rpar, semi] post \<and> 4 * length (x @ post) + 3 \<le> n \<longrightarrow>
     (\<exists>c d s. parsepipe n (x @ post) = Inr (c, s) \<and> parseback n c s = Inr (d, skip_ws post) \<and> texts d = t))"

definition Lcl :: "u8 list \<Rightarrow> ast \<Rightarrow> bool" where
  "Lcl x t \<longleftrightarrow> (\<forall>post n. follow [rpar] post \<and> 4 * length (x @ post) + 4 \<le> n \<longrightarrow>
     (\<exists>c. parseline n (x @ post) = Inr (c, skip_ws post) \<and> texts c = t))"

lemma follow_mono: "follow cs post \<Longrightarrow> set cs \<subseteq> set ds \<Longrightarrow> follow ds post"
  by (auto simp: follow_def)

lemma length_concat_ge: "\<forall>x \<in> set xs. f x \<noteq> [] \<Longrightarrow> length xs \<le> length (concat (map f xs))"
  by (induction xs) (auto simp: Suc_le_eq neq_Nil_conv)

lemma length_redirs: "length rs \<le> length (concat (map pr_redir rs))"
  by (rule length_concat_ge) (auto simp: pr_redir_def redir_sym_def)

lemma length_words: "length ws \<le> length (concat (map (\<lambda>w. w @ [sp]) ws))"
  by (rule length_concat_ge) simp

lemma redirs_no_paren:
  assumes "follow [bar, rpar, amp, semi] post"
  shows "peek (concat (map pr_redir rs) @ post) [lpar] = (skip_ws (concat (map pr_redir rs) @ post), False)"
proof (cases rs)
  case Nil
  then show ?thesis using follow_peek [OF assms, of "[lpar]"] by simp
next
  case (Cons r rs')
  obtain w m d where "r = (w, m, d)" by (cases r)
  then show ?thesis unfolding Cons by (simp add: pr_redir_def redir_sym_def peek_def)
qed

lemma Ecl_exec:
  assumes "wf_ast (AExec ws)" "\<forall>r \<in> set rs. redir_ok r"
  shows "Ecl (pr 0 (AExec ws) @ concat (map pr_redir rs)) (add_redirs (AExec ws) rs)"
  unfolding Ecl_def
proof (intro allI impI)
  fix post n
  let ?s = "concat (map (\<lambda>w. w @ [sp]) ws) @ concat (map pr_redir rs) @ post"
  assume a: "follow [bar, rpar, amp, semi] post \<and> 4 * length ((pr 0 (AExec ws) @ concat (map pr_redir rs)) @ post) + 2 \<le> n"
  then obtain k where n: "n = Suc k" "4 * length ?s + 1 \<le> k" by (cases n) auto
  have words: "\<forall>w \<in> set ws. wordp w" "length ws < MAXARGS" using assms(1) by simp_all
  have "peek ?s [lpar] = (skip_ws ?s, False)"
  proof (cases ws)
    case Nil
    then show ?thesis using redirs_no_paren a by simp
  next
    case (Cons w ws')
    then show ?thesis using peek_word [of w "[lpar]"] skip_word [of w] words(1) by (simp add: symbols_def)
  qed
  then have "parseexec n ?s = redirs_args k 0 (ExecCmd []) ?s" unfolding n(1) by (simp add: execcmd_def parse_skip)
  moreover have "length ws + length rs < k" using n(2) length_words [of ws] length_redirs [of rs] by simp
  ultimately show "\<exists>c. parseexec n ((pr 0 (AExec ws) @ concat (map pr_redir rs)) @ post) = Inr (c, skip_ws post) \<and>
      texts c = add_redirs (AExec ws) rs"
    using args_print [OF words(1) assms(2) conjunct1 [OF a], of "[]" k, unfolded list.size(3)] words(2) by simp
qed

lemma Ecl_block:
  assumes "Lcl x t" "\<forall>r \<in> set rs. redir_ok r"
  shows "Ecl (parens True x @ concat (map pr_redir rs)) (add_redirs t rs)"
  unfolding Ecl_def
proof (intro allI impI)
  fix post n
  let ?r = "concat (map pr_redir rs) @ post"
  assume a: "follow [bar, rpar, amp, semi] post \<and> 4 * length ((parens True x @ concat (map pr_redir rs)) @ post) + 2 \<le> n"
  define k where "k = n - 2"
  have n: "n = Suc (Suc k)" "4 * length (x @ rpar # ?r) + 4 \<le> k"
    using conjunct2 [OF a] by (simp_all add: parens_def k_def)
  have "follow [rpar] (rpar # ?r)" by (simp add: follow_def)
  then obtain c where c: "parseline k (x @ rpar # ?r) = Inr (c, rpar # ?r)" "texts c = t"
    using assms(1) n(2) unfolding Lcl_def by fastforce
  have p: "peek post [lt, gt] = (skip_ws post, False)" by (rule follow_peek [OF conjunct1 [OF a]]) simp
  obtain d where "parseredirs k c ?r = Inr (d, skip_ws post)" "texts d = add_redirs t rs"
    using parseredirs_print [OF assms(2) p, of k c] n(2) length_redirs [of rs] c(2) by auto
  then show "\<exists>c. parseexec n ((parens True x @ concat (map pr_redir rs)) @ post) = Inr (c, skip_ws post) \<and> texts c = add_redirs t rs"
    unfolding n(1) using c(1) by (simp add: parens_def peek_def gettoken_sym parse_skip)
qed

lemma Pcl_exec: "Ecl x t \<Longrightarrow> Pcl x t"
  unfolding Pcl_def
proof (intro allI impI)
  fix post n
  assume e: "Ecl x t" and a: "follow [rpar, amp, semi] post \<and> 4 * length (x @ post) + 3 \<le> n"
  then obtain k where n: "n = Suc k" "4 * length (x @ post) + 2 \<le> k" by (cases n) auto
  have "follow [bar, rpar, amp, semi] post" using a follow_mono by fastforce
  then obtain c where "parseexec k (x @ post) = Inr (c, skip_ws post)" "texts c = t" using e n(2) unfolding Ecl_def by blast
  then show "\<exists>c. parsepipe n (x @ post) = Inr (c, skip_ws post) \<and> texts c = t"
    using follow_peek [OF conjunct1 [OF a], of "[bar]"] unfolding n(1) by simp
qed

lemma Pcl_pipe: "Ecl x l \<Longrightarrow> Pcl y r \<Longrightarrow> Pcl (x @ [bar] @ y) (APipe l r)"
  unfolding Pcl_def [of "x @ [bar] @ y"]
proof (intro allI impI)
  fix post n
  assume e: "Ecl x l" "Pcl y r" and a: "follow [rpar, amp, semi] post \<and> 4 * length ((x @ [bar] @ y) @ post) + 3 \<le> n"
  then obtain k where n: "n = Suc k" "4 * length (x @ bar # y @ post) + 2 \<le> k" by (cases n) auto
  have "follow [bar, rpar, amp, semi] (bar # y @ post)" by (simp add: follow_def)
  then obtain c where c: "parseexec k (x @ bar # y @ post) = Inr (c, bar # y @ post)" "texts c = l"
    using e(1) n(2) unfolding Ecl_def by fastforce
  have "4 * length (y @ post) + 3 \<le> k" using n(2) by simp
  then obtain d where d: "parsepipe k (y @ post) = Inr (d, skip_ws post)" "texts d = r"
    using e(2) a unfolding Pcl_def by blast
  show "\<exists>c. parsepipe n ((x @ [bar] @ y) @ post) = Inr (c, skip_ws post) \<and> texts c = APipe l r"
    unfolding n(1) using c d by (simp add: peek_def gettoken_sym parse_skip pipecmd_def)
qed

lemma parseback_print:
  assumes "follow [rpar, semi] post"
  shows "k < n \<Longrightarrow> \<exists>d. parseback n c (replicate k amp @ post) = Inr (d, skip_ws post) \<and> texts d = (ABack ^^ k) (texts c)"
proof (induction k arbitrary: n c)
  case 0
  then show ?case using follow_peek [OF assms, of "[amp]"] by (cases n) simp_all
next
  case (Suc k)
  obtain m where n: "n = Suc m" "k < m" using Suc.prems by (cases n) auto
  show ?case using Suc.IH [OF n(2), of "BackCmd c"] unfolding n(1)
    by (simp add: peek_def gettoken_sym backcmd_def parse_skip funpow_swap1)
qed

lemma Bcl_back:
  assumes "Pcl x t"
  shows "Bcl (x @ replicate k amp) ((ABack ^^ k) t)"
  unfolding Bcl_def
proof (intro allI impI)
  fix post n
  let ?p = "replicate k amp @ post"
  assume a: "follow [rpar, semi] post \<and> 4 * length ((x @ replicate k amp) @ post) + 3 \<le> n"
  have "follow [rpar, amp, semi] ?p"
    using a by (cases k) (auto simp: follow_def)
  moreover have "4 * length (x @ ?p) + 3 \<le> n" using a by simp
  ultimately obtain c where c: "parsepipe n (x @ ?p) = Inr (c, skip_ws ?p)" "texts c = t"
    using assms unfolding Pcl_def by blast
  obtain d where "parseback n c ?p = Inr (d, skip_ws post)" "texts d = (ABack ^^ k) (texts c)"
    using parseback_print [OF conjunct1 [OF a], of k n c] a by auto
  then show "\<exists>c d s. parsepipe n ((x @ replicate k amp) @ post) = Inr (c, s) \<and>
      parseback n c s = Inr (d, skip_ws post) \<and> texts d = (ABack ^^ k) t"
    using c by (simp add: parse_skip)
qed

lemma Lcl_back:
  assumes "Bcl x t"
  shows "Lcl x t"
  unfolding Lcl_def
proof (intro allI impI)
  fix post n
  assume a: "follow [rpar] post \<and> 4 * length (x @ post) + 4 \<le> n"
  then obtain k where n: "n = Suc k" "4 * length (x @ post) + 3 \<le> k" by (cases n) auto
  have "follow [rpar, semi] post" using a follow_mono by fastforce
  then obtain c d s where "parsepipe k (x @ post) = Inr (c, s)" "parseback k c s = Inr (d, skip_ws post)" "texts d = t"
    using assms n(2) unfolding Bcl_def by blast
  then show "\<exists>c. parseline n (x @ post) = Inr (c, skip_ws post) \<and> texts c = t"
    using follow_peek [OF conjunct1 [OF a], of "[semi]"] unfolding n(1) by simp
qed

lemma Lcl_list:
  assumes "Bcl x l" "Lcl y r"
  shows "Lcl (x @ [semi] @ y) (AList l r)"
  unfolding Lcl_def
proof (intro allI impI)
  fix post n
  assume a: "follow [rpar] post \<and> 4 * length ((x @ [semi] @ y) @ post) + 4 \<le> n"
  then obtain k where n: "n = Suc k" "4 * length (x @ semi # y @ post) + 3 \<le> k" by (cases n) auto
  have "follow [rpar, semi] (semi # y @ post)" by (simp add: follow_def)
  then obtain c d s where c: "parsepipe k (x @ semi # y @ post) = Inr (c, s)"
      "parseback k c s = Inr (d, semi # y @ post)" "texts d = l"
    using assms(1) n(2) unfolding Bcl_def by fastforce
  have "4 * length (y @ post) + 4 \<le> k" using n(2) by simp
  then obtain e where "parseline k (y @ post) = Inr (e, skip_ws post)" "texts e = r"
    using assms(2) a unfolding Lcl_def by blast
  then show "\<exists>c. parseline n ((x @ [semi] @ y) @ post) = Inr (c, skip_ws post) \<and> texts c = AList l r"
    unfolding n(1) using c by (simp add: peek_def gettoken_sym parse_skip listcmd_def)
qed

subsection \<open>Every tree\<close>

definition reads :: "ast \<Rightarrow> bool" where
  "reads t \<longleftrightarrow> (\<forall>rs. (\<forall>r \<in> set rs. redir_ok r) \<longrightarrow> Ecl (pr 0 t @ concat (map pr_redir rs)) (add_redirs t rs)) \<and>
     Pcl (pr 1 t) t \<and> (\<forall>k. Bcl (pr 2 t @ replicate k amp) ((ABack ^^ k) t)) \<and> Lcl (pr 3 t) t"

lemma readsD:
  assumes "reads t"
  shows "Ecl (pr 0 t) t" "Pcl (pr 1 t) t" "Bcl (pr 2 t) t" "Lcl (pr 3 t) t"
proof -
  show "Ecl (pr 0 t) t" using assms unfolding reads_def by (metis add_redirs_simps(1) append_Nil2 concat.simps(1) empty_iff list.set(1) list.simps(8))
  show "Bcl (pr 2 t) t" using assms unfolding reads_def by (metis append_Nil2 funpow_0 replicate_0)
qed (use assms in \<open>simp_all add: reads_def\<close>)

lemma reads_atom:
  assumes "\<And>rs. \<forall>r \<in> set rs. redir_ok r \<Longrightarrow> Ecl (pr 0 t @ concat (map pr_redir rs)) (add_redirs t rs)"
    and "pr 1 t = pr 0 t" "pr 2 t = pr 0 t" "pr 3 t = pr 0 t"
  shows "reads t"
proof -
  have "Pcl (pr 0 t) t" using assms(1) [of "[]"] Pcl_exec by simp
  moreover from Bcl_back [OF this] have b: "Bcl (pr 0 t @ replicate k amp) ((ABack ^^ k) t)" for k .
  ultimately show ?thesis using assms Lcl_back [of "pr 0 t" t] b [of 0] by (simp add: reads_def)
qed

lemma reads_ast: "wf_ast t \<Longrightarrow> reads t"
proof (induction t)
  case (AExec ws)
  then show ?case using Ecl_exec by (intro reads_atom) simp_all
next
  case (ARedir c w m d)
  have "Ecl (pr 0 c @ concat (map pr_redir ((w, m, d) # rs))) (add_redirs c ((w, m, d) # rs))"
    if "\<forall>r \<in> set rs. redir_ok r" for rs
  proof -
    have "\<forall>r \<in> set ((w, m, d) # rs). redir_ok r" using ARedir.prems that by (auto simp: redir_ok_def)
    then show ?thesis using ARedir unfolding reads_def by fastforce
  qed
  then show ?case by (intro reads_atom) (simp_all add: pr_redir_def)
next
  case (APipe l r)
  have p: "Pcl (pr 1 (APipe l r)) (APipe l r)"
    using Pcl_pipe readsD(1) [OF APipe.IH(1)] readsD(2) [OF APipe.IH(2)] APipe.prems by (simp add: parens_def)
  have b: "Bcl (pr 2 (APipe l r) @ replicate k amp) ((ABack ^^ k) (APipe l r))" for k
    using Bcl_back [OF p] by (simp add: parens_def)
  have l: "Lcl (pr 3 (APipe l r)) (APipe l r)" using Lcl_back b [of 0] by (simp add: parens_def)
  show ?case unfolding reads_def using p b l Ecl_block [OF l] by (simp add: parens_def)
next
  case (AList l r)
  have l: "Lcl (pr 3 (AList l r)) (AList l r)"
    using Lcl_list readsD(3) [OF AList.IH(1)] readsD(4) [OF AList.IH(2)] AList.prems by (simp add: parens_def)
  have p: "Pcl (pr 1 (AList l r)) (AList l r)" using Pcl_exec Ecl_block [OF l, of "[]"] by (simp add: parens_def)
  show ?case unfolding reads_def using p Bcl_back [OF p] l Ecl_block [OF l] by (simp add: parens_def)
next
  case (ABack c)
  have b: "Bcl (pr 2 (ABack c) @ replicate k amp) ((ABack ^^ k) (ABack c))" for k
  proof -
    have "Bcl (pr 2 c @ replicate (Suc k) amp) ((ABack ^^ Suc k) c)" using ABack unfolding reads_def by fastforce
    then show ?thesis by (simp add: parens_def funpow_swap1)
  qed
  have l: "Lcl (pr 3 (ABack c)) (ABack c)" using Lcl_back b [of 0] by (simp add: parens_def)
  have p: "Pcl (pr 1 (ABack c)) (ABack c)" using Pcl_exec Ecl_block [OF l, of "[]"] by (simp add: parens_def)
  show ?case unfolding reads_def using p b l Ecl_block [OF l] by (simp add: parens_def)
qed

lemma pr_no_nul: "wf_ast t \<Longrightarrow> 0 \<notin> set (pr k t)"
  by (induction t arbitrary: k) (auto simp: parens_def redir_sym_def wordp_def)

text \<open>
  C4. The parser inverts printing: any tree of commands whose words are words for \<open>gettoken\<close> and
  whose exec nodes have fewer than \<open>MAXARGS\<close> arguments, written out with \<open>|\<close>, \<open>;\<close>, \<open>&\<close>, \<open><\<close>, \<open>>\<close>, \<open>>>\<close> and with
  parentheses where the grammar needs them, is read back by \<open>parsecmd\<close> as exactly that tree, and the
  strings its nodes point to in the cut line are the words. So no construct of the shell's language
  is unreachable or read with another nesting.
\<close>

theorem parsecmd_print_roundtrip:
  assumes "wf_ast t"
  shows "\<exists>c b. parsecmd (pr 3 t) = Inr (c, b) \<and> strings b c = t"
proof -
  let ?s = "pr 3 t"
  obtain c where c: "parseline (parse_fuel ?s) ?s = Inr (c, [])" "texts c = t"
    using readsD(4) [OF reads_ast [OF assms], unfolded Lcl_def, rule_format, of "[]" "parse_fuel ?s"]
    by (auto simp: follow_def parse_fuel_def)
  have "good ?s c" using gok_parse(1) [of ?s ?s "parse_fuel ?s"] c(1) by simp
  then have "strings (nulterminate c ?s) c = t" using strings_texts pr_no_nul [OF assms] c(2) by metis
  moreover have "parsecmd ?s = Inr (c, nulterminate c ?s)" using c(1) by (simp add: parsecmd_def peek_def)
  ultimately show ?thesis by blast
qed

theorem parsecmd_print_roundtrip_witness:
  "pr 3 (AList (ABack (APipe (AExec [[97]]) (ARedir (AExec [[98], [99]]) [100] 0x601 1))) (AExec [])) =
     [97, sp, bar, 98, sp, 99, sp, gt, 100, sp, amp, semi] \<and>
   (\<exists>c b. parsecmd [97, sp, bar, 98, sp, 99, sp, gt, 100, sp, amp, semi] = Inr (c, b) \<and>
     strings b c = AList (ABack (APipe (AExec [[97]]) (ARedir (AExec [[98], [99]]) [100] 0x601 1))) (AExec []))"
proof -
  let ?t = "AList (ABack (APipe (AExec [[97]]) (ARedir (AExec [[98], [99]]) [100] 0x601 1))) (AExec [])"
  have "pr 3 ?t = [97, sp, bar, 98, sp, 99, sp, gt, 100, sp, amp, semi]" by code_simp
  moreover have "wf_ast ?t" by code_simp
  ultimately show ?thesis using parsecmd_print_roundtrip [of ?t] by simp
qed

end
