(* ===== verification/User_Malloc.thy ===== *)
theory User_Malloc
  imports Kernel_Prelude
begin

text \<open>
  \<open>user/umalloc.c\<close>: the storage allocator of the user library. A header is the two fields at its
  address; the addresses are 64-bit words, the sizes 32-bit counts of header-sized units. The system
  call \<open>sbrk\<close> is modelled here as the user program sees it, from the documented behaviour of
  \<open>sys_sbrk\<close>: the state holds the break and the number of bytes the kernel is still able to give. The
  store to a fresh header in \<open>morecore\<close> is checked against the pages of the process; a page fault kills the
  process, so the call does not return. All other accesses are to the static \<open>base\<close> and to headers
  that lie below the break (\<open>heap\<close> and its preservation).
\<close>

subsection \<open>State\<close>

record uheap =
  h_ptr :: "u64 \<Rightarrow> u64"
  h_size :: "u64 \<Rightarrow> u32"
  h_base :: u64
  h_freep :: u64
  h_brk :: u64
  h_room :: nat







subsection \<open>Operations\<close>









subsection \<open>Words and numbers\<close>

text \<open>
  Blocks are named by numbers, the address and the size in units. All addresses are below \<open>2 ^ 31\<close>:
  more memory than the machine has.
\<close>

type_synonym blk = "nat \<times> nat"

abbreviation addr :: "blk \<Rightarrow> u64" where
  "addr b \<equiv> of_nat (fst b)"

definition small :: "blk \<Rightarrow> bool" where
  "small b \<longleftrightarrow> fst b + 16 * snd b < 2 ^ 31"



lemma smallD: "small b \<Longrightarrow> fst b < 2 ^ 31" "small b \<Longrightarrow> snd b < 2 ^ 31" "small (a, n) \<Longrightarrow> a + 16 * n < 2 ^ 31"
  by (simp_all add: small_def)


subsection \<open>Segments of the list\<close>

text \<open>\<open>fseg h bs p q\<close>: from \<open>p\<close> the pointers lead through the blocks \<open>bs\<close> to \<open>q\<close>.\<close>

fun fseg :: "uheap \<Rightarrow> blk list \<Rightarrow> u64 \<Rightarrow> u64 \<Rightarrow> bool" where
  "fseg h [] p q \<longleftrightarrow> p = q"
| "fseg h (b # bs) p q \<longleftrightarrow> p = addr b \<and> h_size h p = of_nat (snd b) \<and> fseg h bs (h_ptr h p) q"



lemma fseg_start: "fseg h xs p q \<Longrightarrow> p = (case xs of [] \<Rightarrow> q | b # _ \<Rightarrow> addr b)"
  by (cases xs) simp_all

text \<open>The order of the free list: a block ends before the next one starts, with a gap.\<close>

definition before :: "blk \<Rightarrow> blk \<Rightarrow> bool" where
  "before b c \<longleftrightarrow> fst b + 16 * snd b < fst c"


lemma before_less: "before b c \<Longrightarrow> fst b < fst c"
  by (simp add: before_def)

subsection \<open>The search of free\<close>



subsection \<open>Joining neighbours\<close>
















subsection \<open>The heap in order\<close>






subsection \<open>The search of malloc\<close>








subsection \<open>More memory\<close>



subsection \<open>Clients\<close>















subsection \<open>Properties\<close>











end
