(* ===== verification/Spec2Isabelle.thy ===== *)
theory Spec2Isabelle
  imports Fs_Atomic Trap Sleep_Wakeup User_Grep User_Sh_Print User_Malloc
begin

text \<open>
  A verification development for a small Unix-like system: the kernel of xv6 for RISC-V
  (\<open>src/kernel\<close>) and its user programs (\<open>src/user\<close>).

  \<^bold>\<open>How the program is modelled.\<close> Every C function of a modelled file is one definition of the same name,
  with its loops as auxiliary definitions next to it. A kernel function is a function from the kernel
  state to an outcome (\<open>Kernel_Prelude\<close>): it returns, panics, spins, switches to the scheduler with the
  rest of the call as a continuation, or makes an access that C leaves undefined. Unsigned machine
  integers and addresses are words of their width. Signed counters (lock nesting, reference counts, process
  numbers, the length of the log, descriptors) are HOL integers, used where they stay within the range of an int; where
  the code can leave that range in a stated theorem, the bound is a hypothesis or the overflow a fault. The kernel state is a record that each layer extends by its own variables, in
  the order of the calls: locks and CPUs, memory, page tables, processes, UART, console, sleep locks,
  buffers and disk, log, inodes, pipes, files, process life cycle, virtio, traps. An operation of a
  layer is polymorphic in the fields of the layers above it.

  \<^bold>\<open>Theories and sources.\<close>
  \<^item> \<open>Kernel_Prelude\<close>: word types, the kernel monad and its weakest preconditions, byte sequences.
    \<open>Kernel_Params\<close>, \<open>Disk_Layout\<close>: \<open>param.h\<close>, \<open>fs.h\<close>, \<open>riscv.h\<close>, \<open>memlayout.h\<close>; fields of disk blocks.
  \<^item> \<open>Kernel_String\<close>: \<open>string.c\<close> on a byte-addressed memory. \<open>Ring\<close>: circular buffers with free-running
    counters, a locale that the UART and the console interpret.
  \<^item> \<open>Spinlock\<close>: \<open>spinlock.c\<close>, and a second model of it with the steps of several harts interleaved.
    \<open>Kalloc\<close>: \<open>kalloc.c\<close>. \<open>Vm\<close>, \<open>Vm_Tables\<close>, \<open>Vm_Copy\<close>: \<open>vm.c\<close> on page tables in memory.
  \<^item> \<open>Proc_Core\<close>, \<open>Proc_Life\<close>: \<open>proc.c\<close>; \<open>Sleep_Wakeup\<close>: the actions of its \<open>sleep\<close>, \<open>wakeup\<close> and \<open>yield\<close>,
    interleaved. \<open>Sleeplock\<close>: \<open>sleeplock.c\<close>. \<open>Uart\<close>, \<open>Printf\<close>, \<open>Console\<close>: \<open>uart.c\<close>,
    \<open>printf.c\<close>, \<open>console.c\<close>.
  \<^item> \<open>Bio\<close>, \<open>Bio_Abs\<close>: \<open>bio.c\<close> and its contract. \<open>Log\<close>, \<open>Log_Crash\<close>: \<open>log.c\<close> and crashes. \<open>Fs\<close>: \<open>fs.c\<close>;
    \<open>Fs_Tx\<close>, \<open>Fs_Blocks\<close>, \<open>Fs_Files\<close>, \<open>Fs_Rw\<close>, \<open>Fs_Inode\<close>, \<open>Fs_Atomic\<close>: transactions, the free map, block
    addresses, reading and writing, inodes on disk, and what they promise together.
  \<^item> \<open>Pipe\<close>, \<open>File\<close>: \<open>pipe.c\<close>, \<open>file.c\<close>. \<open>Syscall_Args\<close>, \<open>Exec\<close>, \<open>Sysfile\<close>, \<open>Syscall\<close>: \<open>syscall.c\<close>, \<open>exec.c\<close>,
    \<open>sysfile.c\<close>, \<open>sysproc.c\<close>. \<open>Virtio\<close>: \<open>virtio_disk.c\<close>. \<open>Trap\<close>: \<open>trap.c\<close>, \<open>plic.c\<close>, \<open>main.c\<close>.
  \<^item> \<open>User_Grep\<close>: \<open>grep.c\<close>. \<open>User_Sh\<close>, \<open>User_Sh_Print\<close>: the parser of \<open>sh.c\<close> and printing of command lines.
    \<open>User_Malloc\<close>: \<open>umalloc.c\<close>.

  \<^bold>\<open>What is shown.\<close>
  \<^item> The disk: a transaction is atomic for crashes at any disk write, also at any write
    that an interrupted \<open>initlog\<close> does, in its order; a file write
    is, and leaves other files alone; what is written is read back; blocks are allocated first-free, and
    a double free panics.
  \<^item> Memory: pages are neither lost nor handed out twice; \<open>mappages\<close> changes exactly the requested
    translations; \<open>copyin\<close> and \<open>copyout\<close> move exactly the bytes of mapped user ranges; \<open>memmove\<close> and
    \<open>safestrcpy\<close>.
  \<^item> Concurrency: mutual exclusion of spin locks for any interleaving, nesting of interrupt
    disabling, no lost wakeup in any interleaving of sleepers, wakers, kills, preemption and schedulers.
  \<^item> Devices: the UART sends characters in order and as many as the device takes, the console buffer is a line editor, \<open>printf\<close> prints
    the decimal numeral of a number, and the numbers for which its buffer is too small.
  \<^item> User programs: the shell parser ends, reads back every printed command line and cuts its
    tokens; grep's matcher accepts the language of the pattern and grep writes the matching lines; the
    storage allocator keeps blocks apart and joins freed memory, and a request it should refuse
    kills the process.

  \<^bold>\<open>Bounds.\<close> Loops that wait for another process or a device are resumed at most \<open>patience\<close> times, a field
  of the state that theorems leave arbitrary or large enough. The shell parser takes the length of
  the line as fuel and is shown never to run out. Searches through linked lists are partial functions
  that are shown to return. A number of rounds bounds the scheduler, which never returns.

  \<^bold>\<open>Not modelled.\<close> Assembly (\<open>entry.S\<close>, \<open>kernelvec.S\<close>, \<open>swtch.S\<close>, \<open>trampoline.S\<close>, \<open>initcode.S\<close>) and \<open>start.c\<close>, which
  sets machine-mode registers; \<open>mkfs.c\<close>, a program of the host; running command trees in \<open>sh.c\<close> and
  \<open>my_shell.c\<close>, which needs the system calls of several processes at once; the C library
  (\<open>ulib.c\<close>, \<open>printf.c\<close> of \<open>src/user\<close>), the small commands, and the test programs (\<open>usertests.c\<close>, \<open>grind.c\<close>,
  \<open>forktest.c\<close>, \<open>stressfs.c\<close>). Weak memory is not modelled: fences are no-ops. The disk driver is
  modelled, but the buffer cache relies on the transfer of one block by \<open>disk_rw\<close>. The allocator has its own
  model of \<open>sbrk\<close>, as a user program sees it; it is not derived from \<open>sys_sbrk\<close>. Page faults of user code are
  modelled where the allocator stores to fresh memory.
\<close>

end
